(* ===== verification/Prelude.thy ===== *)
theory Prelude
  imports Main "HOL-Library.Word"
begin

text \<open>
  Shared ground of the development: names for the machine integers of the C++ code, the
  collections of rewrite rules that the component theories extend, and generic lemmas on
  machine words and finite maps that several components use.

  Unsigned C++ integers are words of their width (\<open>+\<close> and \<open>-\<close> wrap); \<open>int64_t\<close> is a
  64-bit word read through \<open>sint\<close> and compared with the signed order.
\<close>

unbundle bit_operations_syntax

type_synonym u8 = "8 word"
type_synonym u16 = "16 word"
type_synonym u32 = "32 word"
type_synonym u64 = "64 word"
type_synonym i64 = "64 word"

text \<open>Collections filled by the component theories.\<close>

named_theorems wf_intro \<open>preservation of a component's well-formedness\<close>
named_theorems frame_simp \<open>state components an operation leaves alone\<close>

subsection \<open>Words without wrap-around\<close>

lemma unat_add_no_wrap:
  fixes a b :: "'n::len word"
  assumes "unat a + unat b < 2 ^ LENGTH('n)"
  shows "unat (a + b) = unat a + unat b"
  using assms by (simp add: unat_word_ariths)

lemma unat_sub_no_wrap:
  fixes a b :: "'n::len word"
  assumes "b \<le> a"
  shows "unat (a - b) = unat a - unat b"
  using assms by (rule unat_sub)

lemma of_nat_eq_iff_small:
  assumes "m < 2 ^ LENGTH('n)" and "n < 2 ^ LENGTH('n)"
  shows "(of_nat m :: 'n::len word) = of_nat n \<longleftrightarrow> m = n"
  using assms by (simp add: word_of_nat_eq_iff take_bit_nat_eq_self)

lemma of_nat_eq_0_iff_small:
  assumes "n < 2 ^ LENGTH('n)"
  shows "(of_nat n :: 'n::len word) = 0 \<longleftrightarrow> n = 0"
  using of_nat_eq_iff_small [of n 0] assms by simp

lemma unat_of_nat_small:
  "n < 2 ^ LENGTH('n) \<Longrightarrow> unat (of_nat n :: 'n::len word) = n"
  by (simp add: unat_of_nat take_bit_nat_eq_self)

lemma word_pos_iff_unat: "0 < (a :: 'n::len word) \<longleftrightarrow> 0 < unat a"
  by (simp add: word_less_nat_alt)

subsection \<open>Sums over finite maps\<close>

text \<open>\<open>msum f m\<close> adds up \<open>f\<close> over the values stored in the map \<open>m\<close>.\<close>

definition msum :: "('v \<Rightarrow> nat) \<Rightarrow> ('k \<rightharpoonup> 'v) \<Rightarrow> nat" where
  "msum f m = (\<Sum>k\<in>dom m. f (the (m k)))"

lemma msum_empty [simp]: "msum f Map.empty = 0"
  by (simp add: msum_def)

lemma msum_upd:
  assumes "finite (dom m)" and "m k = None"
  shows "msum f (m(k \<mapsto> v)) = f v + msum f m"
proof -
  have "(\<Sum>j\<in>dom m. f (the ((m(k \<mapsto> v)) j))) = (\<Sum>j\<in>dom m. f (the (m j)))"
    using assms(2) by (intro sum.cong) auto
  moreover have "k \<notin> dom m" using assms(2) by auto
  ultimately show ?thesis using assms(1) by (simp add: msum_def)
qed

lemma msum_del:
  assumes "finite (dom m)" and "m k = Some v"
  shows "msum f m = f v + msum f (m(k := None))"
proof -
  let ?m = "m(k := None)"
  have "finite (dom ?m)" using assms(1) by simp
  moreover have "?m k = None" by simp
  moreover have "?m(k \<mapsto> v) = m" using assms(2) by (simp add: fun_upd_idem)
  ultimately show ?thesis using msum_upd [of ?m k f v] by simp
qed

lemma msum_mono: "(\<And>v. f v \<le> g v) \<Longrightarrow> msum f m \<le> msum g m"
  unfolding msum_def by (intro sum_mono) simp

lemma msum_ge:
  assumes "finite (dom m)" and "m k = Some v"
  shows "f v \<le> msum f m"
  using msum_del [OF assms, of f] by simp

lemma msum_eq_0_iff:
  assumes "finite (dom m)"
  shows "msum f m = 0 \<longleftrightarrow> (\<forall>k v. m k = Some v \<longrightarrow> f v = 0)"
  using assms by (auto simp: msum_def dom_def)

lemma msum_pos_iff:
  assumes "finite (dom m)"
  shows "0 < msum f m \<longleftrightarrow> (\<exists>k v. m k = Some v \<and> 0 < f v)"
  using msum_eq_0_iff [OF assms, of f] by auto

end
