(* ===== verification/Ordered_Map.thy ===== *)
theory Ordered_Map
  imports Prelude "HOL-Library.Char_ord" "HOL-Library.List_Lexorder"
begin

text \<open>
  The standard library's \<open>std::map<K, V, Compare>\<close> as the program uses it: a list of
  key/value pairs kept in the order of the comparator, which is a parameter as it is in
  C++. \<open>om_find\<close>, \<open>om_put\<close> and \<open>om_erase\<close> are \<open>find\<close>, assignment through \<open>operator[]\<close>
  (insert or overwrite) and \<open>erase(key)\<close>; \<open>begin()\<close> is the head of the list and iteration
  is the list order. The locale \<open>comparator\<close> is the contract the library puts on
  \<open>Compare\<close> (a strict total order, so that equivalent keys are equal); the interpretations
  at the end are the three comparators of the program: \<open>std::greater<int64_t>\<close>,
  \<open>std::less<int64_t>\<close> and \<open>std::less<std::string>\<close>.
\<close>

type_synonym ('k, 'v) omap = "('k \<times> 'v) list"

fun om_find :: "('k \<Rightarrow> 'k \<Rightarrow> bool) \<Rightarrow> 'k \<Rightarrow> ('k, 'v) omap \<Rightarrow> 'v option" where
  "om_find lt k [] = None"
| "om_find lt k ((j, w) # m) =
     (if lt j k then om_find lt k m else if lt k j then None else Some w)"

fun om_put :: "('k \<Rightarrow> 'k \<Rightarrow> bool) \<Rightarrow> 'k \<Rightarrow> 'v \<Rightarrow> ('k, 'v) omap \<Rightarrow> ('k, 'v) omap" where
  "om_put lt k v [] = [(k, v)]"
| "om_put lt k v ((j, w) # m) =
     (if lt j k then (j, w) # om_put lt k v m
      else if lt k j then (k, v) # (j, w) # m
      else (j, v) # m)"

fun om_erase :: "('k \<Rightarrow> 'k \<Rightarrow> bool) \<Rightarrow> 'k \<Rightarrow> ('k, 'v) omap \<Rightarrow> ('k, 'v) omap" where
  "om_erase lt k [] = []"
| "om_erase lt k ((j, w) # m) =
     (if lt j k then (j, w) # om_erase lt k m
      else if lt k j then (j, w) # m
      else m)"

definition om_begin :: "('k, 'v) omap \<Rightarrow> ('k \<times> 'v) option" where
  "om_begin m = (case m of [] \<Rightarrow> None | p # _ \<Rightarrow> Some p)"

definition om_wf :: "('k \<Rightarrow> 'k \<Rightarrow> bool) \<Rightarrow> ('k, 'v) omap \<Rightarrow> bool" where
  "om_wf lt m \<longleftrightarrow> sorted_wrt (\<lambda>p q. lt (fst p) (fst q)) m"

lemma om_wf_Nil [simp]: "om_wf lt []"
  by (simp add: om_wf_def)

lemma om_wf_Cons: "om_wf lt (p # m) \<longleftrightarrow> (\<forall>q\<in>set m. lt (fst p) (fst q)) \<and> om_wf lt m"
  by (simp add: om_wf_def)

lemma om_begin_Nil [simp]: "om_begin [] = None"
  by (simp add: om_begin_def)

lemma om_begin_Cons [simp]: "om_begin (p # m) = Some p"
  by (simp add: om_begin_def)

lemma om_begin_None_iff: "om_begin m = None \<longleftrightarrow> m = []"
  by (cases m) simp_all

text \<open>The contract of a comparator and what it gives the map operations.\<close>

locale comparator =
  fixes lt :: "'k \<Rightarrow> 'k \<Rightarrow> bool"
  assumes lt_irrefl: "\<not> lt a a"
    and lt_trans: "lt a b \<Longrightarrow> lt b c \<Longrightarrow> lt a c"
    and lt_total: "a \<noteq> b \<Longrightarrow> lt a b \<or> lt b a"
begin

lemma lt_asym: "lt a b \<Longrightarrow> \<not> lt b a"
  using lt_irrefl lt_trans by blast

lemma lt_cases:
  obtains "lt a b" "a \<noteq> b" "\<not> lt b a" | "a = b" "\<not> lt a b" "\<not> lt b a"
    | "lt b a" "a \<noteq> b" "\<not> lt a b"
  using lt_total lt_asym lt_irrefl by metis

lemma lt_iff: "lt a b \<longleftrightarrow> a \<noteq> b \<and> \<not> lt b a"
  by (cases rule: lt_cases [of a b]) auto

lemma set_om_put: "set (om_put lt k v m) \<subseteq> insert (k, v) (set m)"
proof (induction m)
  case (Cons p m)
  show ?case
    by (cases p; cases rule: lt_cases [of "fst p" k]) (use Cons in auto)
qed simp

lemma set_om_erase: "set (om_erase lt k m) \<subseteq> set m"
  by (induction m) (auto split: if_splits)

lemma om_wf_put: "om_wf lt m \<Longrightarrow> om_wf lt (om_put lt k v m)"
proof (induction m)
  case (Cons p m)
  obtain j w where p: "p = (j, w)" by force
  have "lt j (fst q)" if "q \<in> set (om_put lt k v m)" and "lt j k" for q
    using that set_om_put [of k v m] Cons.prems p by (auto simp: om_wf_Cons)
  moreover have "lt k (fst q)" if "q \<in> set m" and "lt k j" for q
    using that Cons.prems p lt_trans by (auto simp: om_wf_Cons)
  ultimately show ?case using Cons p by (auto simp: om_wf_Cons)
qed (simp add: om_wf_def)

lemma om_wf_erase: "om_wf lt m \<Longrightarrow> om_wf lt (om_erase lt k m)"
proof (induction m)
  case (Cons p m)
  then show ?case
    using set_om_erase [of k m] by (cases p) (auto simp: om_wf_Cons)
qed simp

lemma om_find_above: "\<forall>q\<in>set m. lt k (fst q) \<Longrightarrow> om_find lt k m = None"
  by (induction m) (auto dest: lt_asym)

lemma om_find_map_of: "om_wf lt m \<Longrightarrow> om_find lt k m = map_of m k"
proof (induction m)
  case (Cons p m)
  obtain j w where p: "p = (j, w)" by force
  show ?case
  proof (cases rule: lt_cases [of j k])
    case 3
    have "k \<noteq> fst q" if "q \<in> set m" for q
    proof -
      have "lt j (fst q)" using that Cons.prems p by (simp add: om_wf_Cons)
      with 3(1) show ?thesis using lt_trans lt_irrefl by blast
    qed
    then have "map_of m k = None" by (force simp: map_of_eq_None_iff)
    with 3 p show ?thesis by simp
  qed (use Cons p in \<open>auto simp: om_wf_Cons lt_irrefl\<close>)
qed simp

lemma om_find_put:
  "om_find lt j (om_put lt k v m) = (if j = k then Some v else om_find lt j m)"
proof (induction m)
  case Nil
  show ?case by (cases rule: lt_cases [of j k]) (auto simp: lt_irrefl)
next
  case (Cons p m)
  obtain i w where p: "p = (i, w)" by force
  show ?case
  proof (cases rule: lt_cases [of i k])
    case 1
    with Cons p show ?thesis by auto
  next
    case 2
    with p show ?thesis by (cases rule: lt_cases [of j k]) (simp_all add: lt_irrefl)
  next
    case 3
    have "lt j k \<Longrightarrow> lt j i \<and> \<not> lt i j" using 3(1) lt_trans lt_asym by blast
    with 3 p show ?thesis
      by (cases rule: lt_cases [of j k]) (simp_all add: lt_irrefl)
  qed
qed

lemma om_find_erase:
  "om_wf lt m \<Longrightarrow> om_find lt j (om_erase lt k m) = (if j = k then None else om_find lt j m)"
proof (induction m)
  case (Cons p m)
  obtain i w where p: "p = (i, w)" by force
  show ?case
  proof (cases rule: lt_cases [of i k])
    case 1
    with Cons p show ?thesis by (auto simp: om_wf_Cons)
  next
    case 2
    have above: "om_find lt j m = None" if "\<not> lt i j"
    proof (rule om_find_above, rule ballI)
      fix q assume "q \<in> set m"
      with Cons.prems p have "lt i (fst q)" by (simp add: om_wf_Cons)
      then show "lt j (fst q)" using that by (metis lt_trans lt_total)
    qed
    show ?thesis
    proof (cases rule: lt_cases [of i j])
      case 1
      with p 2 show ?thesis by simp
    next
      case 2
      with p \<open>i = k\<close> above show ?thesis by (simp add: lt_irrefl)
    next
      case 3
      with p \<open>i = k\<close> above show ?thesis by (simp add: lt_irrefl)
    qed
  next
    case 3
    then show ?thesis using p by (auto simp: lt_irrefl)
  qed
qed simp

text \<open>\<open>begin()\<close> is the least key, and finds are in order.\<close>

lemma om_begin_least:
  assumes "om_wf lt m" and "om_begin m = Some (k, v)"
  shows "om_find lt k m = Some v \<and> (\<forall>j. om_find lt j m \<noteq> None \<longrightarrow> j = k \<or> lt k j)"
proof -
  obtain m' where m: "m = (k, v) # m'"
    using assms(2) by (cases m) auto
  have "j = k \<or> lt k j" if "om_find lt j m \<noteq> None" for j
    using that m by (cases rule: lt_cases [of k j]) auto
  with m show ?thesis by (simp add: lt_irrefl)
qed

lemma om_begin_iff:
  assumes "om_wf lt m"
  shows "om_begin m = Some (k, v) \<longleftrightarrow>
    om_find lt k m = Some v \<and> (\<forall>j. om_find lt j m \<noteq> None \<longrightarrow> j = k \<or> lt k j)"
    (is "?L \<longleftrightarrow> ?R")
proof
  assume ?L
  with assms show ?R by (rule om_begin_least)
next
  assume R: ?R
  then obtain j w where b: "om_begin m = Some (j, w)"
    by (cases m) auto
  with assms have "om_find lt j m = Some w \<and> (\<forall>i. om_find lt i m \<noteq> None \<longrightarrow> i = j \<or> lt j i)"
    by (rule om_begin_least)
  then have "k = j \<or> lt j k" and "j = k \<or> lt k j" and "om_find lt j m = Some w"
    using R by auto
  with R b show ?L using lt_asym by auto
qed

lemma om_find_all_None_iff:
  assumes "om_wf lt m"
  shows "(\<forall>k. om_find lt k m = None) \<longleftrightarrow> m = []"
proof (cases m)
  case (Cons p m')
  then have "om_find lt (fst p) m = Some (snd p)"
    by (cases p) (simp add: lt_irrefl)
  with Cons show ?thesis by (metis option.distinct(1) list.distinct(1))
qed simp

lemma om_keys_distinct: "om_wf lt m \<Longrightarrow> distinct (map fst m)"
  by (induction m) (auto simp: om_wf_Cons lt_irrefl)

lemma om_length_card: "om_wf lt m \<Longrightarrow> length m = card {k. om_find lt k m \<noteq> None}"
proof -
  assume wf: "om_wf lt m"
  then have "{k. om_find lt k m \<noteq> None} = set (map fst m)"
    by (auto simp: om_find_map_of map_of_eq_None_iff)
  then show ?thesis
    using om_keys_distinct [OF wf] by (metis distinct_card length_map)
qed

lemma om_set_find: "om_wf lt m \<Longrightarrow> (k, v) \<in> set m \<longleftrightarrow> om_find lt k m = Some v"
  using om_keys_distinct om_find_map_of by (metis map_of_eq_Some_iff)

text \<open>A map is determined by what it finds: the representation is canonical.\<close>

lemma om_ext:
  assumes "om_wf lt m" and "om_wf lt n" and "\<And>k. om_find lt k m = om_find lt k n"
  shows "m = n"
  using assms
proof (induction m arbitrary: n)
  case Nil
  then show ?case using om_find_all_None_iff by (metis om_find.simps(1))
next
  case (Cons p m)
  obtain k v where p: "p = (k, v)" by force
  have "om_begin n = Some (k, v)"
    using om_begin_iff [OF Cons.prems(1)] om_begin_iff [OF Cons.prems(2)] Cons.prems(3) p
    by (metis om_begin_Cons)
  then obtain n' where n: "n = (k, v) # n'" by (cases n) auto
  have hd: "om_find lt j m' = None" if "om_wf lt ((k, v) # m')" and "\<not> lt k j" for j and m' :: "('k, 'a) omap"
  proof (rule om_find_above, rule ballI)
    fix q assume "q \<in> set m'"
    with that(1) have "lt k (fst q)" by (simp add: om_wf_Cons)
    then show "lt j (fst q)" using that(2) by (metis lt_trans lt_total)
  qed
  have "om_find lt j m = om_find lt j n'" for j
  proof (cases "lt k j")
    case True
    then show ?thesis using Cons.prems(3) [of j] p n by simp
  next
    case False
    then show ?thesis using hd [of m j] hd [of n' j] Cons.prems(1,2) p n by simp
  qed
  then show ?case
    using Cons.IH [of n'] Cons.prems(1,2) p n by (simp add: om_wf_Cons)
qed

end

text \<open>The signed order on words is the order of their signed readings.\<close>

lemma sint_eq_iff: "sint (a :: 'n::len word) = sint b \<longleftrightarrow> a = b"
  by (rule word_eq_iff_signed [symmetric])

lemma sle_iff_eq_or_sless: "(a :: 'n::len word) \<le>s b \<longleftrightarrow> a = b \<or> a <s b"
  by (auto simp: word_sless_alt word_sle_eq simp flip: sint_eq_iff)

text \<open>The three comparators of the program.\<close>

definition bid_before :: "i64 \<Rightarrow> i64 \<Rightarrow> bool" where
  \<comment> \<open>\<open>std::greater<int64_t>\<close>: the highest price comes first\<close>
  "bid_before a b \<longleftrightarrow> b <s a"

definition ask_before :: "i64 \<Rightarrow> i64 \<Rightarrow> bool" where
  \<comment> \<open>\<open>std::less<int64_t>\<close>: the lowest price comes first\<close>
  "ask_before a b \<longleftrightarrow> a <s b"

definition string_before :: "string \<Rightarrow> string \<Rightarrow> bool" where
  \<comment> \<open>\<open>std::less<std::string>\<close>: bytewise lexicographic\<close>
  "string_before a b \<longleftrightarrow> a < b"

interpretation bid_map: comparator bid_before
  by unfold_locales (auto simp: bid_before_def word_sless_alt simp flip: sint_eq_iff)

interpretation ask_map: comparator ask_before
  by unfold_locales (auto simp: ask_before_def word_sless_alt simp flip: sint_eq_iff)

interpretation string_map: comparator string_before
  by unfold_locales (auto simp: string_before_def)

end
