(* ===== verification/Binary64.thy ===== *)
theory Binary64
  imports Complex_Main Prelude "HOL-Library.Log_Nat"
begin

text \<open>
  The C++ type \<open>double\<close>: IEEE 754 binary64 with round to nearest, ties to even. A finite
  double is the rational number it denotes; every arithmetic operation of the source is the
  exact rational operation followed by \<open>fl\<close>, which rounds to the 53-bit grid (with the
  subnormal grid below \<open>2 ^ -1022\<close>). Infinities and NaN are not represented: the values
  the program computes stay far below \<open>2 ^ 1024\<close>, and every division whose divisor the code
  does not test has a positive divisor. The two zeros are one value, which no comparison of
  the program tells apart. The locale \<open>rounding\<close> states what the clients use of \<open>fl\<close>.
\<close>

type_synonym double = rat

definition round_even :: "rat \<Rightarrow> int" where
  "round_even x =
     (let f = \<lfloor>x\<rfloor>; r = x - of_int f
      in if r < 1 / 2 then f else if 1 / 2 < r then f + 1
         else if even f then f else f + 1)"

definition rat_exp :: "rat \<Rightarrow> int" where
  \<comment> \<open>the \<open>k\<close> with \<open>2 ^ k \<le> x < 2 ^ (k + 1)\<close>, for positive \<open>x\<close>\<close>
  "rat_exp x =
     (let nd = quotient_of x; k = bitlen (fst nd) - bitlen (snd nd)
      in if 2 powi k \<le> x then k else k - 1)"

definition grid_exp :: "rat \<Rightarrow> int" where
  "grid_exp x = max (rat_exp \<bar>x\<bar> - 52) (- 1074)"

definition fl :: "rat \<Rightarrow> double" where
  "fl x =
     (if x = 0 then 0
      else of_int (round_even (x / 2 powi grid_exp x)) * 2 powi grid_exp x)"

definition of_u64 :: "u64 \<Rightarrow> double" where
  \<comment> \<open>conversion \<open>uint64_t\<close> to \<open>double\<close>\<close>
  "of_u64 w = fl (of_int (uint w))"

definition of_i64 :: "i64 \<Rightarrow> double" where
  \<comment> \<open>conversion \<open>int64_t\<close> to \<open>double\<close>\<close>
  "of_i64 w = fl (of_int (sint w))"

definition of_u32 :: "u32 \<Rightarrow> double" where
  \<comment> \<open>conversion \<open>uint32_t\<close> to \<open>double\<close>\<close>
  "of_u32 w = fl (of_int (uint w))"

subsection \<open>Rounding to an integer\<close>

lemma round_even_of_int [simp]: "round_even (of_int n) = n"
  by (simp add: round_even_def)

lemma round_even_near: "\<bar>of_int (round_even x) - x\<bar> \<le> 1 / 2"
proof -
  have "of_int \<lfloor>x\<rfloor> \<le> x" and "x < of_int \<lfloor>x\<rfloor> + 1" using floor_correct [of x] by auto
  then have "round_even x = \<lfloor>x\<rfloor> \<and> x - of_int \<lfloor>x\<rfloor> \<le> 1 / 2
      \<or> round_even x = \<lfloor>x\<rfloor> + 1 \<and> 1 / 2 \<le> x - of_int \<lfloor>x\<rfloor>"
    by (auto simp: round_even_def Let_def not_less)
  then show ?thesis
    using \<open>of_int \<lfloor>x\<rfloor> \<le> x\<close> \<open>x < of_int \<lfloor>x\<rfloor> + 1\<close> by (auto simp: abs_le_iff)
qed

lemma round_even_mono:
  assumes "x \<le> y"
  shows "round_even x \<le> round_even y"
proof (cases "\<lfloor>x\<rfloor> = \<lfloor>y\<rfloor>")
  case True
  with assms show ?thesis by (auto simp: round_even_def Let_def)
next
  case False
  with assms have "\<lfloor>x\<rfloor> + 1 \<le> \<lfloor>y\<rfloor>" using floor_mono [OF assms] by linarith
  moreover have "round_even x \<le> \<lfloor>x\<rfloor> + 1" and "\<lfloor>y\<rfloor> \<le> round_even y"
    by (auto simp: round_even_def Let_def)
  ultimately show ?thesis by linarith
qed

lemma round_even_minus: "round_even (- x) = - round_even x"
proof (cases "x = of_int \<lfloor>x\<rfloor>")
  case True
  then obtain n where "x = of_int n" by blast
  then have "- x = of_int (- n)" and "x = of_int n" by simp_all
  then show ?thesis by (metis round_even_of_int)
next
  case False
  moreover have "of_int \<lfloor>x\<rfloor> \<le> x" and "x < of_int \<lfloor>x\<rfloor> + 1"
    using floor_correct [of x] by auto
  ultimately have f: "\<lfloor>- x\<rfloor> = - \<lfloor>x\<rfloor> - 1"
    by (intro floor_unique) (auto simp: le_less)
  then have "even \<lfloor>- x\<rfloor> \<longleftrightarrow> odd \<lfloor>x\<rfloor>" by simp
  then show ?thesis unfolding round_even_def Let_def f by auto
qed

subsection \<open>The binary exponent\<close>

lemma bitlen_lower: "0 < n \<Longrightarrow> 2 powi (bitlen n - 1) \<le> (of_int n :: rat)"
proof -
  assume "0 < n"
  then have "2 ^ nat (bitlen n - 1) \<le> n" and "0 < bitlen n"
    using bitlen_bounds [of n] bitlen_ge_iff_power [of 1 n] by auto
  then have "(2 :: rat) ^ nat (bitlen n - 1) \<le> of_int n"
    by (metis of_int_le_iff of_int_numeral of_int_power)
  then show ?thesis using \<open>0 < bitlen n\<close> by (simp add: power_int_def)
qed

lemma bitlen_upper: "0 < n \<Longrightarrow> (of_int n :: rat) < 2 powi bitlen n"
proof -
  assume "0 < n"
  then have "n < 2 ^ nat (bitlen n)"
    using bitlen_bounds [of n] by simp
  then have "(of_int n :: rat) < 2 ^ nat (bitlen n)"
    by (metis of_int_less_iff of_int_numeral of_int_power)
  then show ?thesis by (simp add: power_int_def bitlen_def)
qed

lemma rat_exp_bounds:
  assumes "0 < x"
  shows "2 powi rat_exp x \<le> x" and "x < 2 powi (rat_exp x + 1)"
proof -
  obtain n d where q: "quotient_of x = (n, d)" by force
  have x: "x = of_int n / of_int d" and d: "0 < d"
    using quotient_of_div [OF q] quotient_of_denom_pos [OF q] by auto
  with assms have n: "0 < n" by (simp add: zero_less_divide_iff)
  let ?k = "bitlen n - bitlen d"
  have "2 powi (?k - 1) * of_int d \<le> 2 powi (?k - 1) * (2 powi bitlen d :: rat)"
    using bitlen_upper [OF d] by simp
  also have "\<dots> = 2 powi (bitlen n - 1)" by (simp flip: power_int_add)
  also have "\<dots> \<le> of_int n" by (rule bitlen_lower [OF n])
  finally have lo: "2 powi (?k - 1) \<le> x" using d by (simp add: x field_simps)
  have "of_int n < (2 powi bitlen n :: rat)" by (rule bitlen_upper [OF n])
  also have "\<dots> = 2 powi (?k + 1) * 2 powi (bitlen d - 1)" by (simp flip: power_int_add)
  also have "\<dots> \<le> 2 powi (?k + 1) * of_int d" using bitlen_lower [OF d] by simp
  finally have hi: "x < 2 powi (?k + 1)" using d by (simp add: x field_simps)
  show "2 powi rat_exp x \<le> x" and "x < 2 powi (rat_exp x + 1)"
    using lo hi by (auto simp: rat_exp_def q Let_def)
qed

lemma powi2_le_iff: "(2 powi a :: rat) \<le> 2 powi b \<longleftrightarrow> a \<le> b"
  proof
  assume "(2 powi a :: rat) \<le> 2 powi b"
  then show "a \<le> b" by (metis not_le power_int_strict_increasing one_less_numeral_iff semiring_norm(76))
qed (simp add: power_int_increasing)

lemma powi2_pos [simp]: "0 < (2 powi a :: rat)"
  by simp

lemma rat_exp_mono:
  assumes "0 < x" and "x \<le> y"
  shows "rat_exp x \<le> rat_exp y"
proof -
  have "2 powi rat_exp x \<le> x" using assms rat_exp_bounds by blast
  also have "\<dots> < 2 powi (rat_exp y + 1)"
    using assms rat_exp_bounds(2) [of y] by linarith
  finally have "\<not> rat_exp y + 1 \<le> rat_exp x"
    using powi2_le_iff [of "rat_exp y + 1" "rat_exp x"] by linarith
  then show ?thesis by linarith
qed

lemma rat_exp_less:
  assumes "0 < x" and "x < 2 powi k"
  shows "rat_exp x < k"
proof -
  have "2 powi rat_exp x < (2 powi k :: rat)"
    using assms rat_exp_bounds(1) [of x] by linarith
  then show ?thesis using powi2_le_iff [of k "rat_exp x"] by linarith
qed

subsection \<open>Rounding to binary64\<close>

lemma grid_exp_minus [simp]: "grid_exp (- x) = grid_exp x"
  by (simp add: grid_exp_def)

lemma fl_zero [simp]: "fl 0 = 0"
  by (simp add: fl_def)

lemma fl_minus: "fl (- x) = - fl x"
  by (simp add: fl_def round_even_minus)

lemma fl_nonneg:
  assumes "0 \<le> x"
  shows "0 \<le> fl x"
proof -
  have "round_even (of_int 0) \<le> round_even (x / 2 powi grid_exp x)"
    using assms by (intro round_even_mono) simp
  then show ?thesis
    unfolding round_even_of_int by (simp add: fl_def)
qed

lemma fl_mono_pos:
  assumes "0 < x" and "x \<le> y"
  shows "fl x \<le> fl y"
proof (cases "grid_exp x = grid_exp y")
  case True
  have "round_even (x / 2 powi grid_exp y) \<le> round_even (y / 2 powi grid_exp y)"
    using assms by (intro round_even_mono divide_right_mono) auto
  with True assms show ?thesis by (simp add: fl_def)
next
  case False
  let ?a = "grid_exp x" and ?b = "grid_exp y"
  have "rat_exp x \<le> rat_exp y" using assms by (rule rat_exp_mono)
  with False assms have ab: "?a + 1 \<le> ?b" and b: "?b = rat_exp y - 52"
    by (auto simp: grid_exp_def max_def split: if_splits)
  have "x < 2 powi (?a + 53)"
  proof -
    have "x < 2 powi (rat_exp x + 1)" using assms(1) by (rule rat_exp_bounds)
    also have "\<dots> \<le> 2 powi (?a + 53)"
      using assms(1) by (subst powi2_le_iff) (simp add: grid_exp_def)
    finally show ?thesis .
  qed
  then have "x / 2 powi ?a \<le> of_int (2 ^ 53)"
    by (simp add: power_int_add field_simps)
  then have "round_even (x / 2 powi ?a) \<le> 2 ^ 53"
    using round_even_mono round_even_of_int by metis
  then have "(of_int (round_even (x / 2 powi ?a)) :: rat) \<le> of_int (2 ^ 53)"
    by (simp only: of_int_le_iff)
  then have "fl x \<le> of_int (2 ^ 53) * 2 powi ?a"
    using assms by (simp add: fl_def)
  also have "\<dots> = 2 powi (?a + 53)" by (simp add: power_int_add)
  also have "\<dots> \<le> 2 powi (?b + 52)" using ab by (subst powi2_le_iff) simp
  also have "\<dots> = of_int (2 ^ 52) * 2 powi ?b" by (simp add: power_int_add)
  also have "\<dots> \<le> fl y"
  proof -
    have "2 powi (?b + 52) \<le> y"
      using rat_exp_bounds(1) [of y] assms b by simp
    then have "of_int (2 ^ 52) \<le> y / 2 powi ?b"
      by (simp add: power_int_add field_simps)
    then have "2 ^ 52 \<le> round_even (y / 2 powi ?b)"
      using round_even_mono round_even_of_int by metis
    then have "(of_int (2 ^ 52) :: rat) \<le> of_int (round_even (y / 2 powi ?b))"
      by (simp only: of_int_le_iff)
    then show ?thesis using assms by (simp add: fl_def)
  qed
  finally show ?thesis .
qed

lemma fl_mono:
  assumes "x \<le> y"
  shows "fl x \<le> fl y"
proof -
  consider "0 < x" | "x \<le> 0" "0 \<le> y" | "y < 0" using assms by linarith
  then show ?thesis
  proof cases
    case 1
    then show ?thesis using assms by (rule fl_mono_pos)
  next
    case 2
    then have "0 \<le> fl (- x)" and "0 \<le> fl y" by (simp_all add: fl_nonneg)
    then show ?thesis by (simp add: fl_minus)
  next
    case 3
    then have "fl (- y) \<le> fl (- x)" using assms by (intro fl_mono_pos) auto
    then show ?thesis by (simp add: fl_minus)
  qed
qed

text \<open>Numbers on the grid are exact, so rounding is idempotent.\<close>

lemma fl_grid_less:
  assumes "0 < m" and "m < 2 ^ 53" and "- 1074 \<le> e"
  shows "fl (of_int m * 2 powi e) = of_int m * 2 powi e"
proof -
  let ?x = "of_int m * 2 powi e :: rat"
  have "(of_int m :: rat) < of_int (2 ^ 53)" using assms(2) by (simp only: of_int_less_iff)
  then have "?x < of_int (2 ^ 53) * 2 powi e" by simp
  also have "\<dots> = 2 powi (e + 53)" by (simp add: power_int_add)
  finally have "rat_exp ?x < e + 53" using assms(1) by (intro rat_exp_less) simp_all
  then have "grid_exp ?x \<le> e" using assms by (simp add: grid_exp_def)
  then obtain k where k: "e = grid_exp ?x + int k" by (metis zle_iff_zadd)
  define g where "g = grid_exp ?x"
  have "2 powi e = (2 ^ k * 2 powi g :: rat)"
    by (subst k) (simp add: g_def power_int_add mult.commute)
  then have "?x / 2 powi g = of_int (m * 2 ^ k)" by simp
  then have "round_even (?x / 2 powi g) = m * 2 ^ k" by (simp only: round_even_of_int)
  then have "of_int (round_even (?x / 2 powi g)) * 2 powi g = of_int m * (2 ^ k * 2 powi g :: rat)"
    by simp
  also have "\<dots> = ?x" using \<open>2 powi e = (2 ^ k * 2 powi g :: rat)\<close> by simp
  finally show ?thesis using assms(1) by (simp add: fl_def g_def)
qed

lemma fl_grid_pos:
  assumes "0 < m" and "m \<le> 2 ^ 53" and "- 1074 \<le> e"
  shows "fl (of_int m * 2 powi e) = of_int m * 2 powi e"
proof (cases "m = 2 ^ 53")
  case True
  have "of_int m * 2 powi e = (of_int (2 ^ 52) * 2 powi (e + 1) :: rat)"
    by (simp add: True power_int_add)
  then show ?thesis using fl_grid_less [of "2 ^ 52" "e + 1"] assms by simp
qed (use assms fl_grid_less in auto)

lemma fl_grid:
  assumes "\<bar>m\<bar> \<le> 2 ^ 53" and "- 1074 \<le> e"
  shows "fl (of_int m * 2 powi e) = of_int m * 2 powi e"
proof -
  consider "0 < m" | "m = 0" | "0 < - m" by linarith
  then show ?thesis
  proof cases
    case 3
    then have "fl (of_int (- m) * 2 powi e) = of_int (- m) * 2 powi e"
      using assms by (intro fl_grid_pos) auto
    then show ?thesis by (simp add: fl_minus)
  qed (use assms fl_grid_pos in auto)
qed

lemma fl_of_int: "\<bar>n\<bar> \<le> 2 ^ 53 \<Longrightarrow> fl (of_int n) = of_int n"
  using fl_grid [of n 0] by simp

lemma fl_on_grid: "\<exists>m e. fl x = of_int m * 2 powi e \<and> \<bar>m\<bar> \<le> 2 ^ 53 \<and> - 1074 \<le> e"
proof (cases "x = 0")
  case True
  then show ?thesis by (intro exI [of _ 0]) simp
next
  case False
  let ?g = "grid_exp x"
  have g: "rat_exp \<bar>x\<bar> + 1 \<le> ?g + 53" "- 1074 \<le> ?g" by (simp_all add: grid_exp_def)
  have "\<bar>x\<bar> \<le> 2 powi (?g + 53)"
    using rat_exp_bounds(2) [of "\<bar>x\<bar>"] False g powi2_le_iff [of "rat_exp \<bar>x\<bar> + 1" "?g + 53"]
    by simp
  then have "\<bar>x / 2 powi ?g\<bar> \<le> of_int (2 ^ 53)"
    by (simp add: power_int_add field_simps)
  then have "x / 2 powi ?g \<le> of_int (2 ^ 53)" and "of_int (- (2 ^ 53)) \<le> x / 2 powi ?g"
    using abs_le_iff [of "x / 2 powi ?g"] by auto
  then have "round_even (x / 2 powi ?g) \<le> 2 ^ 53" and "- (2 ^ 53) \<le> round_even (x / 2 powi ?g)"
    using round_even_mono round_even_of_int by metis+
  then have "\<bar>round_even (x / 2 powi ?g)\<bar> \<le> 2 ^ 53" by (simp add: abs_le_iff)
  with g False show ?thesis unfolding fl_def by auto
qed

lemma fl_idem: "fl (fl x) = fl x"
  using fl_on_grid [of x] fl_grid by metis

subsection \<open>The contract of a rounding\<close>

locale rounding =
  fixes rnd :: "rat \<Rightarrow> rat"
  assumes rnd_mono: "x \<le> y \<Longrightarrow> rnd x \<le> rnd y"
    and rnd_minus: "rnd (- x) = - rnd x"
    and rnd_idem: "rnd (rnd x) = rnd x"
    and rnd_of_int: "\<bar>n\<bar> \<le> 2 ^ 53 \<Longrightarrow> rnd (of_int n) = of_int n"
begin

lemma rnd_0: "rnd 0 = 0"
  using rnd_of_int [of 0] by simp

lemma rnd_1: "rnd 1 = 1"
  using rnd_of_int [of 1] by simp

lemma rnd_nonneg: "0 \<le> x \<Longrightarrow> 0 \<le> rnd x"
  using rnd_mono [of 0 x] rnd_0 by simp

lemma rnd_nonpos: "x \<le> 0 \<Longrightarrow> rnd x \<le> 0"
  using rnd_mono [of x 0] rnd_0 by simp

lemma rnd_abs_le_1: "\<bar>x\<bar> \<le> 1 \<Longrightarrow> \<bar>rnd x\<bar> \<le> 1"
  using rnd_mono [of x 1] rnd_mono [of "- 1" x] rnd_minus [of 1] rnd_1 by (simp add: abs_le_iff)

text \<open>
  The shape of both \<open>imbalance\<close> functions: the rounded difference of two non-negative
  sizes over a rounded total that is at least each of them lies between -1 and 1.
\<close>

lemma rnd_ratio_bound:
  assumes "0 \<le> a" and "0 \<le> b" and "a \<le> t" and "b \<le> t" and "0 < rnd t"
  shows "\<bar>rnd (rnd (rnd a - rnd b) / rnd t)\<bar> \<le> 1"
proof -
  have a: "0 \<le> rnd a" "rnd a \<le> rnd t" and b: "0 \<le> rnd b" "rnd b \<le> rnd t"
    using assms by (auto intro: rnd_nonneg rnd_mono)
  have idem: "rnd (rnd a - rnd b) \<le> rnd (rnd t)" "rnd (- rnd t) \<le> rnd (rnd a - rnd b)"
    using a b by (auto intro: rnd_mono)
  have "\<bar>rnd (rnd a - rnd b)\<bar> \<le> rnd (rnd t)"
    using idem by (simp add: rnd_minus abs_le_iff)
  then have "\<bar>rnd (rnd a - rnd b) / rnd t\<bar> \<le> 1"
    using assms(5) by (simp add: rnd_idem)
  then show ?thesis by (rule rnd_abs_le_1)
qed

end

interpretation binary64: rounding fl
  by unfold_locales (simp_all add: fl_mono fl_minus fl_idem fl_of_int)

end
