(* ===== verification/Order_Book.thy ===== *)
theory Order_Book
  imports Ordered_Map Binary64
begin

text \<open>
  The price-level order book: \<open>include/order_book.hpp\<close> and \<open>src/order_book.cpp\<close>. An
  \<open>OrderBook\<close> keeps one \<open>std::map\<close> of price levels per side; the operations name a price,
  not an order. \<open>OrderBookManager\<close> is a \<open>std::map\<close> of books by symbol. The bid and ask
  operations of the source are the same code over maps with opposite comparators: the
  shared body is a definition over a comparator (\<open>level_add\<close> and its kin), and each
  operation applies it to its side.
\<close>

record price_level =
  price :: i64
  lsize :: u64
  order_count :: u64

definition empty_level :: price_level where
  "empty_level = \<lparr>price = 0, lsize = 0, order_count = 0\<rparr>"

definition new_level :: "i64 \<Rightarrow> u64 \<Rightarrow> price_level" where
  "new_level p s = \<lparr>price = p, lsize = s, order_count = 1\<rparr>"

type_synonym levels = "(i64, price_level) omap"

record book_snapshot =
  snap_symbol :: string
  snap_timestamp :: u64
  snap_best_bid :: i64
  snap_best_bid_size :: u64
  snap_best_ask :: i64
  snap_best_ask_size :: u64
  snap_spread :: double
  snap_imbalance :: double
  snap_bid_levels :: nat
  snap_ask_levels :: nat

record order_book =
  symbol :: string
  bids :: levels
  asks :: levels
  last_update_time :: u64
  message_count :: u64

definition order_book_new :: "string \<Rightarrow> order_book" where
  "order_book_new s =
     \<lparr>symbol = s, bids = [], asks = [], last_update_time = 0, message_count = 0\<rparr>"

subsection \<open>Operations on one side\<close>

text \<open>\<open>operator[]\<close> creates the default level when the price is new.\<close>

definition level_add :: "(i64 \<Rightarrow> i64 \<Rightarrow> bool) \<Rightarrow> i64 \<Rightarrow> u64 \<Rightarrow> levels \<Rightarrow> levels" where
  "level_add lt p s m =
     (let l = (case om_find lt p m of None \<Rightarrow> empty_level | Some l \<Rightarrow> l)
      in om_put lt p
           (l\<lparr>price := p, lsize := lsize l + s, order_count := order_count l + 1\<rparr>) m)"

definition level_modify :: "(i64 \<Rightarrow> i64 \<Rightarrow> bool) \<Rightarrow> i64 \<Rightarrow> u64 \<Rightarrow> levels \<Rightarrow> levels" where
  "level_modify lt p s m =
     (case om_find lt p m of
        Some l \<Rightarrow>
          (let m' = om_put lt p (l\<lparr>lsize := s\<rparr>) m
           in if s = 0 then om_erase lt p m' else m')
      | None \<Rightarrow> if 0 < s then om_put lt p (new_level p s) m else m)"

definition level_execute :: "(i64 \<Rightarrow> i64 \<Rightarrow> bool) \<Rightarrow> i64 \<Rightarrow> u64 \<Rightarrow> levels \<Rightarrow> levels" where
  "level_execute lt p s m =
     (case om_find lt p m of
        Some l \<Rightarrow>
          (if s < lsize l then om_put lt p (l\<lparr>lsize := lsize l - s\<rparr>) m
           else om_erase lt p m)
      | None \<Rightarrow> m)"

definition stamp :: "u64 \<Rightarrow> order_book \<Rightarrow> order_book" where
  \<comment> \<open>the two statements that end every operation\<close>
  "stamp ts b = b\<lparr>last_update_time := ts, message_count := message_count b + 1\<rparr>"

subsection \<open>The operations of \<open>OrderBook\<close>\<close>

definition add_bid :: "i64 \<Rightarrow> u64 \<Rightarrow> u64 \<Rightarrow> order_book \<Rightarrow> order_book" where
  "add_bid p s ts b = stamp ts (b\<lparr>bids := level_add bid_before p s (bids b)\<rparr>)"

definition add_ask :: "i64 \<Rightarrow> u64 \<Rightarrow> u64 \<Rightarrow> order_book \<Rightarrow> order_book" where
  "add_ask p s ts b = stamp ts (b\<lparr>asks := level_add ask_before p s (asks b)\<rparr>)"

definition modify_bid :: "i64 \<Rightarrow> u64 \<Rightarrow> u64 \<Rightarrow> order_book \<Rightarrow> order_book" where
  "modify_bid p s ts b = stamp ts (b\<lparr>bids := level_modify bid_before p s (bids b)\<rparr>)"

definition modify_ask :: "i64 \<Rightarrow> u64 \<Rightarrow> u64 \<Rightarrow> order_book \<Rightarrow> order_book" where
  "modify_ask p s ts b = stamp ts (b\<lparr>asks := level_modify ask_before p s (asks b)\<rparr>)"

definition remove_bid :: "i64 \<Rightarrow> u64 \<Rightarrow> order_book \<Rightarrow> order_book" where
  "remove_bid p ts b = stamp ts (b\<lparr>bids := om_erase bid_before p (bids b)\<rparr>)"

definition remove_ask :: "i64 \<Rightarrow> u64 \<Rightarrow> order_book \<Rightarrow> order_book" where
  "remove_ask p ts b = stamp ts (b\<lparr>asks := om_erase ask_before p (asks b)\<rparr>)"

definition execute_bid :: "i64 \<Rightarrow> u64 \<Rightarrow> u64 \<Rightarrow> order_book \<Rightarrow> order_book" where
  "execute_bid p s ts b = stamp ts (b\<lparr>bids := level_execute bid_before p s (bids b)\<rparr>)"

definition execute_ask :: "i64 \<Rightarrow> u64 \<Rightarrow> u64 \<Rightarrow> order_book \<Rightarrow> order_book" where
  "execute_ask p s ts b = stamp ts (b\<lparr>asks := level_execute ask_before p s (asks b)\<rparr>)"

definition best_price :: "levels \<Rightarrow> i64 option" where
  "best_price m = map_option fst (om_begin m)"

definition best_size :: "levels \<Rightarrow> u64 option" where
  "best_size m = map_option (\<lambda>kv. lsize (snd kv)) (om_begin m)"

definition best_bid :: "order_book \<Rightarrow> i64 option" where
  "best_bid b = best_price (bids b)"

definition best_ask :: "order_book \<Rightarrow> i64 option" where
  "best_ask b = best_price (asks b)"

definition best_bid_size :: "order_book \<Rightarrow> u64 option" where
  "best_bid_size b = best_size (bids b)"

definition best_ask_size :: "order_book \<Rightarrow> u64 option" where
  "best_ask_size b = best_size (asks b)"

text \<open>The 64-bit subtraction happens before the conversion to \<open>double\<close>.\<close>

definition spread_of :: "i64 option \<Rightarrow> i64 option \<Rightarrow> double" where
  "spread_of bid ask =
     (case (bid, ask) of (Some p, Some q) \<Rightarrow> fl (of_i64 (q - p) / 10000) | _ \<Rightarrow> 0)"

text \<open>The 64-bit addition happens before the conversion to \<open>double\<close>, too.\<close>

definition imbalance_of :: "u64 \<Rightarrow> u64 \<Rightarrow> double" where
  "imbalance_of x y =
     (let total = of_u64 (x + y)
      in if total = 0 then 0 else fl (fl (of_u64 x - of_u64 y) / total))"

definition spread :: "order_book \<Rightarrow> double" where
  "spread b = spread_of (best_bid b) (best_ask b)"

definition imbalance :: "order_book \<Rightarrow> double" where
  "imbalance b =
     (case (best_bid_size b, best_ask_size b) of
        (Some x, Some y) \<Rightarrow> imbalance_of x y
      | _ \<Rightarrow> 0)"

definition value_or :: "'a option \<Rightarrow> 'a \<Rightarrow> 'a" where
  "value_or x d = (case x of None \<Rightarrow> d | Some v \<Rightarrow> v)"

definition snapshot :: "order_book \<Rightarrow> book_snapshot" where
  "snapshot b =
     \<lparr>snap_symbol = symbol b, snap_timestamp = last_update_time b,
      snap_best_bid = value_or (best_bid b) 0,
      snap_best_bid_size = value_or (best_bid_size b) 0,
      snap_best_ask = value_or (best_ask b) 0,
      snap_best_ask_size = value_or (best_ask_size b) 0,
      snap_spread = spread b, snap_imbalance = imbalance b,
      snap_bid_levels = length (bids b), snap_ask_levels = length (asks b)\<rparr>"

definition bid_levels :: "order_book \<Rightarrow> nat" where
  "bid_levels b = length (bids b)"

definition ask_levels :: "order_book \<Rightarrow> nat" where
  "ask_levels b = length (asks b)"

definition clear :: "order_book \<Rightarrow> order_book" where
  "clear b = b\<lparr>bids := [], asks := [], last_update_time := 0, message_count := 0\<rparr>"

subsection \<open>\<open>OrderBookManager\<close>\<close>

type_synonym book_manager = "(string, order_book) omap"

text \<open>
  \<open>get_or_create\<close> hands out a reference into the map; \<open>with_book\<close> is a client's use of
  that reference, which writes the changed book back under its symbol.
\<close>

definition get_or_create :: "string \<Rightarrow> book_manager \<Rightarrow> book_manager \<times> order_book" where
  "get_or_create s m =
     (case om_find string_before s m of
        Some b \<Rightarrow> (m, b)
      | None \<Rightarrow> (om_put string_before s (order_book_new s) m, order_book_new s))"

definition get_book :: "string \<Rightarrow> book_manager \<Rightarrow> order_book option" where
  "get_book s m = om_find string_before s m"

definition with_book ::
  "string \<Rightarrow> (order_book \<Rightarrow> order_book) \<Rightarrow> book_manager \<Rightarrow> book_manager" where
  "with_book s f m =
     (case get_or_create s m of (m', b) \<Rightarrow> om_put string_before s (f b) m')"

definition symbols :: "book_manager \<Rightarrow> string list" where
  "symbols m = map fst m"

definition manager_size :: "book_manager \<Rightarrow> nat" where
  "manager_size m = length m"

definition manager_clear :: "book_manager \<Rightarrow> book_manager" where
  "manager_clear m = []"

subsection \<open>Sequences of operations\<close>

datatype book_op =
    AddBid i64 u64 u64 | AddAsk i64 u64 u64
  | ModifyBid i64 u64 u64 | ModifyAsk i64 u64 u64
  | RemoveBid i64 u64 | RemoveAsk i64 u64
  | ExecuteBid i64 u64 u64 | ExecuteAsk i64 u64 u64

fun book_step :: "book_op \<Rightarrow> order_book \<Rightarrow> order_book" where
  "book_step (AddBid p s ts) = add_bid p s ts"
| "book_step (AddAsk p s ts) = add_ask p s ts"
| "book_step (ModifyBid p s ts) = modify_bid p s ts"
| "book_step (ModifyAsk p s ts) = modify_ask p s ts"
| "book_step (RemoveBid p ts) = remove_bid p ts"
| "book_step (RemoveAsk p ts) = remove_ask p ts"
| "book_step (ExecuteBid p s ts) = execute_bid p s ts"
| "book_step (ExecuteAsk p s ts) = execute_ask p s ts"

definition book_run :: "book_op list \<Rightarrow> order_book \<Rightarrow> order_book" where
  "book_run ops b = fold book_step ops b"

lemmas book_op_defs =
  add_bid_def add_ask_def modify_bid_def modify_ask_def
  remove_bid_def remove_ask_def execute_bid_def execute_ask_def stamp_def

subsection \<open>Well-formedness\<close>

text \<open>A side is in comparator order and stores every level under its own price.\<close>

definition keyed :: "levels \<Rightarrow> bool" where
  "keyed m \<longleftrightarrow> (\<forall>(p, l)\<in>set m. price l = p)"

definition book_wf :: "order_book \<Rightarrow> bool" where
  "book_wf b \<longleftrightarrow>
     om_wf bid_before (bids b) \<and> keyed (bids b) \<and> om_wf ask_before (asks b) \<and> keyed (asks b)"

subsection \<open>Abstract view: the depth at each price\<close>

text \<open>
  What a side shows at a price: the total size and the number of orders, if the level
  exists. The abstract operations work on the map from prices to that pair, with no
  ordering and no level objects.
\<close>

type_synonym depth = "i64 \<rightharpoonup> u64 \<times> u64"

definition depth_of :: "(i64 \<Rightarrow> i64 \<Rightarrow> bool) \<Rightarrow> levels \<Rightarrow> depth" where
  "depth_of lt m p = map_option (\<lambda>l. (lsize l, order_count l)) (om_find lt p m)"

definition spec_add :: "i64 \<Rightarrow> u64 \<Rightarrow> depth \<Rightarrow> depth" where
  "spec_add p s d =
     d(p \<mapsto> (case d p of None \<Rightarrow> (s, 1) | Some (x, c) \<Rightarrow> (x + s, c + 1)))"

definition spec_modify :: "i64 \<Rightarrow> u64 \<Rightarrow> depth \<Rightarrow> depth" where
  "spec_modify p s d =
     (if s = 0 then d(p := None)
      else d(p \<mapsto> (s, case d p of None \<Rightarrow> 1 | Some (x, c) \<Rightarrow> c)))"

definition spec_execute :: "i64 \<Rightarrow> u64 \<Rightarrow> depth \<Rightarrow> depth" where
  "spec_execute p s d =
     (case d p of
        None \<Rightarrow> d
      | Some (x, c) \<Rightarrow> if s < x then d(p \<mapsto> (x - s, c)) else d(p := None))"

fun spec_step :: "book_op \<Rightarrow> depth \<times> depth \<Rightarrow> depth \<times> depth" where
  "spec_step (AddBid p s ts) (b, a) = (spec_add p s b, a)"
| "spec_step (AddAsk p s ts) (b, a) = (b, spec_add p s a)"
| "spec_step (ModifyBid p s ts) (b, a) = (spec_modify p s b, a)"
| "spec_step (ModifyAsk p s ts) (b, a) = (b, spec_modify p s a)"
| "spec_step (RemoveBid p ts) (b, a) = (b(p := None), a)"
| "spec_step (RemoveAsk p ts) (b, a) = (b, a(p := None))"
| "spec_step (ExecuteBid p s ts) (b, a) = (spec_execute p s b, a)"
| "spec_step (ExecuteAsk p s ts) (b, a) = (b, spec_execute p s a)"

definition book_view :: "order_book \<Rightarrow> depth \<times> depth" where
  "book_view b = (depth_of bid_before (bids b), depth_of ask_before (asks b))"

context comparator
begin

lemma set_put_cases: "(j, w) \<in> set (om_put lt k v m) \<Longrightarrow> (j, w) = (k, v) \<or> (j, w) \<in> set m"
  using set_om_put by fastforce

lemma set_erase_cases: "(j, w) \<in> set (om_erase lt k m) \<Longrightarrow> (j, w) \<in> set m"
  using set_om_erase by fastforce

end

text \<open>The operations on a side of price levels, for either comparator.\<close>

locale side = comparator lt for lt :: "i64 \<Rightarrow> i64 \<Rightarrow> bool"
begin

lemma level_wf [wf_intro]:
  assumes "om_wf lt m"
  shows "om_wf lt (level_add lt p s m)" and "om_wf lt (level_modify lt p s m)"
    and "om_wf lt (level_execute lt p s m)"
  using assms
  by (auto simp: level_add_def level_modify_def level_execute_def Let_def
      intro!: om_wf_put om_wf_erase split: option.splits)

lemma find_in_set: "om_find lt p m = Some l \<Longrightarrow> \<exists>j. (j, l) \<in> set m \<and> j = p"
proof (induction m)
  case (Cons kv m)
  then show ?case
    by (cases kv; cases rule: lt_cases [of "fst kv" p]) auto
qed simp

lemma keyed_find: "keyed m \<Longrightarrow> om_find lt p m = Some l \<Longrightarrow> price l = p"
  by (auto simp: keyed_def dest!: find_in_set)

lemma keyed_put: "keyed m \<Longrightarrow> price l = p \<Longrightarrow> keyed (om_put lt p l m)"
  by (auto simp: keyed_def dest!: set_put_cases)

lemma keyed_erase: "keyed m \<Longrightarrow> keyed (om_erase lt p m)"
  by (auto simp: keyed_def dest!: set_erase_cases)

lemma level_keyed [wf_intro]:
  assumes "keyed m"
  shows "keyed (level_add lt p s m)" and "keyed (level_modify lt p s m)"
    and "keyed (level_execute lt p s m)"
  using assms
  by (auto simp: level_add_def level_modify_def level_execute_def Let_def new_level_def
      intro!: keyed_put keyed_erase dest: keyed_find split: option.splits)

lemma depth_put:
  "depth_of lt (om_put lt p l m) = (depth_of lt m)(p \<mapsto> (lsize l, order_count l))"
  by (auto simp: depth_of_def om_find_put)

lemma depth_erase: "om_wf lt m \<Longrightarrow> depth_of lt (om_erase lt p m) = (depth_of lt m)(p := None)"
  by (auto simp: depth_of_def om_find_erase)

lemma depth_add: "depth_of lt (level_add lt p s m) = spec_add p s (depth_of lt m)"
  by (auto simp: level_add_def spec_add_def depth_put depth_of_def Let_def empty_level_def
      split: option.splits)

lemma depth_modify:
  "om_wf lt m \<Longrightarrow> depth_of lt (level_modify lt p s m) = spec_modify p s (depth_of lt m)"
  by (auto simp: level_modify_def spec_modify_def depth_put depth_erase om_wf_put Let_def
      new_level_def word_gt_0 fun_eq_iff split: option.splits)
    (auto simp: depth_of_def)

lemma depth_execute:
  "om_wf lt m \<Longrightarrow> depth_of lt (level_execute lt p s m) = spec_execute p s (depth_of lt m)"
  by (auto simp: level_execute_def spec_execute_def depth_put depth_erase split: option.splits)
    (auto simp: depth_of_def)

lemma best_price_iff:
  assumes "om_wf lt m"
  shows "best_price m = Some p \<longleftrightarrow>
    depth_of lt m p \<noteq> None \<and> (\<forall>q. depth_of lt m q \<noteq> None \<longrightarrow> q = p \<or> lt p q)"
  using om_begin_iff [OF assms, of p] by (force simp: best_price_def depth_of_def)

lemma best_price_None_iff:
  assumes "om_wf lt m"
  shows "best_price m = None \<longleftrightarrow> depth_of lt m = Map.empty"
  using om_find_all_None_iff [OF assms]
  by (auto simp: best_price_def depth_of_def om_begin_None_iff fun_eq_iff)

lemma best_size_depth:
  assumes "om_wf lt m" and "best_price m = Some p"
  shows "best_size m = map_option fst (depth_of lt m p)"
  using assms om_begin_least [OF assms(1)]
  by (force simp: best_price_def best_size_def depth_of_def)

end

interpretation bid_side: side bid_before
  by unfold_locales

interpretation ask_side: side ask_before
  by unfold_locales

subsection \<open>Every operation keeps the book well-formed\<close>

lemma book_wf_new: "book_wf (order_book_new s)"
  by (simp add: book_wf_def order_book_new_def keyed_def)

lemma book_wf_clear: "book_wf (clear b)"
  by (simp add: book_wf_def clear_def keyed_def)

lemma book_wf_step: "book_wf b \<Longrightarrow> book_wf (book_step op b)"
  by (cases op)
    (auto simp: book_wf_def book_op_defs
      intro: bid_side.level_wf ask_side.level_wf bid_side.level_keyed ask_side.level_keyed
        bid_map.om_wf_erase ask_map.om_wf_erase bid_side.keyed_erase ask_side.keyed_erase)

lemma book_wf_run: "book_wf b \<Longrightarrow> book_wf (book_run ops b)"
  by (induction ops arbitrary: b) (simp_all add: book_run_def book_wf_step)

lemma view_step: "book_wf b \<Longrightarrow> book_view (book_step op b) = spec_step op (book_view b)"
  by (cases op)
    (simp_all add: book_view_def book_wf_def book_op_defs
      bid_side.depth_add ask_side.depth_add bid_side.depth_modify ask_side.depth_modify
      bid_side.depth_execute ask_side.depth_execute bid_side.depth_erase ask_side.depth_erase)

lemma view_run: "book_wf b \<Longrightarrow> book_view (book_run ops b) = fold spec_step ops (book_view b)"
  by (induction ops arbitrary: b) (simp_all add: book_run_def book_wf_step view_step)

lemma view_new: "book_view (order_book_new s) = (Map.empty, Map.empty)"
  by (simp add: book_view_def order_book_new_def depth_of_def fun_eq_iff)

lemma count_step [frame_simp]:
  "message_count (book_step op b) = message_count b + 1" "symbol (book_step op b) = symbol b"
  by (cases op; simp add: book_op_defs)+

lemma count_run:
  "message_count (book_run ops b) = message_count b + of_nat (length ops) \<and>
   symbol (book_run ops b) = symbol b"
  by (induction ops arbitrary: b) (simp_all add: book_run_def frame_simp)

text \<open>
  C5. Refinement: any sequence of operations on a fresh book shows, on each side and at each
  price, exactly the total size and order count that the abstract depth maps compute,
  whatever the prices, sizes and operations are (sizes are 64-bit and wrap in both).
\<close>
theorem order_book_refines_depth:
  "book_view (book_run ops (order_book_new s)) = fold spec_step ops (Map.empty, Map.empty)"
  by (simp add: view_run book_wf_new view_new)

text \<open>
  C30. Invariant: after any operations both sides are strictly ordered best price first and
  every level carries its own price; the message counter counts the operations modulo
  \<open>2 ^ 64\<close> and the symbol never changes.
\<close>
theorem order_book_invariant:
  "book_wf (book_run ops (order_book_new s)) \<and>
   message_count (book_run ops (order_book_new s)) = of_nat (length ops) \<and>
   symbol (book_run ops (order_book_new s)) = s"
  using count_run [of ops "order_book_new s"] book_wf_run [OF book_wf_new]
  by (simp add: order_book_new_def)

text \<open>
  The top of the book: in a well-formed book \<open>best_bid\<close> is the greatest price with a bid
  level and \<open>best_ask\<close> the least price with an ask level (in the signed order), and the
  reported best sizes are the depths at those prices.
\<close>
theorem best_quotes_extremal:
  assumes "book_wf b" and "best_bid b = Some p" and "best_ask b = Some q"
  shows "(\<forall>r. fst (book_view b) r \<noteq> None \<longrightarrow> r \<le>s p) \<and> (\<forall>r. snd (book_view b) r \<noteq> None \<longrightarrow> q \<le>s r) \<and>
    best_bid_size b = map_option fst (fst (book_view b) p) \<and> best_bid_size b \<noteq> None \<and>
    best_ask_size b = map_option fst (snd (book_view b) q) \<and> best_ask_size b \<noteq> None"
proof -
  have wf: "om_wf bid_before (bids b)" "om_wf ask_before (asks b)"
    using assms(1) by (simp_all add: book_wf_def)
  have best: "best_price (bids b) = Some p" "best_price (asks b) = Some q"
    using assms(2,3) by (simp_all add: best_bid_def best_ask_def)
  note bid = best(1) [unfolded bid_side.best_price_iff [OF wf(1)]]
  note ask = best(2) [unfolded ask_side.best_price_iff [OF wf(2)]]
  have "\<forall>r. fst (book_view b) r \<noteq> None \<longrightarrow> r \<le>s p"
    using bid by (auto simp: book_view_def bid_before_def word_sless_eq)
  moreover have "\<forall>r. snd (book_view b) r \<noteq> None \<longrightarrow> q \<le>s r"
    using ask by (auto simp: book_view_def ask_before_def word_sless_eq)
  ultimately show ?thesis
    using bid ask bid_side.best_size_depth [OF wf(1) best(1)] ask_side.best_size_depth [OF wf(2) best(2)]
    by (simp add: book_view_def best_bid_size_def best_ask_size_def)
qed

text \<open>
  Fills compose: executing \<open>s\<close> and then \<open>t\<close> at a bid price leaves the depth of executing
  \<open>s + t\<close> at once, as long as the sum does not wrap. So a level disappears exactly when the
  total executed reaches its size.
\<close>
theorem execute_bid_composes:
  assumes "book_wf b" and "unat s + unat t < 2 ^ 64"
  shows "book_view (execute_bid p t t2 (execute_bid p s t1 b)) =
    book_view (execute_bid p (s + t) t2 b)"
proof -
  have "unat (s + t) = unat s + unat t" using assms(2) by (simp add: unat_add_no_wrap)
  then have "spec_execute p t (spec_execute p s d) = spec_execute p (s + t) d" for d
    by (auto simp: spec_execute_def word_less_nat_alt unat_sub_if_size algebra_simps
        split: option.splits)
  then show ?thesis
    using view_step [of b "ExecuteBid p s t1"] view_step [of b "ExecuteBid p (s + t) t2"]
      view_step [of "execute_bid p s t1 b" "ExecuteBid p t t2"]
      book_wf_step [of b "ExecuteBid p s t1"] assms(1)
    by (cases "book_view b") simp
qed

subsection \<open>Spread and imbalance\<close>

lemma imbalance_of_bounded:
  assumes that: "unat x + unat y < 2 ^ 64"
  shows "\<bar>imbalance_of x y\<bar> \<le> 1"
proof (cases "of_u64 (x + y) = 0")
  case False
  let ?t = "of_int (uint x + uint y) :: rat"
  have "unat (x + y) = unat x + unat y" using that by (simp add: unat_add_no_wrap)
  then have "uint (x + y) = uint x + uint y" by (metis of_nat_add uint_nat)
  then have t: "of_u64 (x + y) = fl ?t"
    by (simp only: of_u64_def)
  have "0 \<le> uint x" and "0 \<le> uint y" by simp_all
  then have pos: "0 \<le> (of_int (uint x) :: rat)" "0 \<le> (of_int (uint y) :: rat)"
    by (simp_all only: of_int_0_le_iff)
  then have "0 \<le> ?t" by (simp only: of_int_add)
  with False t have "0 < fl ?t" using binary64.rnd_nonneg [of ?t] by (simp add: less_le)
  with pos have "\<bar>fl (fl (fl (of_int (uint x)) - fl (of_int (uint y))) / fl ?t)\<bar> \<le> 1"
    by (intro binary64.rnd_ratio_bound) (simp_all only: of_int_add le_add_same_cancel1 le_add_same_cancel2)
  with False t show ?thesis by (simp only: imbalance_of_def Let_def of_u64_def if_False)
qed (simp add: imbalance_of_def)

text \<open>
  The imbalance of the best sizes lies between -1 and 1 whenever their 64-bit sum does
  not wrap, through every rounding of the floating-point computation.
\<close>
theorem imbalance_bounded:
  assumes "unat (value_or (best_bid_size b) 0) + unat (value_or (best_ask_size b) 0) < 2 ^ 64"
  shows "\<bar>imbalance b\<bar> \<le> 1"
  using assms imbalance_of_bounded by (auto simp: imbalance_def value_or_def split: option.splits)

text \<open>
  When the sum of the best sizes wraps, the bound fails: best sizes \<open>2 ^ 64 - 1\<close> and \<open>2\<close>
  give a total of 1 and an imbalance of about \<open>2 ^ 64\<close>.
\<close>
theorem imbalance_wraps:
  "imbalance (add_ask 20 2 1 (add_bid 10 (- 1) 0 (order_book_new ''A''))) = 2 ^ 64"
  by code_simp

text \<open>Witnesses: a concrete book for the theorems with hypotheses.\<close>

definition sample_book :: order_book where
  "sample_book = add_ask 1500100 200 1001 (add_bid 1500000 100 1000 (order_book_new ''AAPL''))"

lemma sample_book_wf: "book_wf sample_book"
  using book_wf_run [OF book_wf_new, of "[AddBid 1500000 100 1000, AddAsk 1500100 200 1001]" "''AAPL''"]
  by (simp add: sample_book_def book_run_def)

theorem best_quotes_extremal_witness:
  "best_bid sample_book = Some 1500000 \<and> best_ask sample_book = Some 1500100 \<and>
   best_bid_size sample_book = map_option fst (fst (book_view sample_book) 1500000) \<and>
   best_bid_size sample_book \<noteq> None"
proof -
  have b: "best_bid sample_book = Some 1500000" and a: "best_ask sample_book = Some 1500100"
    by code_simp+
  show ?thesis using best_quotes_extremal [OF sample_book_wf b a] a b by blast
qed

theorem execute_bid_composes_witness:
  "book_view (execute_bid 1500000 70 1002 (execute_bid 1500000 30 1001 sample_book)) =
   book_view (execute_bid 1500000 (30 + 70) 1002 sample_book)"
  by (rule execute_bid_composes [OF sample_book_wf]) simp

theorem imbalance_bounded_witness:
  "\<bar>imbalance sample_book\<bar> \<le> 1 \<and> imbalance sample_book \<noteq> 0"
proof
  have "best_bid_size sample_book = Some 100" and "best_ask_size sample_book = Some 200"
    by code_simp+
  then show "\<bar>imbalance sample_book\<bar> \<le> 1"
    by (intro imbalance_bounded) (simp add: value_or_def)
  show "imbalance sample_book \<noteq> 0" by code_simp
qed

subsection \<open>The book manager\<close>

definition manager_wf :: "book_manager \<Rightarrow> bool" where
  "manager_wf m \<longleftrightarrow> om_wf string_before m \<and>
     (\<forall>s b. get_book s m = Some b \<longrightarrow> symbol b = s \<and> book_wf b)"

lemma get_book_put:
  "get_book t (om_put string_before s b m) = (if t = s then Some b else get_book t m)"
  by (simp add: get_book_def string_map.om_find_put)

lemma get_or_create_Some: "get_book s m = Some b \<Longrightarrow> get_or_create s m = (m, b)"
  by (simp add: get_book_def get_or_create_def)

lemma get_or_create_None:
  "get_book s m = None \<Longrightarrow>
   get_or_create s m = (om_put string_before s (order_book_new s) m, order_book_new s)"
  by (simp add: get_book_def get_or_create_def)

lemma get_book_with_book:
  "get_book t (with_book s f m) =
     (if t = s then Some (f (snd (get_or_create s m))) else get_book t m)"
  by (cases "get_book s m")
    (simp_all add: with_book_def get_or_create_Some get_or_create_None get_book_put)

lemma with_book_wf:
  assumes "manager_wf m" and "\<And>b. book_wf b \<Longrightarrow> book_wf (f b) \<and> symbol (f b) = symbol b"
  shows "manager_wf (with_book s f m)"
proof -
  have "om_wf string_before (with_book s f m)"
    using assms(1)
    by (auto simp: manager_wf_def with_book_def get_or_create_def intro!: string_map.om_wf_put
        split: option.splits)
  moreover have "book_wf (snd (get_or_create s m)) \<and> symbol (snd (get_or_create s m)) = s"
    using assms(1) book_wf_new [of s]
    by (cases "get_book s m")
      (auto simp: get_or_create_Some get_or_create_None manager_wf_def order_book_new_def)
  ultimately show ?thesis
    using assms by (auto simp: manager_wf_def get_book_with_book split: if_splits)
qed

definition manager_run :: "(string \<times> book_op) list \<Rightarrow> book_manager \<Rightarrow> book_manager" where
  "manager_run es m = fold (\<lambda>(s, op). with_book s (book_step op)) es m"

lemma manager_run_wf: "manager_wf m \<Longrightarrow> manager_wf (manager_run es m)"
proof (induction es arbitrary: m)
  case (Cons e es)
  obtain s op where e: "e = (s, op)" by force
  have "manager_wf (with_book s (book_step op) m)"
    using Cons.prems by (rule with_book_wf) (simp add: book_wf_step frame_simp)
  then show ?case using Cons.IH by (simp add: manager_run_def e)
qed (simp add: manager_run_def)

lemma manager_run_book:
  "get_book t (manager_run es m) =
     (case get_book t m of
        None \<Rightarrow> (if t \<in> fst ` set es
                then Some (book_run [op. (s, op) \<leftarrow> es, s = t] (order_book_new t)) else None)
      | Some b \<Rightarrow> Some (book_run [op. (s, op) \<leftarrow> es, s = t] b))"
proof (induction es arbitrary: m)
  case (Cons e es)
  obtain s op where e: "e = (s, op)" by force
  have "manager_run (e # es) m = manager_run es (with_book s (book_step op) m)"
    by (simp add: manager_run_def e)
  then show ?case
    using Cons.IH [of "with_book s (book_step op) m"] e
    by (cases "get_book s m")
      (auto simp: get_book_with_book get_or_create_Some get_or_create_None book_run_def
        split: option.splits)
qed (simp add: manager_run_def book_run_def split: option.splits)

text \<open>
  The manager keeps one independent book per symbol: after any interleaving of updates
  routed through \<open>get_or_create\<close>, the book of a symbol is the one its own updates build from
  a fresh book, in their order; the symbols are listed strictly ascending, exactly those
  that were updated.
\<close>
theorem manager_isolates_symbols:
  "get_book t (manager_run es []) =
     (if t \<in> fst ` set es
      then Some (book_run [op. (s, op) \<leftarrow> es, s = t] (order_book_new t)) else None) \<and>
   sorted_wrt (<) (symbols (manager_run es [])) \<and>
   set (symbols (manager_run es [])) = fst ` set es"
proof -
  have empty: "get_book t [] = None" for t by (simp add: get_book_def)
  have wf: "om_wf string_before (manager_run es [])"
    using manager_run_wf [of "[]" es] by (simp add: manager_wf_def empty)
  have "sorted_wrt (<) (symbols (manager_run es []))"
    using wf by (simp add: symbols_def om_wf_def string_before_def sorted_wrt_map)
  moreover have "s \<in> set (symbols (manager_run es [])) \<longleftrightarrow> get_book s (manager_run es []) \<noteq> None" for s
    using string_map.om_find_map_of [OF wf, of s]
    by (auto simp: symbols_def get_book_def map_of_eq_None_iff)
  ultimately show ?thesis
    using manager_run_book [where m = "[]" and es = es] by (simp add: empty set_eq_iff)
qed

end
