(* ===== verification/Enhanced_Book.thy ===== *)
theory Enhanced_Book
  imports Order_Book
begin

text \<open>
  The order-level book: \<open>include/enhanced_order_book.hpp\<close> and
  \<open>src/enhanced_order_book.cpp\<close>. An \<open>EnhancedOrderBook\<close> keeps every live order by id
  (\<open>std::unordered_map\<close>, a finite map here: the code never iterates over it) and, beside
  it, the price levels and the total quantity of each side, which every operation updates
  incrementally. The main result is that those derived structures always are what the live
  orders say (\<open>ebook_inv\<close>), so that the book refines a plain map of orders.
\<close>

record order =
  order_id :: u64
  o_symbol :: string
  o_side :: char
  o_price :: i64
  quantity :: u64
  o_timestamp :: u64

definition new_order :: "u64 \<Rightarrow> string \<Rightarrow> char \<Rightarrow> i64 \<Rightarrow> u64 \<Rightarrow> u64 \<Rightarrow> order" where
  "new_order i sy sd p q ts =
     \<lparr>order_id = i, o_symbol = sy, o_side = sd, o_price = p, quantity = q, o_timestamp = ts\<rparr>"

record ebook =
  e_symbol :: string
  e_bids :: levels
  e_asks :: levels
  orders :: "u64 \<rightharpoonup> order"
  e_last_update_time :: u64
  e_message_count :: u64
  total_bid_quantity :: u64
  total_ask_quantity :: u64

definition ebook_new :: "string \<Rightarrow> ebook" where
  "ebook_new s =
     \<lparr>e_symbol = s, e_bids = [], e_asks = [], orders = Map.empty, e_last_update_time = 0,
      e_message_count = 0, total_bid_quantity = 0, total_ask_quantity = 0\<rparr>"

definition is_bid :: "order \<Rightarrow> bool" where
  "is_bid o' \<longleftrightarrow> o_side o' = CHR ''B'' \<or> o_side o' = CHR ''b''"

subsection \<open>Price levels of one order\<close>

text \<open>
  The two branches of \<open>remove_from_price_level\<close> are the same statements on the maps and
  totals of the two sides; the comparator tells them apart here.
\<close>

definition level_remove ::
  "(i64 \<Rightarrow> i64 \<Rightarrow> bool) \<Rightarrow> order \<Rightarrow> levels \<times> u64 \<Rightarrow> levels \<times> u64" where
  "level_remove lt ord st =
     (case om_find lt (o_price ord) (fst st) of
        None \<Rightarrow> st
      | Some l \<Rightarrow>
          (let l1 = (if quantity ord \<le> lsize l then l\<lparr>lsize := lsize l - quantity ord\<rparr> else l);
               total = (if quantity ord \<le> lsize l then snd st - quantity ord else snd st);
               l2 = (if 0 < order_count l1 then l1\<lparr>order_count := order_count l1 - 1\<rparr> else l1)
           in (if lsize l2 = 0 \<or> order_count l2 = 0 then om_erase lt (o_price ord) (fst st)
               else om_put lt (o_price ord) l2 (fst st), total)))"

definition level_insert ::
  "(i64 \<Rightarrow> i64 \<Rightarrow> bool) \<Rightarrow> order \<Rightarrow> levels \<times> u64 \<Rightarrow> levels \<times> u64" where
  "level_insert lt ord st =
     (level_add lt (o_price ord) (quantity ord) (fst st), snd st + quantity ord)"

definition remove_from_price_level :: "order \<Rightarrow> ebook \<Rightarrow> ebook" where
  "remove_from_price_level ord b =
     (if is_bid ord
      then (case level_remove bid_before ord (e_bids b, total_bid_quantity b) of
              (m, t) \<Rightarrow> b\<lparr>e_bids := m, total_bid_quantity := t\<rparr>)
      else (case level_remove ask_before ord (e_asks b, total_ask_quantity b) of
              (m, t) \<Rightarrow> b\<lparr>e_asks := m, total_ask_quantity := t\<rparr>))"

definition add_to_price_level :: "order \<Rightarrow> ebook \<Rightarrow> ebook" where
  "add_to_price_level ord b =
     (if is_bid ord
      then (case level_insert bid_before ord (e_bids b, total_bid_quantity b) of
              (m, t) \<Rightarrow> b\<lparr>e_bids := m, total_bid_quantity := t\<rparr>)
      else (case level_insert ask_before ord (e_asks b, total_ask_quantity b) of
              (m, t) \<Rightarrow> b\<lparr>e_asks := m, total_ask_quantity := t\<rparr>))"

subsection \<open>The operations\<close>

definition put_order :: "u64 \<Rightarrow> order option \<Rightarrow> ebook \<Rightarrow> ebook" where
  "put_order i x b = b\<lparr>orders := (orders b)(i := x)\<rparr>"

definition e_stamp :: "u64 \<Rightarrow> ebook \<Rightarrow> ebook" where
  "e_stamp ts b = b\<lparr>e_last_update_time := ts, e_message_count := e_message_count b + 1\<rparr>"

definition add_order :: "u64 \<Rightarrow> char \<Rightarrow> i64 \<Rightarrow> u64 \<Rightarrow> u64 \<Rightarrow> ebook \<Rightarrow> bool \<times> ebook" where
  "add_order i sd p q ts b =
     (if orders b i \<noteq> None then (False, b)
      else
        (let ord = new_order i (e_symbol b) sd p q ts
         in (True, e_stamp ts (add_to_price_level ord (put_order i (Some ord) b)))))"

definition modify_order :: "u64 \<Rightarrow> u64 \<Rightarrow> u64 \<Rightarrow> ebook \<Rightarrow> bool \<times> ebook" where
  "modify_order i q ts b =
     (case orders b i of
        None \<Rightarrow> (False, b)
      | Some ord \<Rightarrow>
          (let b1 = remove_from_price_level ord b;
               ord' = ord\<lparr>quantity := q, o_timestamp := ts\<rparr>;
               b2 = (if 0 < q then add_to_price_level ord' (put_order i (Some ord') b1)
                     else put_order i None b1)
           in (True, e_stamp ts b2)))"

text \<open>
  \<open>cancel_order\<close> and \<open>execute_order\<close> have the same body in the source; both are kept.
\<close>

definition cancel_order :: "u64 \<Rightarrow> u64 \<Rightarrow> u64 \<Rightarrow> ebook \<Rightarrow> bool \<times> ebook" where
  "cancel_order i q ts b =
     (case orders b i of
        None \<Rightarrow> (False, b)
      | Some ord \<Rightarrow>
          (let b1 = remove_from_price_level ord b;
               ord' = ord\<lparr>quantity := quantity ord - q, o_timestamp := ts\<rparr>;
               b2 = (if q < quantity ord then add_to_price_level ord' (put_order i (Some ord') b1)
                     else put_order i None b1)
           in (True, e_stamp ts b2)))"

definition delete_order :: "u64 \<Rightarrow> u64 \<Rightarrow> ebook \<Rightarrow> bool \<times> ebook" where
  "delete_order i ts b =
     (case orders b i of
        None \<Rightarrow> (False, b)
      | Some ord \<Rightarrow> (True, e_stamp ts (put_order i None (remove_from_price_level ord b))))"

definition execute_order :: "u64 \<Rightarrow> u64 \<Rightarrow> u64 \<Rightarrow> ebook \<Rightarrow> bool \<times> ebook" where
  "execute_order i q ts b =
     (case orders b i of
        None \<Rightarrow> (False, b)
      | Some ord \<Rightarrow>
          (let b1 = remove_from_price_level ord b;
               ord' = ord\<lparr>quantity := quantity ord - q, o_timestamp := ts\<rparr>;
               b2 = (if q < quantity ord then add_to_price_level ord' (put_order i (Some ord') b1)
                     else put_order i None b1)
           in (True, e_stamp ts b2)))"

definition replace_order ::
  "u64 \<Rightarrow> u64 \<Rightarrow> u64 \<Rightarrow> i64 \<Rightarrow> u64 \<Rightarrow> ebook \<Rightarrow> bool \<times> ebook" where
  "replace_order old new q p ts b =
     (case orders b old of
        None \<Rightarrow> (False, b)
      | Some ord \<Rightarrow> add_order new (o_side ord) p q ts (snd (delete_order old ts b)))"

subsection \<open>Queries\<close>

definition e_best_bid :: "ebook \<Rightarrow> i64 option" where
  "e_best_bid b = best_price (e_bids b)"

definition e_best_ask :: "ebook \<Rightarrow> i64 option" where
  "e_best_ask b = best_price (e_asks b)"

definition e_best_bid_size :: "ebook \<Rightarrow> u64 option" where
  "e_best_bid_size b = best_size (e_bids b)"

definition e_best_ask_size :: "ebook \<Rightarrow> u64 option" where
  "e_best_ask_size b = best_size (e_asks b)"

definition e_spread :: "ebook \<Rightarrow> double" where
  "e_spread b = spread_of (e_best_bid b) (e_best_ask b)"

definition e_imbalance :: "ebook \<Rightarrow> double" where
  \<comment> \<open>over the totals of the two sides, not the best levels\<close>
  "e_imbalance b = imbalance_of (total_bid_quantity b) (total_ask_quantity b)"

definition mid_price :: "ebook \<Rightarrow> double" where
  "mid_price b =
     (case (e_best_bid b, e_best_ask b) of
        (Some p, Some q) \<Rightarrow> fl (of_i64 (p + q) / 20000)
      | _ \<Rightarrow> 0)"

definition e_snapshot :: "ebook \<Rightarrow> book_snapshot" where
  "e_snapshot b =
     \<lparr>snap_symbol = e_symbol b, snap_timestamp = e_last_update_time b,
      snap_best_bid = value_or (e_best_bid b) 0,
      snap_best_bid_size = value_or (e_best_bid_size b) 0,
      snap_best_ask = value_or (e_best_ask b) 0,
      snap_best_ask_size = value_or (e_best_ask_size b) 0,
      snap_spread = e_spread b, snap_imbalance = e_imbalance b,
      snap_bid_levels = length (e_bids b), snap_ask_levels = length (e_asks b)\<rparr>"

definition total_orders :: "ebook \<Rightarrow> nat" where
  "total_orders b = card (dom (orders b))"

text \<open>The loop of \<open>get_bid_depth\<close>: \<open>count\<close> runs up to \<open>levels\<close>.\<close>

fun depth_loop :: "nat \<Rightarrow> nat \<Rightarrow> levels \<Rightarrow> price_level list" where
  "depth_loop levels count [] = []"
| "depth_loop levels count ((p, l) # m) =
     (if levels \<le> count then [] else l # depth_loop levels (count + 1) m)"

definition get_bid_depth :: "nat \<Rightarrow> ebook \<Rightarrow> price_level list" where
  "get_bid_depth n b = depth_loop n 0 (e_bids b)"

definition get_ask_depth :: "nat \<Rightarrow> ebook \<Rightarrow> price_level list" where
  "get_ask_depth n b = depth_loop n 0 (e_asks b)"

definition has_crossing :: "ebook \<Rightarrow> bool" where
  "has_crossing b =
     (case (e_best_bid b, e_best_ask b) of
        (Some p, Some q) \<Rightarrow> q \<le>s p
      | _ \<Rightarrow> False)"

definition e_clear :: "ebook \<Rightarrow> ebook" where
  "e_clear b =
     b\<lparr>e_bids := [], e_asks := [], orders := Map.empty, e_last_update_time := 0,
       e_message_count := 0, total_bid_quantity := 0, total_ask_quantity := 0\<rparr>"

subsection \<open>What the live orders say\<close>

definition qty_on :: "(order \<Rightarrow> bool) \<Rightarrow> order \<Rightarrow> nat" where
  "qty_on P x = (if P x then unat (quantity x) else 0)"

definition count_on :: "(order \<Rightarrow> bool) \<Rightarrow> order \<Rightarrow> nat" where
  "count_on P x = (if P x then 1 else 0)"

definition at_price :: "(order \<Rightarrow> bool) \<Rightarrow> i64 \<Rightarrow> order \<Rightarrow> bool" where
  "at_price P p x \<longleftrightarrow> P x \<and> o_price x = p"

text \<open>The level a side must have at a price, computed from the orders alone.\<close>

definition level_spec :: "(order \<Rightarrow> bool) \<Rightarrow> (u64 \<rightharpoonup> order) \<Rightarrow> i64 \<Rightarrow> price_level option" where
  "level_spec P m p =
     (let c = msum (count_on (at_price P p)) m
      in if c = 0 then None
         else Some \<lparr>price = p, lsize = of_nat (msum (qty_on (at_price P p)) m),
                    order_count = of_nat c\<rparr>)"

definition side_ok ::
  "(i64 \<Rightarrow> i64 \<Rightarrow> bool) \<Rightarrow> (order \<Rightarrow> bool) \<Rightarrow> (u64 \<rightharpoonup> order) \<Rightarrow> levels \<times> u64 \<Rightarrow> bool" where
  "side_ok lt P m st \<longleftrightarrow>
     om_wf lt (fst st) \<and> (\<forall>p. om_find lt p (fst st) = level_spec P m p) \<and>
     snd st = of_nat (msum (qty_on P) m) \<and> msum (qty_on P) m < 2 ^ 64"

definition orders_ok :: "string \<Rightarrow> (u64 \<rightharpoonup> order) \<Rightarrow> bool" where
  "orders_ok s m \<longleftrightarrow> finite (dom m) \<and>
     (\<forall>i x. m i = Some x \<longrightarrow> order_id x = i \<and> o_symbol x = s \<and> 0 < quantity x)"

definition sides_ok :: "(u64 \<rightharpoonup> order) \<Rightarrow> ebook \<Rightarrow> bool" where
  "sides_ok m b \<longleftrightarrow>
     side_ok bid_before is_bid m (e_bids b, total_bid_quantity b) \<and>
     side_ok ask_before (Not \<circ> is_bid) m (e_asks b, total_ask_quantity b)"

definition ebook_inv :: "ebook \<Rightarrow> bool" where
  "ebook_inv b \<longleftrightarrow> orders_ok (e_symbol b) (orders b) \<and> sides_ok (orders b) b"

lemma count_le_qty:
  assumes "\<forall>i x. m i = Some x \<longrightarrow> 0 < quantity x"
  shows "msum (count_on P) m \<le> msum (qty_on P) m"
  unfolding msum_def
proof (rule sum_mono)
  fix k assume "k \<in> dom m"
  then have "0 < unat (quantity (the (m k)))"
    using assms by (auto simp: word_pos_iff_unat)
  then show "count_on P (the (m k)) \<le> qty_on P (the (m k))"
    by (simp add: count_on_def qty_on_def)
qed

lemma qty_at_price_le: "msum (qty_on (at_price P p)) m \<le> msum (qty_on P) m"
  by (rule msum_mono) (simp add: qty_on_def at_price_def)

lemma qty_zero_of_count_zero:
  assumes "finite (dom m)" and "msum (count_on P) m = 0"
  shows "msum (qty_on P) m = 0"
  using assms by (auto simp: msum_eq_0_iff count_on_def qty_on_def split: if_splits)

context side
begin

text \<open>The order map grows by an order of the side.\<close>

lemma side_insert:
  assumes ok: "side_ok lt P m st" and fin: "finite (dom m)" and new: "m i = None"
    and P: "P x" and room: "msum (qty_on P) m + unat (quantity x) < 2 ^ 64"
  shows "side_ok lt P (m(i \<mapsto> x)) (level_insert lt x st)"
proof -
  let ?p = "o_price x" and ?m = "m(i \<mapsto> x)"
  have q: "msum (qty_on Q) ?m = qty_on Q x + msum (qty_on Q) m"
    and c: "msum (count_on Q) ?m = count_on Q x + msum (count_on Q) m" for Q
    using fin new by (simp_all add: msum_upd)
  have find: "om_find lt r (fst st) = level_spec P m r" for r
    using ok by (simp add: side_ok_def)
  have "om_find lt r (level_add lt ?p (quantity x) (fst st)) = level_spec P ?m r" for r
  proof (cases "r = ?p")
    case False
    then show ?thesis
      by (simp add: level_add_def Let_def om_find_put find level_spec_def q c qty_on_def
          count_on_def at_price_def)
  next
    case True
    have on: "qty_on (at_price P ?p) x = unat (quantity x)" "count_on (at_price P ?p) x = 1"
      using P by (simp_all add: qty_on_def count_on_def at_price_def)
    show ?thesis
    proof (cases "msum (count_on (at_price P ?p)) m = 0")
      case c0: True
      then have "msum (qty_on (at_price P ?p)) m = 0"
        using fin by (intro qty_zero_of_count_zero)
      then show ?thesis
        using True c0 on
        by (simp add: level_add_def Let_def om_find_put find level_spec_def q c empty_level_def)
    qed (use True on in
        \<open>simp add: level_add_def Let_def om_find_put find level_spec_def q c add.commute\<close>)
  qed
  moreover have "qty_on P x = unat (quantity x)" using P by (simp add: qty_on_def)
  ultimately show ?thesis
    using ok room by (simp add: side_ok_def level_insert_def level_wf q add.commute)
qed

text \<open>The order map loses an order of the side.\<close>

lemma side_remove:
  assumes ok: "side_ok lt P m st" and fin: "finite (dom m)" and x: "m i = Some x"
    and P: "P x" and pos: "\<forall>j y. m j = Some y \<longrightarrow> 0 < quantity y"
  shows "side_ok lt P (m(i := None)) (level_remove lt x st)"
proof -
  let ?p = "o_price x" and ?m = "m(i := None)"
  let ?Q = "at_price P ?p"
  have q: "msum (qty_on R) m = qty_on R x + msum (qty_on R) ?m"
    and c: "msum (count_on R) m = count_on R x + msum (count_on R) ?m" for R
    using fin x by (simp_all add: msum_del)
  have find: "om_find lt r (fst st) = level_spec P m r" for r
    using ok by (simp add: side_ok_def)
  have on: "qty_on ?Q x = unat (quantity x)" "count_on ?Q x = 1" "qty_on P x = unat (quantity x)"
    using P by (simp_all add: qty_on_def count_on_def at_price_def)
  have lim: "unat (quantity x) + msum (qty_on ?Q) ?m < 2 ^ 64"
    using ok qty_at_price_le [of P ?p m] by (simp add: side_ok_def q on)
  have pos': "\<forall>j y. ?m j = Some y \<longrightarrow> 0 < quantity y" using pos by simp
  have cq: "msum (count_on ?Q) ?m \<le> msum (qty_on ?Q) ?m"
    using pos' by (rule count_le_qty)
  define q' where "q' = msum (qty_on ?Q) ?m"
  define c' where "c' = msum (count_on ?Q) ?m"
  let ?l = "\<lparr>price = ?p, lsize = of_nat (unat (quantity x) + q'), order_count = of_nat (1 + c')\<rparr>"
  have l: "om_find lt ?p (fst st) = Some ?l"
    by (simp add: find level_spec_def q c on q'_def c'_def)
  have lim': "unat (quantity x) + q' < 2 ^ 64" and cq': "c' \<le> q'"
    using lim cq by (simp_all add: q'_def c'_def)
  have "0 < unat (quantity x)" using pos x by (auto simp: word_pos_iff_unat)
  then have "unat (order_count ?l) = 1 + c'"
    using lim' cq' unat_of_nat_small [of "1 + c'", where 'n = 64] by simp
  then have cnt: "0 < order_count ?l" by (simp only: word_pos_iff_unat)
  have "unat (lsize ?l) = unat (quantity x) + q'"
    using lim' unat_of_nat_small [of "unat (quantity x) + q'", where 'n = 64] by simp
  then have big: "quantity x \<le> lsize ?l" by (simp only: word_le_nat_alt le_add1)
  have gone: "(of_nat q' :: u64) = 0 \<or> (of_nat c' :: u64) = 0 \<longleftrightarrow> c' = 0"
  proof -
    have "c' = 0 \<Longrightarrow> q' = 0"
      unfolding q'_def c'_def using fin by (intro qty_zero_of_count_zero) simp_all
    then show ?thesis
      using lim' cq' of_nat_eq_0_iff_small [of q', where 'n = 64]
        of_nat_eq_0_iff_small [of c', where 'n = 64] by auto
  qed
  let ?m' = "if c' = 0 then om_erase lt ?p (fst st)
    else om_put lt ?p \<lparr>price = ?p, lsize = of_nat q', order_count = of_nat c'\<rparr> (fst st)"
  have rem: "level_remove lt x st = (?m', snd st - quantity x)"
    using big cnt gone by (simp add: level_remove_def l Let_def)
  have spec: "level_spec P ?m r = (if r = ?p then if c' = 0 then None
      else Some \<lparr>price = ?p, lsize = of_nat q', order_count = of_nat c'\<rparr>
    else level_spec P m r)" for r
    by (simp add: level_spec_def Let_def q c q'_def c'_def qty_on_def count_on_def at_price_def)
  have "om_wf lt (fst st)" using ok by (simp add: side_ok_def)
  then have "om_wf lt ?m' \<and> (\<forall>r. om_find lt r ?m' = level_spec P ?m r)"
    by (simp add: om_wf_put om_wf_erase om_find_put om_find_erase find spec)
  then show ?thesis
    using ok by (simp add: side_ok_def rem q on)
qed

text \<open>An order of the other side does not touch this side.\<close>

lemma side_other:
  assumes "finite (dom m)" and "\<not> P x"
  shows "m i = None \<Longrightarrow> side_ok lt P (m(i \<mapsto> x)) st \<longleftrightarrow> side_ok lt P m st"
    and "m i = Some x \<Longrightarrow> side_ok lt P (m(i := None)) st \<longleftrightarrow> side_ok lt P m st"
  using assms msum_upd [OF assms(1)] msum_del [OF assms(1)]
  by (simp_all add: side_ok_def level_spec_def Let_def qty_on_def count_on_def at_price_def)

end

lemma finite_upd [simp]: "finite (dom m) \<Longrightarrow> finite (dom (m(i := x)))"
  by (cases x) simp_all

lemma sides_insert:
  assumes "sides_ok m b" and "finite (dom m)" and "m i = None"
    and "msum (unat \<circ> quantity) m + unat (quantity x) < 2 ^ 64"
  shows "sides_ok (m(i \<mapsto> x)) (add_to_price_level x b)"
proof -
  have room: "msum (qty_on P) m + unat (quantity x) < 2 ^ 64" for P
  proof -
    have "msum (qty_on P) m \<le> msum (unat \<circ> quantity) m"
      by (rule msum_mono) (simp add: qty_on_def)
    with assms(4) show ?thesis by linarith
  qed
  show ?thesis
  proof (cases "is_bid x")
    case True
    then show ?thesis
      using assms bid_side.side_insert [of is_bid m "(e_bids b, total_bid_quantity b)" i x] room
        ask_side.side_other(1) [of m "Not \<circ> is_bid" x i]
      by (auto simp: sides_ok_def add_to_price_level_def split: prod.splits)
  next
    case False
    then show ?thesis
      using assms ask_side.side_insert [of "Not \<circ> is_bid" m "(e_asks b, total_ask_quantity b)" i x] room
        bid_side.side_other(1) [of m is_bid x i]
      by (auto simp: sides_ok_def add_to_price_level_def split: prod.splits)
  qed
qed

lemma sides_remove:
  assumes "sides_ok m b" and "orders_ok s m" and "m i = Some x"
  shows "sides_ok (m(i := None)) (remove_from_price_level x b)"
proof -
  have fin: "finite (dom m)" and pos: "\<forall>j y. m j = Some y \<longrightarrow> 0 < quantity y"
    using assms(2) by (auto simp: orders_ok_def)
  show ?thesis
  proof (cases "is_bid x")
    case True
    then show ?thesis
      using assms bid_side.side_remove [of is_bid m "(e_bids b, total_bid_quantity b)" i x] fin pos
        ask_side.side_other(2) [OF fin, of "Not \<circ> is_bid" x i]
      by (auto simp: sides_ok_def remove_from_price_level_def split: prod.splits)
  next
    case False
    then show ?thesis
      using assms ask_side.side_remove [of "Not \<circ> is_bid" m "(e_asks b, total_ask_quantity b)" i x] fin pos
        bid_side.side_other(2) [OF fin, of is_bid x i]
      by (auto simp: sides_ok_def remove_from_price_level_def split: prod.splits)
  qed
qed

lemma level_frame [frame_simp]:
  "orders (add_to_price_level x b) = orders b" "e_symbol (add_to_price_level x b) = e_symbol b"
  "orders (remove_from_price_level x b) = orders b"
  "e_symbol (remove_from_price_level x b) = e_symbol b"
  "e_message_count (add_to_price_level x b) = e_message_count b"
  "e_message_count (remove_from_price_level x b) = e_message_count b"
  "e_last_update_time (add_to_price_level x b) = e_last_update_time b"
  "e_last_update_time (remove_from_price_level x b) = e_last_update_time b"
  by (simp_all add: add_to_price_level_def remove_from_price_level_def split: prod.splits)

lemma put_frame [frame_simp]:
  "orders (put_order i x b) = (orders b)(i := x)" "e_symbol (put_order i x b) = e_symbol b"
  "orders (e_stamp ts b) = orders b" "e_symbol (e_stamp ts b) = e_symbol b"
  "e_bids (put_order i x b) = e_bids b" "e_asks (put_order i x b) = e_asks b"
  "e_bids (e_stamp ts b) = e_bids b" "e_asks (e_stamp ts b) = e_asks b"
  "total_bid_quantity (put_order i x b) = total_bid_quantity b"
  "total_ask_quantity (put_order i x b) = total_ask_quantity b"
  "total_bid_quantity (e_stamp ts b) = total_bid_quantity b"
  "total_ask_quantity (e_stamp ts b) = total_ask_quantity b"
  by (simp_all add: put_order_def e_stamp_def)

lemma sides_frame [frame_simp]:
  "sides_ok m (put_order i x b) = sides_ok m b" "sides_ok m (e_stamp ts b) = sides_ok m b"
  by (simp_all add: sides_ok_def frame_simp)

subsection \<open>Abstract book: a map of live orders\<close>

datatype order_op =
    Add u64 char i64 u64 u64
  | Modify u64 u64 u64
  | Cancel u64 u64 u64
  | Delete u64 u64
  | Execute u64 u64 u64
  | Replace u64 u64 u64 i64 u64

fun ebook_step :: "order_op \<Rightarrow> ebook \<Rightarrow> bool \<times> ebook" where
  "ebook_step (Add i sd p q ts) = add_order i sd p q ts"
| "ebook_step (Modify i q ts) = modify_order i q ts"
| "ebook_step (Cancel i q ts) = cancel_order i q ts"
| "ebook_step (Delete i ts) = delete_order i ts"
| "ebook_step (Execute i q ts) = execute_order i q ts"
| "ebook_step (Replace i j q p ts) = replace_order i j q p ts"

text \<open>
  The abstract operations say only what happens to the orders: an order is added, its
  quantity set or reduced (and it disappears at zero), or it is removed.
\<close>

definition abs_reduce :: "u64 \<Rightarrow> u64 \<Rightarrow> u64 \<Rightarrow> (u64 \<rightharpoonup> order) \<Rightarrow> (u64 \<rightharpoonup> order)" where
  "abs_reduce i q ts m =
     (case m i of
        None \<Rightarrow> m
      | Some x \<Rightarrow>
          m(i := if q < quantity x then Some (x\<lparr>quantity := quantity x - q, o_timestamp := ts\<rparr>)
                 else None))"

definition abs_add ::
  "string \<Rightarrow> u64 \<Rightarrow> char \<Rightarrow> i64 \<Rightarrow> u64 \<Rightarrow> u64 \<Rightarrow> (u64 \<rightharpoonup> order) \<Rightarrow> bool \<times> (u64 \<rightharpoonup> order)" where
  "abs_add s i sd p q ts m =
     (if m i = None then (True, m(i \<mapsto> new_order i s sd p q ts)) else (False, m))"

fun abs_step :: "string \<Rightarrow> order_op \<Rightarrow> (u64 \<rightharpoonup> order) \<Rightarrow> bool \<times> (u64 \<rightharpoonup> order)" where
  "abs_step s (Add i sd p q ts) m = abs_add s i sd p q ts m"
| "abs_step s (Modify i q ts) m =
     (case m i of
        None \<Rightarrow> (False, m)
      | Some x \<Rightarrow>
          (True, m(i := if q = 0 then None else Some (x\<lparr>quantity := q, o_timestamp := ts\<rparr>))))"
| "abs_step s (Cancel i q ts) m = (m i \<noteq> None, abs_reduce i q ts m)"
| "abs_step s (Delete i ts) m = (m i \<noteq> None, m(i := None))"
| "abs_step s (Execute i q ts) m = (m i \<noteq> None, abs_reduce i q ts m)"
| "abs_step s (Replace i j q p ts) m =
     (case m i of
        None \<Rightarrow> (False, m)
      | Some x \<Rightarrow> abs_add s j (o_side x) p q ts (m(i := None)))"

text \<open>The quantity an operation can bring into the book.\<close>

fun introduced :: "order_op \<Rightarrow> nat" where
  "introduced (Add i sd p q ts) = unat q"
| "introduced (Modify i q ts) = unat q"
| "introduced (Replace i j q p ts) = unat q"
| "introduced _ = 0"

fun adds_positive :: "order_op \<Rightarrow> bool" where
  "adds_positive (Add i sd p q ts) \<longleftrightarrow> 0 < q"
| "adds_positive (Replace i j q p ts) \<longleftrightarrow> 0 < q"
| "adds_positive _ \<longleftrightarrow> True"

definition exposure :: "(u64 \<rightharpoonup> order) \<Rightarrow> nat" where
  "exposure m = msum (unat \<circ> quantity) m"

lemma exposure_del:
  "finite (dom m) \<Longrightarrow> m i = Some x \<Longrightarrow> exposure m = unat (quantity x) + exposure (m(i := None))"
  by (simp add: exposure_def msum_del)

lemma exposure_upd:
  "finite (dom m) \<Longrightarrow> m i = None \<Longrightarrow> exposure (m(i \<mapsto> x)) = unat (quantity x) + exposure m"
  by (simp add: exposure_def msum_upd)

lemma orders_ok_del: "orders_ok s m \<Longrightarrow> orders_ok s (m(i := None))"
  by (auto simp: orders_ok_def)

lemma orders_ok_put:
  "orders_ok s m \<Longrightarrow> order_id x = i \<Longrightarrow> o_symbol x = s \<Longrightarrow> 0 < quantity x \<Longrightarrow> orders_ok s (m(i \<mapsto> x))"
  by (auto simp: orders_ok_def)

text \<open>
  The common shape of the operations on a live order: take it off the levels, then put a
  changed order back, or drop it.
\<close>

lemma inv_drop:
  assumes "ebook_inv b" and "orders b i = Some x"
  shows "ebook_inv (e_stamp ts (put_order i None (remove_from_price_level x b)))"
  using assms sides_remove [of "orders b" b "e_symbol b" i x] orders_ok_del
  by (simp add: ebook_inv_def frame_simp)

lemma inv_reput:
  assumes inv: "ebook_inv b" and x: "orders b i = Some x"
    and y: "order_id y = i" "o_symbol y = e_symbol b" "0 < quantity y"
    and room: "exposure ((orders b)(i := None)) + unat (quantity y) < 2 ^ 64"
  shows "ebook_inv (e_stamp ts (add_to_price_level y
           (put_order i (Some y) (remove_from_price_level x b))))"
proof -
  let ?m = "(orders b)(i := None)"
  let ?b = "put_order i (Some y) (remove_from_price_level x b)"
  have ok: "orders_ok (e_symbol b) (orders b)" and s: "sides_ok (orders b) b"
    using inv by (simp_all add: ebook_inv_def)
  have "sides_ok ?m ?b" using sides_remove [OF s ok x] by (simp add: frame_simp)
  then have "sides_ok (?m(i \<mapsto> y)) (add_to_price_level y ?b)"
    using ok room by (intro sides_insert) (auto simp: orders_ok_def exposure_def)
  moreover have "orders_ok (e_symbol b) (?m(i \<mapsto> y))"
    using orders_ok_del [OF ok] y by (intro orders_ok_put) auto
  ultimately show ?thesis by (simp add: ebook_inv_def frame_simp)
qed

lemma inv_add:
  assumes inv: "ebook_inv b" and "orders b i = None" and "0 < q"
    and "exposure (orders b) + unat q < 2 ^ 64"
  shows "ebook_inv (snd (add_order i sd p q ts b))"
proof -
  let ?x = "new_order i (e_symbol b) sd p q ts"
  have ok: "orders_ok (e_symbol b) (orders b)" and s: "sides_ok (orders b) b"
    using inv by (simp_all add: ebook_inv_def)
  have "sides_ok ((orders b)(i \<mapsto> ?x)) (add_to_price_level ?x (put_order i (Some ?x) b))"
    using ok s assms by (intro sides_insert)
      (auto simp: orders_ok_def exposure_def frame_simp new_order_def)
  moreover have "orders_ok (e_symbol b) ((orders b)(i \<mapsto> ?x))"
    using ok assms by (intro orders_ok_put) (simp_all add: new_order_def)
  ultimately show ?thesis
    using assms by (simp add: add_order_def Let_def ebook_inv_def frame_simp)
qed

lemma inv_step:
  assumes inv: "ebook_inv b" and pos: "adds_positive op"
    and room: "exposure (orders b) + introduced op < 2 ^ 64"
  shows "ebook_inv (snd (ebook_step op b))"
proof -
  have fin: "finite (dom (orders b))" and ids: "order_id x = i \<and> o_symbol x = e_symbol b \<and> 0 < quantity x"
    if "orders b i = Some x" for i x
    using inv that by (auto simp: ebook_inv_def orders_ok_def)
  have fin: "finite (dom (orders b))" using inv by (simp add: ebook_inv_def orders_ok_def)
  have less: "exposure ((orders b)(i := None)) + unat (quantity x) < 2 ^ 64"
    if "orders b i = Some x" for i x
    using room exposure_del [OF fin that] by simp
  have reduce: "ebook_inv (snd (cancel_order i q ts b))" for i q ts
  proof (cases "orders b i")
    case (Some x)
    have "unat (quantity x - q) \<le> unat (quantity x) \<and> 0 < quantity x - q" if "q < quantity x"
      using that by (simp add: unat_sub less_imp_le word_pos_iff_unat word_less_nat_alt)
    then show ?thesis
      using Some ids [OF Some] less [OF Some] inv_drop [OF inv Some]
        inv_reput [OF inv Some, of "x\<lparr>quantity := quantity x - q, o_timestamp := ts\<rparr>"]
      by (auto simp: cancel_order_def Let_def)
  qed (simp add: cancel_order_def inv)
  have "execute_order = cancel_order" by (simp add: execute_order_def cancel_order_def fun_eq_iff)
  with reduce show ?thesis
  proof (cases op)
    case (Add i sd p q ts)
    then show ?thesis
      using inv_add [OF inv, of i q] pos room inv by (cases "orders b i") (auto simp: add_order_def)
  next
    case (Modify i q ts)
    show ?thesis
    proof (cases "orders b i")
      case (Some x)
      then show ?thesis
        using Modify ids [OF Some] room exposure_del [OF fin Some] inv_drop [OF inv Some]
          inv_reput [OF inv Some, of "x\<lparr>quantity := q, o_timestamp := ts\<rparr>"]
        by (auto simp: modify_order_def Let_def)
    qed (simp add: Modify modify_order_def inv)
  next
    case (Delete i ts)
    then show ?thesis
      using inv inv_drop [OF inv] by (simp add: delete_order_def split: option.split)
  next
    case (Replace i j q p ts)
    show ?thesis
    proof (cases "orders b i")
      case (Some x)
      let ?b = "snd (delete_order i ts b)"
      have i: "ebook_inv ?b" and m: "orders ?b = (orders b)(i := None)"
        using inv_drop [OF inv Some] Some by (simp_all add: delete_order_def frame_simp)
      have "exposure (orders ?b) + unat q < 2 ^ 64"
        using m room Replace exposure_del [OF fin Some] by simp
      then have "ebook_inv (snd (add_order j (o_side x) p q ts ?b))"
        using inv_add [OF i, of j q] pos Replace i by (cases "orders ?b j") (auto simp: add_order_def)
      with Some Replace show ?thesis by (simp add: replace_order_def)
    qed (simp add: Replace replace_order_def inv)
  qed simp_all
qed

lemma abs_refines_step:
  "fst (ebook_step op b) = fst (abs_step (e_symbol b) op (orders b)) \<and>
   orders (snd (ebook_step op b)) = snd (abs_step (e_symbol b) op (orders b)) \<and>
   e_symbol (snd (ebook_step op b)) = e_symbol b"
  by (cases op)
    (auto simp: abs_add_def add_order_def modify_order_def cancel_order_def execute_order_def
      delete_order_def replace_order_def abs_reduce_def Let_def frame_simp word_gt_0
      fun_upd_idem split: option.splits)

lemma exposure_step:
  assumes "ebook_inv b" and "exposure (orders b) + introduced op < 2 ^ 64"
  shows "exposure (orders (snd (ebook_step op b))) \<le> exposure (orders b) + introduced op"
proof -
  let ?m = "orders b"
  have fin: "finite (dom ?m)" using assms by (simp add: ebook_inv_def orders_ok_def)
  have set: "exposure (?m(i \<mapsto> y)) = exposure (?m(i := None)) + unat (quantity y)" for i y
    using exposure_upd [of "?m(i := None)" i] fin by simp
  have del: "exposure ?m = (case ?m i of None \<Rightarrow> 0 | Some x \<Rightarrow> unat (quantity x)) + exposure (?m(i := None))" for i
    using exposure_del [OF fin, of i] by (cases "?m i") (simp_all add: fun_upd_idem)
  have reduce: "exposure (abs_reduce i q ts ?m) \<le> exposure ?m" for i q ts
  proof (cases "?m i")
    case (Some x)
    have "exposure (abs_reduce i q ts ?m) =
        exposure (?m(i := None)) + (if q < quantity x then unat (quantity x - q) else 0)"
      by (simp add: abs_reduce_def Some set)
    moreover have "(if q < quantity x then unat (quantity x - q) else 0) \<le> unat (quantity x)"
      by (simp add: unat_sub less_imp_le)
    ultimately show ?thesis using del [of i] Some by simp
  qed (simp add: abs_reduce_def)
  have add: "exposure (snd (abs_add s j sd p q ts m)) \<le> exposure m + unat q"
    if "finite (dom m)" for s j sd p q ts and m :: "u64 \<rightharpoonup> order"
    using that by (simp add: abs_add_def exposure_upd new_order_def)
  have "exposure (snd (abs_step (e_symbol b) op ?m)) \<le> exposure ?m + introduced op"
  proof (cases op)
    case (Modify i q ts)
    then show ?thesis
      using set [of i] del [of i] by (cases "?m i") (simp_all)
  next
    case (Delete i ts)
    then show ?thesis using del [of i] by simp
  next
    case (Replace i j q p ts)
    have "exposure (?m(i := None)) \<le> exposure ?m" using del [of i] by simp
    moreover have "exposure (snd (abs_add (e_symbol b) j sd p q ts (?m(i := None))))
        \<le> exposure (?m(i := None)) + unat q" for sd
      using fin by (intro add) simp
    ultimately show ?thesis
      by (cases "?m i") (simp_all add: Replace, meson add_right_mono order_trans)
  qed (use add [OF fin] reduce in simp_all)
  then show ?thesis by (simp add: abs_refines_step)
qed

definition ebook_run :: "order_op list \<Rightarrow> ebook \<Rightarrow> ebook" where
  "ebook_run ops b = fold (\<lambda>op b. snd (ebook_step op b)) ops b"

lemma ebook_inv_run:
  assumes "ebook_inv b" and "\<forall>op\<in>set ops. adds_positive op"
    and "exposure (orders b) + sum_list (map introduced ops) < 2 ^ 64"
  shows "ebook_inv (ebook_run ops b) \<and>
    orders (ebook_run ops b) = fold (\<lambda>op m. snd (abs_step (e_symbol b) op m)) ops (orders b) \<and>
    e_symbol (ebook_run ops b) = e_symbol b"
  using assms
proof (induction ops arbitrary: b)
  case (Cons op ops)
  let ?b = "snd (ebook_step op b)"
  have "ebook_inv ?b" using Cons.prems by (intro inv_step) auto
  moreover have "exposure (orders ?b) + sum_list (map introduced ops) < 2 ^ 64"
    using exposure_step [OF Cons.prems(1), of op] Cons.prems(3) by simp
  ultimately show ?case
    using Cons.IH [of ?b] Cons.prems(2) by (simp add: ebook_run_def abs_refines_step)
qed (simp add: ebook_run_def)

lemma ebook_exposure_run:
  assumes "ebook_inv b" and "\<forall>op\<in>set ops. adds_positive op"
    and "exposure (orders b) + sum_list (map introduced ops) < 2 ^ 64"
  shows "exposure (orders (ebook_run ops b)) \<le> exposure (orders b) + sum_list (map introduced ops)"
  using assms
proof (induction ops arbitrary: b)
  case (Cons op ops)
  let ?b = "snd (ebook_step op b)"
  have i: "ebook_inv ?b" using Cons.prems by (intro inv_step) auto
  have e: "exposure (orders ?b) \<le> exposure (orders b) + introduced op"
    using Cons.prems by (intro exposure_step) auto
  then have "exposure (orders ?b) + sum_list (map introduced ops) < 2 ^ 64"
    using Cons.prems(3) by simp
  then have "exposure (orders (ebook_run ops ?b)) \<le> exposure (orders ?b) + sum_list (map introduced ops)"
    using Cons.IH [OF i] Cons.prems(2) by simp
  with e show ?case by (simp add: ebook_run_def)
qed (simp add: ebook_run_def)

lemma ebook_inv_new: "ebook_inv (ebook_new s)"
  by (simp add: ebook_inv_def ebook_new_def orders_ok_def sides_ok_def side_ok_def level_spec_def)

subsection \<open>Consequences of the invariant\<close>

lemma level_spec_Some_iff:
  assumes "finite (dom m)"
  shows "level_spec P m p \<noteq> None \<longleftrightarrow> (\<exists>i x. m i = Some x \<and> P x \<and> o_price x = p)"
  using msum_eq_0_iff [OF assms, of "count_on (at_price P p)"]
  by (auto simp: level_spec_def Let_def count_on_def at_price_def)

context side
begin

text \<open>The levels and the total are determined by the orders.\<close>

lemma side_unique:
  assumes "side_ok lt P m st" and "side_ok lt P m st'"
  shows "st = st'"
proof (rule prod_eqI)
  have "om_find lt k (fst st) = om_find lt k (fst st')" for k
    using assms by (simp add: side_ok_def)
  then show "fst st = fst st'"
    using assms by (intro om_ext) (simp_all add: side_ok_def)
  show "snd st = snd st'" using assms by (simp add: side_ok_def)
qed

lemma side_best_iff:
  assumes "side_ok lt P m st" and "finite (dom m)"
  shows "best_price (fst st) = Some p \<longleftrightarrow>
    (\<exists>i x. m i = Some x \<and> P x \<and> o_price x = p) \<and>
    (\<forall>i x. m i = Some x \<longrightarrow> P x \<longrightarrow> o_price x = p \<or> lt p (o_price x))"
proof -
  have wf: "om_wf lt (fst st)" using assms(1) by (simp add: side_ok_def)
  have at: "depth_of lt (fst st) q \<noteq> None \<longleftrightarrow> (\<exists>i x. m i = Some x \<and> P x \<and> o_price x = q)" for q
    using assms(1) level_spec_Some_iff [OF assms(2), of P q]
    by (simp add: side_ok_def depth_of_def)
  show ?thesis unfolding best_price_iff [OF wf] at by blast
qed

lemma side_best_None:
  assumes "side_ok lt P m st" and "finite (dom m)"
  shows "best_price (fst st) = None \<longleftrightarrow> \<not> (\<exists>i x. m i = Some x \<and> P x)"
proof -
  have wf: "om_wf lt (fst st)" using assms(1) by (simp add: side_ok_def)
  have "best_price (fst st) = None \<longleftrightarrow> (\<forall>p. level_spec P m p = None)"
    using om_find_all_None_iff [OF wf] assms(1)
    by (simp add: best_price_def om_begin_None_iff side_ok_def)
  then show ?thesis using level_spec_Some_iff [OF assms(2), of P] by blast
qed

lemma side_best_size:
  assumes "side_ok lt P m st" and "finite (dom m)" and "best_price (fst st) = Some p"
  shows "\<exists>v. best_size (fst st) = Some v \<and> unat v = msum (qty_on (at_price P p)) m"
proof -
  have wf: "om_wf lt (fst st)" using assms(1) by (simp add: side_ok_def)
  obtain l where l: "om_begin (fst st) = Some (p, l)"
    using assms(3) by (cases "om_begin (fst st)") (auto simp: best_price_def)
  then have "level_spec P m p = Some l"
    using om_begin_least [OF wf l] assms(1) by (simp add: side_ok_def)
  moreover have "msum (qty_on (at_price P p)) m < 2 ^ 64"
    using qty_at_price_le [of P p m] assms(1) by (simp add: side_ok_def)
  ultimately show ?thesis
    using l by (auto simp: best_size_def level_spec_def Let_def unat_of_nat_small split: if_splits)
qed

text \<open>The level sizes of a side add up to its total.\<close>

lemma side_total:
  assumes ok: "side_ok lt P m st" and fin: "finite (dom m)"
  shows "sum_list (map (\<lambda>kv. unat (lsize (snd kv))) (fst st)) = unat (snd st)"
proof -
  let ?K = "fst ` set (fst st)"
  have wf: "om_wf lt (fst st)" and lim: "msum (qty_on P) m < 2 ^ 64"
    using ok by (simp_all add: side_ok_def)
  have size: "unat (lsize l) = msum (qty_on (at_price P p)) m" if "(p, l) \<in> set (fst st)" for p l
  proof -
    have "level_spec P m p = Some l" using that ok om_set_find [OF wf] by (simp add: side_ok_def)
    then show ?thesis
      using qty_at_price_le [of P p m] lim
      by (auto simp: level_spec_def Let_def unat_of_nat_small split: if_splits)
  qed
  have "sum_list (map (\<lambda>kv. unat (lsize (snd kv))) (fst st)) =
      sum_list (map (\<lambda>p. msum (qty_on (at_price P p)) m) (map fst (fst st)))"
    using size by (force intro: arg_cong [where f = sum_list])
  also have "\<dots> = (\<Sum>p\<in>?K. msum (qty_on (at_price P p)) m)"
    using sum_list_distinct_conv_sum_set [OF om_keys_distinct [OF wf],
        of "\<lambda>p. msum (qty_on (at_price P p)) m"]
    by (simp only: list.set_map)
  also have "\<dots> = (\<Sum>i\<in>dom m. \<Sum>p\<in>?K. qty_on (at_price P p) (the (m i)))"
    unfolding msum_def by (rule sum.swap)
  also have "\<dots> = (\<Sum>i\<in>dom m. qty_on P (the (m i)))"
  proof (rule sum.cong, rule refl)
    fix i assume "i \<in> dom m"
    then obtain x where x: "m i = Some x" by blast
    have "(\<Sum>p\<in>?K. qty_on (at_price P p) x) =
        (\<Sum>p\<in>?K. if p = o_price x then qty_on P x else 0)"
      by (rule sum.cong) (auto simp: qty_on_def at_price_def)
    also have "\<dots> = qty_on P x"
    proof (cases "P x")
      case True
      then have "level_spec P m (o_price x) \<noteq> None"
        using x fin level_spec_Some_iff by blast
      then have "o_price x \<in> ?K"
        using ok om_set_find [OF wf] by (force simp: side_ok_def)
      then show ?thesis by simp
    qed (simp add: qty_on_def)
    finally show "(\<Sum>p\<in>?K. qty_on (at_price P p) (the (m i))) = qty_on P (the (m i))"
      by (simp add: x)
  qed
  also have "\<dots> = msum (qty_on P) m" by (simp add: msum_def)
  finally show ?thesis
    using ok lim by (simp add: side_ok_def unat_of_nat_small)
qed

end

lemma depth_loop_take: "depth_loop n c m = map snd (take (n - c) m)"
proof (induction m arbitrary: c)
  case (Cons kv m)
  then show ?case by (cases kv) (simp add: take_Cons')
qed simp

lemma inv_parts:
  assumes "ebook_inv b"
  shows "finite (dom (orders b))"
    and "side_ok bid_before is_bid (orders b) (e_bids b, total_bid_quantity b)"
    and "side_ok ask_before (Not \<circ> is_bid) (orders b) (e_asks b, total_ask_quantity b)"
  using assms by (simp_all add: ebook_inv_def orders_ok_def sides_ok_def)

text \<open>
  C1. Refinement: as long as added orders have positive quantities and the quantities ever
  introduced fit in 64 bits, any sequence of add, modify, cancel, delete, execute and replace
  operations on a fresh book leaves exactly the orders of the abstract book, and every price
  level (its size, its order count, its existence) and both totals are what those orders say.
\<close>
theorem ebook_refines_orders:
  assumes "\<forall>op\<in>set ops. adds_positive op" and "sum_list (map introduced ops) < 2 ^ 64"
  shows "orders (ebook_run ops (ebook_new s)) =
      fold (\<lambda>op m. snd (abs_step s op m)) ops Map.empty \<and>
    ebook_inv (ebook_run ops (ebook_new s))"
  using ebook_inv_run [OF ebook_inv_new assms(1), of s] assms(2)
  by (simp add: ebook_new_def exposure_def)

text \<open>
  The top of the book, from the orders: \<open>best_bid\<close> is the highest price of a live buy order
  and its size is the sum of the live quantities at that price; likewise for the ask side
  with the lowest price.
\<close>
theorem best_quotes_of_orders:
  assumes "ebook_inv b"
  shows "(e_best_bid b = Some p \<longleftrightarrow>
      (\<exists>i x. orders b i = Some x \<and> is_bid x \<and> o_price x = p) \<and>
      (\<forall>i x. orders b i = Some x \<longrightarrow> is_bid x \<longrightarrow> o_price x \<le>s p)) \<and>
    (e_best_bid b = Some p \<longrightarrow>
      (\<exists>v. e_best_bid_size b = Some v \<and> unat v = msum (qty_on (at_price is_bid p)) (orders b))) \<and>
    (e_best_ask b = Some q \<longleftrightarrow>
      (\<exists>i x. orders b i = Some x \<and> \<not> is_bid x \<and> o_price x = q) \<and>
      (\<forall>i x. orders b i = Some x \<longrightarrow> \<not> is_bid x \<longrightarrow> q \<le>s o_price x)) \<and>
    (e_best_ask b = Some q \<longrightarrow>
      (\<exists>v. e_best_ask_size b = Some v \<and>
        unat v = msum (qty_on (at_price (Not \<circ> is_bid) q)) (orders b)))"
  using bid_side.side_best_iff [OF inv_parts(2,1), OF assms assms, of p]
    ask_side.side_best_iff [OF inv_parts(3,1), OF assms assms, of q]
    bid_side.side_best_size [OF inv_parts(2,1), OF assms assms, of p]
    ask_side.side_best_size [OF inv_parts(3,1), OF assms assms, of q]
  unfolding e_best_bid_def e_best_ask_def e_best_bid_size_def e_best_ask_size_def
    bid_before_def ask_before_def sle_iff_eq_or_sless comp_def fst_conv
  by (intro conjI) (simp_all add: eq_commute)


text \<open>
  The depth of the book: \<open>get_bid_depth n\<close> lists the best \<open>n\<close> bid levels, strictly
  descending in price, and the sizes of all levels add up to the side's total quantity.
\<close>
theorem bid_depth_sorted_total:
  assumes "ebook_inv b"
  shows "get_bid_depth n b = take n (get_bid_depth (length (e_bids b)) b) \<and>
    sorted_wrt (\<lambda>l k. price k <s price l) (get_bid_depth n b) \<and>
    sum_list (map (unat \<circ> lsize) (get_bid_depth (length (e_bids b)) b)) =
      unat (total_bid_quantity b)"
proof -
  note ok = inv_parts(2) [OF assms]
  have wf: "om_wf bid_before (e_bids b)" using ok by (simp add: side_ok_def)
  have key: "price l = p" if "(p, l) \<in> set (e_bids b)" for p l
    using that ok bid_map.om_set_find [OF wf, of p l]
    by (auto simp: side_ok_def level_spec_def Let_def split: if_splits)
  have "sorted_wrt (\<lambda>kv kw. price (snd kw) <s price (snd kv)) (e_bids b)"
    using wf unfolding om_wf_def
    by (rule sorted_wrt_mono_rel [rotated]) (auto simp: bid_before_def dest!: key)
  then have "sorted_wrt (\<lambda>l k. price k <s price l) (map snd (e_bids b))"
    by (simp add: sorted_wrt_map)
  then have "sorted_wrt (\<lambda>l k. price k <s price l) (take n (map snd (e_bids b)))"
    by (rule sorted_wrt_take)
  then show ?thesis
    using bid_side.side_total [OF ok inv_parts(1) [OF assms]]
    by (simp add: get_bid_depth_def depth_loop_take take_map comp_def)
qed

text \<open>
  Crossing: \<open>has_crossing\<close> is true exactly when some live buy order is priced at or above
  some live sell order.
\<close>
theorem has_crossing_iff_orders:
  assumes "ebook_inv b"
  shows "has_crossing b \<longleftrightarrow>
    (\<exists>i x j y. orders b i = Some x \<and> is_bid x \<and> orders b j = Some y \<and> \<not> is_bid y \<and>
      o_price y \<le>s o_price x)"
proof -
  note bid = bid_side.side_best_iff [OF inv_parts(2,1), OF assms assms]
  note ask = ask_side.side_best_iff [OF inv_parts(3,1), OF assms assms]
  note none = bid_side.side_best_None [OF inv_parts(2,1), OF assms assms]
    ask_side.side_best_None [OF inv_parts(3,1), OF assms assms]
  show ?thesis
  proof (cases "best_price (e_bids b) = None \<or> best_price (e_asks b) = None")
    case True
    with none show ?thesis
      by (auto simp: has_crossing_def e_best_bid_def e_best_ask_def split: option.splits)
  next
    case False
    then obtain p q where pq: "best_price (e_bids b) = Some p" "best_price (e_asks b) = Some q"
      by auto
    have x: "\<exists>i x. orders b i = Some x \<and> is_bid x \<and> o_price x = p"
        "\<And>i x. orders b i = Some x \<Longrightarrow> is_bid x \<Longrightarrow> sint (o_price x) \<le> sint p"
      using bid [of p] pq(1) unfolding bid_before_def word_sless_alt fst_conv
      by (blast, metis less_le order_refl)
    have y: "\<exists>j y. orders b j = Some y \<and> \<not> is_bid y \<and> o_price y = q"
        "\<And>j y. orders b j = Some y \<Longrightarrow> \<not> is_bid y \<Longrightarrow> sint q \<le> sint (o_price y)"
      using ask [of q] pq(2) unfolding ask_before_def word_sless_alt fst_conv comp_def
      by (blast, metis less_le order_refl)
    have "q \<le>s p \<longleftrightarrow> (\<exists>i x j y. orders b i = Some x \<and> is_bid x \<and> orders b j = Some y \<and>
        \<not> is_bid y \<and> o_price y \<le>s o_price x)"
    proof
      assume "q \<le>s p"
      with x(1) y(1) show "\<exists>i x j y. orders b i = Some x \<and> is_bid x \<and> orders b j = Some y \<and>
        \<not> is_bid y \<and> o_price y \<le>s o_price x" by blast
    next
      assume "\<exists>i x j y. orders b i = Some x \<and> is_bid x \<and> orders b j = Some y \<and>
        \<not> is_bid y \<and> o_price y \<le>s o_price x"
      then obtain i x' j y' where "orders b i = Some x'" "is_bid x'" "orders b j = Some y'"
          "\<not> is_bid y'" "sint (o_price y') \<le> sint (o_price x')"
        by (auto simp: word_sle_eq)
      with x(2) [of i x'] y(2) [of j y'] show "q \<le>s p" by (simp add: word_sle_eq)
    qed
    with pq show ?thesis by (simp add: has_crossing_def e_best_bid_def e_best_ask_def)
  qed
qed

text \<open>
  C31. Failed operations: an operation that returns \<open>false\<close> changes nothing, with one exception.
  A \<open>replace_order\<close> whose new id belongs to another live order has already deleted the old
  order when \<open>add_order\<close> refuses the new one: the call returns \<open>false\<close> and the old order is
  gone.
\<close>
theorem failed_operation_effect:
  assumes "\<not> fst (ebook_step op b)"
  shows "snd (ebook_step op b) = b \<or>
    (\<exists>i j q p ts. op = Replace i j q p ts \<and> i \<noteq> j \<and> orders b i \<noteq> None \<and> orders b j \<noteq> None \<and>
      snd (ebook_step op b) = snd (delete_order i ts b) \<and>
      orders (snd (ebook_step op b)) = (orders b)(i := None))"
proof (cases op)
  case (Replace i j q p ts)
  show ?thesis
  proof (cases "orders b i")
    case (Some x)
    then show ?thesis
      using assms Replace
      by (auto simp: replace_order_def add_order_def delete_order_def Let_def frame_simp
          split: if_splits)
  qed (simp add: Replace replace_order_def)
qed (use assms in \<open>auto simp: add_order_def modify_order_def cancel_order_def
      execute_order_def delete_order_def Let_def split: if_splits option.splits\<close>)

text \<open>
  The imbalance of the order-level book is taken over the side totals and lies between -1
  and 1 when their sum does not wrap; under the book invariant that holds whenever the live
  quantities fit in 64 bits together.
\<close>
theorem e_imbalance_bounded:
  assumes "ebook_inv b" and "exposure (orders b) < 2 ^ 64"
  shows "\<bar>e_imbalance b\<bar> \<le> 1"
proof -
  have "msum (qty_on is_bid) (orders b) + msum (qty_on (Not \<circ> is_bid)) (orders b) = exposure (orders b)"
    by (auto simp: msum_def exposure_def qty_on_def simp flip: sum.distrib intro: sum.cong)
  then have "unat (total_bid_quantity b) + unat (total_ask_quantity b) < 2 ^ 64"
    using inv_parts(2,3) [OF assms(1)] assms(2)
    by (simp add: side_ok_def unat_of_nat_small)
  then show ?thesis unfolding e_imbalance_def by (rule imbalance_of_bounded)
qed

subsection \<open>Outside the preconditions\<close>

text \<open>
  Both preconditions of the refinement are needed. An order of quantity zero is accepted
  and is live, but the level it shares disappears when the other order there is deleted; and
  two orders whose quantities add up to \<open>2 ^ 64\<close> make the level size wrap to zero, so that
  deleting one of them erases the level of the other and leaves the total wrong.
\<close>
theorem levels_lost_outside_bounds:
  "(let b = ebook_run [Add 1 CHR ''B'' 100 0 1, Add 2 CHR ''B'' 100 5 2, Delete 2 3] (ebook_new ''A'')
    in orders b 1 \<noteq> None \<and> e_best_bid b = None) \<and>
   (let b = ebook_run [Add 1 CHR ''B'' 100 (2 ^ 63) 1, Add 2 CHR ''B'' 100 (2 ^ 63) 2, Delete 1 3]
              (ebook_new ''A'')
    in orders b 2 \<noteq> None \<and> e_best_bid b = None \<and> total_bid_quantity b = 0)"
  by (rule conjI; code_simp)

subsection \<open>Witnesses\<close>

definition sample_ops :: "order_op list" where
  "sample_ops =
     [Add 1 CHR ''B'' 1500000 100 1, Add 2 CHR ''S'' 1500100 200 2, Add 3 CHR ''B'' 1500000 50 3,
      Execute 1 40 4, Replace 3 4 70 1500200 5, Cancel 2 30 6]"

definition sample_ebook :: ebook where
  "sample_ebook = ebook_run sample_ops (ebook_new ''AAPL'')"

lemma sample_positive: "\<forall>op\<in>set sample_ops. adds_positive op"
  by (simp add: sample_ops_def)

lemma sample_introduced: "sum_list (map introduced sample_ops) < 2 ^ 64"
  by (simp add: sample_ops_def)

lemma sample_inv: "ebook_inv sample_ebook"
  using ebook_inv_run [OF ebook_inv_new sample_positive] sample_introduced
  by (simp add: sample_ebook_def ebook_new_def exposure_def)

theorem ebook_refines_orders_witness:
  "ebook_inv (ebook_run sample_ops (ebook_new ''AAPL'')) \<and>
   map_option quantity (fold (\<lambda>op m. snd (abs_step ''AAPL'' op m)) sample_ops Map.empty 1) = Some 60"
proof
  show "ebook_inv (ebook_run sample_ops (ebook_new ''AAPL''))"
    using ebook_refines_orders [OF sample_positive sample_introduced] by blast
  show "map_option quantity (fold (\<lambda>op m. snd (abs_step ''AAPL'' op m)) sample_ops Map.empty 1) = Some 60"
    by code_simp
qed

theorem best_quotes_of_orders_witness:
  "e_best_bid sample_ebook = Some 1500200 \<and> e_best_bid_size sample_ebook = Some 70 \<and>
   e_best_ask sample_ebook = Some 1500100 \<and>
   (\<exists>i x. orders sample_ebook i = Some x \<and> is_bid x \<and> o_price x = 1500200) \<and>
   (\<exists>i x. orders sample_ebook i = Some x \<and> \<not> is_bid x \<and> o_price x = 1500100)"
proof -
  have "e_best_bid sample_ebook = Some 1500200" "e_best_bid_size sample_ebook = Some 70"
      "e_best_ask sample_ebook = Some 1500100"
    by code_simp+
  then show ?thesis
    using best_quotes_of_orders [OF sample_inv, of 1500200 1500100] by blast
qed


theorem bid_depth_sorted_total_witness:
  "sorted_wrt (\<lambda>l k. price k <s price l) (get_bid_depth 1 sample_ebook) \<and>
   length (get_bid_depth 2 sample_ebook) = 2 \<and> unat (total_bid_quantity sample_ebook) = 130"
proof (intro conjI)
  show "sorted_wrt (\<lambda>l k. price k <s price l) (get_bid_depth 1 sample_ebook)"
    using bid_depth_sorted_total [OF sample_inv] by blast
qed code_simp+

theorem has_crossing_iff_orders_witness:
  "has_crossing sample_ebook \<and>
   (\<exists>i x j y. orders sample_ebook i = Some x \<and> is_bid x \<and> orders sample_ebook j = Some y \<and>
      \<not> is_bid y \<and> o_price y \<le>s o_price x)"
proof -
  have c: "has_crossing sample_ebook" by code_simp
  with has_crossing_iff_orders [OF sample_inv] show ?thesis by simp
qed

theorem failed_operation_effect_witness:
  "\<not> fst (ebook_step (Replace 1 2 5 6 7) sample_ebook) \<and>
   orders (snd (ebook_step (Replace 1 2 5 6 7) sample_ebook)) 1 = None \<and>
   orders sample_ebook 1 \<noteq> None"
proof -
  have f: "\<not> fst (ebook_step (Replace 1 2 5 6 7) sample_ebook)" and n: "orders sample_ebook 1 \<noteq> None"
    by code_simp+
  have "snd (ebook_step (Replace 1 2 5 6 7) sample_ebook) \<noteq> sample_ebook"
  proof
    assume "snd (ebook_step (Replace 1 2 5 6 7) sample_ebook) = sample_ebook"
    then have "orders (snd (ebook_step (Replace 1 2 5 6 7) sample_ebook)) 1 = orders sample_ebook 1" by simp
    moreover have "orders (snd (ebook_step (Replace 1 2 5 6 7) sample_ebook)) 1 = None" by code_simp
    ultimately show False using n by simp
  qed
  with failed_operation_effect [OF f] f n show ?thesis by auto
qed

theorem e_imbalance_bounded_witness: "\<bar>e_imbalance sample_ebook\<bar> \<le> 1"
proof (rule e_imbalance_bounded [OF sample_inv])
  show "exposure (orders sample_ebook) < 2 ^ 64"
    using ebook_exposure_run [OF ebook_inv_new sample_positive, of "''AAPL''"] sample_introduced
    unfolding sample_ebook_def by (simp add: ebook_new_def exposure_def)
qed

end
