(* ===== verification/Bytes.thy ===== *)
theory Bytes
  imports Prelude "HOL-Library.Monad_Syntax"
begin

text \<open>
  Byte buffers and the integers in them. The program runs on x86 (it uses \<open>rdtsc\<close>), so
  \<open>memcpy\<close> of a packed struct reads every field little-endian; the feed handlers of the
  network formats then swap the bytes. \<open>le\<close> and \<open>be\<close> are the two readings of a byte
  sequence. A read outside the buffer, which C++ leaves undefined, is the result \<open>None\<close> of
  \<open>rd\<close>: a parser that never yields it is memory safe.
\<close>

fun le :: "u8 list \<Rightarrow> 'n::len word" where
  "le [] = 0"
| "le (b # bs) = ucast b OR push_bit 8 (le bs)"

definition be :: "u8 list \<Rightarrow> 'n::len word" where
  "be bs = le (rev bs)"

fun le_bytes :: "nat \<Rightarrow> 'n::len word \<Rightarrow> u8 list" where
  "le_bytes 0 w = []"
| "le_bytes (Suc n) w = ucast w # le_bytes n (drop_bit 8 w)"

definition be_bytes :: "nat \<Rightarrow> 'n::len word \<Rightarrow> u8 list" where
  "be_bytes n w = rev (le_bytes n w)"

text \<open>Characters as bytes, and the loop that finds the end of a padded name.\<close>

abbreviation ch :: "char \<Rightarrow> u8" where
  "ch c \<equiv> of_char c"

definition char_of_u8 :: "u8 \<Rightarrow> char" where
  "char_of_u8 w = char_of (unat w)"

fun text_length :: "u8 list \<Rightarrow> nat" where
  "text_length [] = 0"
| "text_length (c # cs) = (if c = ch CHR '' '' \<or> c = 0 then 0 else Suc (text_length cs))"

lemma ch_eq_iff: "ch c = ch d \<longleftrightarrow> c = d"
proof -
  have "(of_nat (of_char c) :: u8) = of_nat (of_char d) \<longleftrightarrow> (of_char c :: nat) = of_char d"
    by (rule of_nat_eq_iff_small) (simp_all add: nat_of_char_less_256)
  moreover have "ch c = of_nat (of_char c)" for c by (simp add: of_char_def)
  ultimately show ?thesis by simp
qed

text \<open>\<open>n\<close> bytes at offset \<open>off\<close>: unchecked (inside a struct) and checked (in a buffer).\<close>

definition fld :: "u8 list \<Rightarrow> nat \<Rightarrow> nat \<Rightarrow> u8 list" where
  "fld s off n = take n (drop off s)"

definition rd :: "u8 list \<Rightarrow> nat \<Rightarrow> nat \<Rightarrow> u8 list option" where
  "rd buf off n = (if off + n \<le> length buf then Some (take n (drop off buf)) else None)"

subsection \<open>Reading back\<close>

lemma length_le_bytes [simp]: "length (le_bytes n w) = n"
  by (induction n arbitrary: w) simp_all

lemma length_be_bytes [simp]: "length (be_bytes n w) = n"
  by (simp add: be_bytes_def)

lemma bit_le:
  "bit (le bs :: 'n::len word) n \<longleftrightarrow>
     n < LENGTH('n) \<and> n div 8 < length bs \<and> bit (bs ! (n div 8)) (n mod 8)"
proof (induction bs arbitrary: n)
  case (Cons b bs)
  show ?case
  proof (cases "n < 8")
    case True
    then show ?thesis
      by (auto simp: bit_or_iff bit_push_bit_iff bit_ucast_iff)
  next
    case False
    then obtain m where n: "n = m + 8" by (metis add.commute le_iff_add not_less)
    have "(m + 8) div 8 = Suc (m div 8)" by simp
    with n show ?thesis
      using Cons.IH [of m]
      by (auto simp: bit_or_iff bit_push_bit_iff bit_ucast_iff dest: bit_imp_le_length)
  qed
qed simp

lemma le_le_bytes:
  fixes w :: "'n::len word"
  shows "le (le_bytes n w) = take_bit (8 * n) w"
proof (induction n arbitrary: w)
  case (Suc n)
  show ?case
    using Suc [of "drop_bit 8 w"]
    by (intro bit_word_eqI)
      (auto simp: bit_or_iff bit_push_bit_iff bit_ucast_iff bit_take_bit_iff bit_drop_bit_eq)
qed simp

lemma le_le_bytes_full:
  "LENGTH('n) \<le> 8 * n \<Longrightarrow> le (le_bytes n (w :: 'n::len word)) = w"
  by (simp add: le_le_bytes take_bit_word_eq_self)

lemma be_be_bytes_full:
  "LENGTH('n) \<le> 8 * n \<Longrightarrow> be (be_bytes n (w :: 'n::len word)) = w"
  by (simp add: be_def be_bytes_def le_le_bytes_full)

lemma rd_Some_iff: "rd buf off n = Some s \<longleftrightarrow> off + n \<le> length buf \<and> s = take n (drop off buf)"
  by (auto simp: rd_def)

lemma rd_ok [simp]: "off + n \<le> length buf \<Longrightarrow> rd buf off n = Some (take n (drop off buf))"
  by (simp add: rd_def)

lemma length_fld [simp]: "off + n \<le> length s \<Longrightarrow> length (fld s off n) = n"
  by (simp add: fld_def)

lemma fld_append:
  "fld (xs @ ys) off n =
     (if off + n \<le> length xs then fld xs off n
      else if length xs \<le> off then fld ys (off - length xs) n
      else drop off xs @ take (off + n - length xs) ys)"
  by (auto simp: fld_def add.commute)

lemma fld_all: "length xs \<le> n \<Longrightarrow> fld xs 0 n = xs"
  by (simp add: fld_def)

subsection \<open>Byte masks\<close>

text \<open>
  The swap functions of the source pick bytes with literal masks; \<open>byte_mask k\<close> is the mask
  of byte \<open>k\<close>, and a word is compared byte by byte.
\<close>

definition byte_mask :: "nat \<Rightarrow> 'n::len word" where
  "byte_mask k = push_bit (8 * k) (mask 8)"

lemma bit_byte_mask:
  "bit (byte_mask k :: 'n::len word) n \<longleftrightarrow> n < LENGTH('n) \<and> 8 * k \<le> n \<and> n < 8 * k + 8"
  by (auto simp: byte_mask_def bit_simps)

lemma byte_masks_16:
  "(0x00FF :: u16) = byte_mask 0" "(0xFF00 :: u16) = byte_mask 1"
  by (simp_all add: byte_mask_def mask_eq_exp_minus_1 push_bit_eq_mult)

lemma byte_masks_32:
  "(0x000000FF :: u32) = byte_mask 0" "(0x0000FF00 :: u32) = byte_mask 1"
  "(0x00FF0000 :: u32) = byte_mask 2" "(0xFF000000 :: u32) = byte_mask 3"
  by (simp_all add: byte_mask_def mask_eq_exp_minus_1 push_bit_eq_mult)

lemma byte_masks_64:
  "(0x00000000000000FF :: u64) = byte_mask 0" "(0x000000000000FF00 :: u64) = byte_mask 1"
  "(0x0000000000FF0000 :: u64) = byte_mask 2" "(0x00000000FF000000 :: u64) = byte_mask 3"
  "(0x000000FF00000000 :: u64) = byte_mask 4" "(0x0000FF0000000000 :: u64) = byte_mask 5"
  "(0x00FF000000000000 :: u64) = byte_mask 6" "(0xFF00000000000000 :: u64) = byte_mask 7"
  by (simp_all add: byte_mask_def mask_eq_exp_minus_1 push_bit_eq_mult)

lemmas byte_masks = byte_masks_16 byte_masks_32 byte_masks_64 bit_byte_mask

lemma bit_be:
  "bit (be bs :: 'n::len word) n \<longleftrightarrow>
     n < LENGTH('n) \<and> n div 8 < length bs \<and> bit (bs ! (length bs - 1 - n div 8)) (n mod 8)"
  by (auto simp: be_def bit_le rev_nth)

lemma byte_cases:
  assumes "n < 8 * k"
  obtains j r where "n = 8 * j + r" and "j < k" and "r < (8::nat)"
  using assms
  by (metis mod_less_divisor mult_div_mod_eq less_mult_imp_div_less mult.commute zero_less_numeral)

lemma byte_index:
  assumes "r < 8" and "8 dvd a"
  shows "(a + r) div 8 = a div (8::nat)" and "(a + r) mod 8 = r"
  using assms by (auto elim!: dvdE)

lemma word16_bytewise:
  assumes "\<And>r. r < 8 \<Longrightarrow> bit (v::u16) r = bit w r" and "\<And>r. r < 8 \<Longrightarrow> bit v (8 + r) = bit w (8 + r)"
  shows "v = w"
proof (rule bit_word_eqI)
  fix n assume "n < LENGTH(16)"
  then obtain j r where n: "n = 8 * j + r" "j < 2" "r < 8"
    by (rule_tac byte_cases [of n 2]) auto
  then have "j = 0 \<or> j = 1" by auto
  with n assms show "bit v n = bit w n" by auto
qed

lemma word32_bytewise:
  assumes "\<And>r j. r < 8 \<Longrightarrow> j \<in> {0, 8, 16, 24} \<Longrightarrow> bit (v::u32) (j + r) = bit w (j + r)"
  shows "v = w"
proof (rule bit_word_eqI)
  fix n assume "n < LENGTH(32)"
  then obtain j r where n: "n = 8 * j + r" "j < 4" "r < 8"
    by (rule_tac byte_cases [of n 4]) auto
  then have "8 * j \<in> {0, 8, 16, 24}" by auto
  with n assms show "bit v n = bit w n" by blast
qed

lemma word64_bytewise:
  assumes "\<And>r j. r < 8 \<Longrightarrow> j \<in> {0, 8, 16, 24, 32, 40, 48, 56} \<Longrightarrow>
    bit (v::u64) (j + r) = bit w (j + r)"
  shows "v = w"
proof (rule bit_word_eqI)
  fix n assume "n < LENGTH(64)"
  then obtain j r where n: "n = 8 * j + r" "j < 8" "r < 8"
    by (rule_tac byte_cases [of n 8]) auto
  then have "8 * j \<in> {0, 8, 16, 24, 32, 40, 48, 56}" by auto
  with n assms show "bit v n = bit w n" by blast
qed

end
