(* ===== verification/Framing.thy ===== *)
theory Framing
  imports Bytes
begin

text \<open>
  The client side of the two feed parsers. Every client of the program drives a parser the
  same way (\<open>demo_itch_processing\<close> in \<open>src/main.cpp\<close>, \<open>benchmark_message_parsing\<close> in
  \<open>src/benchmark.cpp\<close>):
  \<^verbatim>\<open>while (parser.has_more()) { auto msg = parser.parse_next(); if (msg) ... }\<close>
  \<open>drain\<close> is that loop over any parser; it may run forever, and then its value is \<open>None\<close>.
  The locale \<open>framed_parser\<close> is what the loop needs of a parser: where it stands in its
  buffer, that it reads an encoded message back, and that it stops only at the end.
\<close>

partial_function (option) drain ::
  "('p \<Rightarrow> ('m option \<times> 'p) option) \<Rightarrow> ('p \<Rightarrow> bool) \<Rightarrow> 'p \<Rightarrow> 'm list \<Rightarrow> 'm list option" where
  "drain parse more p acc =
     (if more p
      then (case parse p of
              None \<Rightarrow> None
            | Some (m, p') \<Rightarrow>
                drain parse more p' (case m of None \<Rightarrow> acc | Some x \<Rightarrow> acc @ [x]))
      else Some acc)"

text \<open>A parser that answers \<open>nullopt\<close> without moving, short of the end, is stuck for good.\<close>

lemma drain_stuck:
  assumes "more p" and "parse p = Some (None, p)"
  shows "drain parse more p acc = None"
proof (rule ccontr)
  assume "drain parse more p acc \<noteq> None"
  then obtain r where r: "drain parse more p acc = Some r" by blast
  have "parse' = parse \<longrightarrow> more' = more \<longrightarrow> q \<noteq> p" if "drain parse' more' q acc' = Some r'"
    for parse' more' q acc' r'
  proof (rule drain.raw_induct [where P = "\<lambda>f g q a r. f = parse \<longrightarrow> g = more \<longrightarrow> q \<noteq> p", OF _ that])
    fix D f g q a r
    assume IH: "\<And>f g q a r. D f g q a = Some r \<Longrightarrow> f = parse \<longrightarrow> g = more \<longrightarrow> q \<noteq> p"
      and eq: "(if g q
         then (case f q of None \<Rightarrow> None
               | Some (m, p') \<Rightarrow> D f g p' (case m of None \<Rightarrow> a | Some x \<Rightarrow> a @ [x]))
         else Some a) = Some r"
    show "f = parse \<longrightarrow> g = more \<longrightarrow> q \<noteq> p"
      using IH [of f g p] eq assms by auto
  qed
  with r show False by blast
qed

locale framed_parser =
  fixes parse :: "'p \<Rightarrow> ('m option \<times> 'p) option"
    and more :: "'p \<Rightarrow> bool"
    and at_offset :: "u8 list \<Rightarrow> nat \<Rightarrow> 'p"
    and encode :: "'m \<Rightarrow> u8 list"
    and valid :: "'m \<Rightarrow> bool"
  assumes parse_encoded: "valid m \<Longrightarrow>
      parse (at_offset (pre @ encode m @ post) (length pre)) =
        Some (Some m, at_offset (pre @ encode m @ post) (length pre + length (encode m)))"
    and more_iff: "more (at_offset buf off) \<longleftrightarrow> off < length buf"
    and encode_nonempty: "encode m \<noteq> []"
begin

lemma drain_from:
  assumes "\<forall>m\<in>set ms. valid m"
  shows "drain parse more (at_offset (pre @ concat (map encode ms)) (length pre)) acc = Some (acc @ ms)"
  using assms
proof (induction ms arbitrary: pre acc)
  case Nil
  then show ?case by (simp add: drain.simps more_iff)
next
  case (Cons m ms)
  let ?buf = "pre @ encode m @ concat (map encode ms)"
  have "more (at_offset ?buf (length pre))"
    using encode_nonempty [of m] by (cases "encode m") (simp_all add: more_iff)
  moreover have "parse (at_offset ?buf (length pre)) =
      Some (Some m, at_offset ?buf (length (pre @ encode m)))"
    using Cons.prems parse_encoded [of m pre "concat (map encode ms)"] by simp
  ultimately show ?case
    using Cons.IH [of "pre @ encode m" "acc @ [m]"] Cons.prems
    by (subst drain.simps) simp
qed

text \<open>A buffer of encoded messages is drained to exactly those messages, in order.\<close>

lemma drain_encoded:
  "\<forall>m\<in>set ms. valid m \<Longrightarrow>
   drain parse more (at_offset (concat (map encode ms)) 0) [] = Some ms"
  using drain_from [of ms "[]" "[]"] by simp

text \<open>Messages followed by a tail on which the parser is stuck make the loop run forever.\<close>

lemma drain_encoded_stuck:
  assumes "\<forall>m\<in>set ms. valid m" and "tail \<noteq> []"
    and "\<And>pre. parse (at_offset (pre @ tail) (length pre)) = Some (None, at_offset (pre @ tail) (length pre))"
  shows "drain parse more (at_offset (pre @ concat (map encode ms) @ tail) (length pre)) acc = None"
  using assms(1)
proof (induction ms arbitrary: pre acc)
  case Nil
  then show ?case using assms(2,3) by (simp add: drain_stuck more_iff)
next
  case (Cons m ms)
  let ?post = "concat (map encode ms) @ tail"
  let ?buf = "pre @ encode m @ ?post"
  have "more (at_offset ?buf (length pre))"
    using encode_nonempty [of m] by (cases "encode m") (simp_all add: more_iff)
  moreover have "parse (at_offset ?buf (length pre)) =
      Some (Some m, at_offset ?buf (length (pre @ encode m)))"
    using Cons.prems parse_encoded [of m pre ?post] by simp
  ultimately show ?case
    using Cons.IH [of "pre @ encode m" "acc @ [m]"] Cons.prems
    by (subst drain.simps) simp
qed

end

end
