(* ===== verification/Itch.thy ===== *)
theory Itch
  imports Framing Binary64
begin

text \<open>
  The NASDAQ ITCH parser: \<open>include/itch_parser.hpp\<close> and \<open>src/itch_parser.cpp\<close>. One record
  per packed struct, with the struct's fields in order (\<open>char\<close> arrays as byte lists),
  \<open>decode_*\<close> for the \<open>memcpy\<close> of the struct followed by the byte swaps of its \<open>case\<close>, and
  \<open>parse_next\<close> for the switch. Sizes and offsets (\<open>size_t\<close>) are natural numbers: a buffer is
  smaller than \<open>2 ^ 63\<close> bytes and a message shorter than \<open>2 ^ 16\<close>, so no sum wraps.
\<close>

definition swap_uint16 :: "u16 \<Rightarrow> u16" where
  "swap_uint16 v = push_bit 8 v OR drop_bit 8 v"

definition swap_uint32 :: "u32 \<Rightarrow> u32" where
  "swap_uint32 v =
     drop_bit 24 (v AND 0xFF000000) OR drop_bit 8 (v AND 0x00FF0000) OR
     push_bit 8 (v AND 0x0000FF00) OR push_bit 24 (v AND 0x000000FF)"

definition swap_uint64 :: "u64 \<Rightarrow> u64" where
  "swap_uint64 v =
     drop_bit 56 (v AND 0xFF00000000000000) OR drop_bit 40 (v AND 0x00FF000000000000) OR
     drop_bit 24 (v AND 0x0000FF0000000000) OR drop_bit 8 (v AND 0x000000FF00000000) OR
     push_bit 8 (v AND 0x00000000FF000000) OR push_bit 24 (v AND 0x0000000000FF0000) OR
     push_bit 40 (v AND 0x000000000000FF00) OR push_bit 56 (v AND 0x00000000000000FF)"

subsection \<open>The packed structs\<close>

record system_event =
  se_length :: u16
  se_type :: u8
  se_stock_locate :: u16
  se_tracking_number :: u16
  se_timestamp :: u64
  se_event_code :: u8

record stock_directory =
  sd_length :: u16
  sd_type :: u8
  sd_stock_locate :: u16
  sd_tracking_number :: u16
  sd_timestamp :: u64
  sd_stock :: "u8 list"
  sd_market_category :: u8
  sd_financial_status :: u8
  sd_round_lot_size :: u32
  sd_round_lots_only :: u8
  sd_issue_classification :: u8
  sd_issue_sub_type :: "u8 list"
  sd_authenticity :: u8
  sd_short_sale_threshold :: u8
  sd_ipo_flag :: u8
  sd_luld_reference_price_tier :: u8
  sd_etp_flag :: u8
  sd_etp_leverage_factor :: u32
  sd_inverse_indicator :: u8

record add_order_msg =
  ao_length :: u16
  ao_type :: u8
  ao_stock_locate :: u16
  ao_tracking_number :: u16
  ao_timestamp :: u64
  ao_order_reference :: u64
  ao_buy_sell :: u8
  ao_shares :: u32
  ao_stock :: "u8 list"
  ao_price :: u32

record add_order_mpid =
  am_length :: u16
  am_type :: u8
  am_stock_locate :: u16
  am_tracking_number :: u16
  am_timestamp :: u64
  am_order_reference :: u64
  am_buy_sell :: u8
  am_shares :: u32
  am_stock :: "u8 list"
  am_price :: u32
  am_attribution :: "u8 list"

record order_executed =
  oe_length :: u16
  oe_type :: u8
  oe_stock_locate :: u16
  oe_tracking_number :: u16
  oe_timestamp :: u64
  oe_order_reference :: u64
  oe_executed_shares :: u32
  oe_match_number :: u64

record order_executed_with_price =
  op_length :: u16
  op_type :: u8
  op_stock_locate :: u16
  op_tracking_number :: u16
  op_timestamp :: u64
  op_order_reference :: u64
  op_executed_shares :: u32
  op_match_number :: u64
  op_printable :: u8
  op_execution_price :: u32

record order_cancel =
  oc_length :: u16
  oc_type :: u8
  oc_stock_locate :: u16
  oc_tracking_number :: u16
  oc_timestamp :: u64
  oc_order_reference :: u64
  oc_cancelled_shares :: u32

record order_delete =
  od_length :: u16
  od_type :: u8
  od_stock_locate :: u16
  od_tracking_number :: u16
  od_timestamp :: u64
  od_order_reference :: u64

record order_replace =
  or_length :: u16
  or_type :: u8
  or_stock_locate :: u16
  or_tracking_number :: u16
  or_timestamp :: u64
  or_original_order_reference :: u64
  or_new_order_reference :: u64
  or_shares :: u32
  or_price :: u32

record trade_msg =
  tr_length :: u16
  tr_type :: u8
  tr_stock_locate :: u16
  tr_tracking_number :: u16
  tr_timestamp :: u64
  tr_order_reference :: u64
  tr_buy_sell :: u8
  tr_shares :: u32
  tr_stock :: "u8 list"
  tr_price :: u32
  tr_match_number :: u64

datatype itch_message =
    SystemEvent system_event
  | StockDirectory stock_directory
  | AddOrder add_order_msg
  | AddOrderMPID add_order_mpid
  | OrderExecuted order_executed
  | OrderExecutedWithPrice order_executed_with_price
  | OrderCancel order_cancel
  | OrderDelete order_delete
  | OrderReplace order_replace
  | Trade trade_msg

subsection \<open>Decoding: \<open>memcpy\<close> and byte swaps\<close>

definition sizeof_system_event :: nat where
  "sizeof_system_event = 16"

definition decode_system_event :: "u8 list \<Rightarrow> system_event" where
  "decode_system_event s =
     \<lparr>se_length = swap_uint16 (le (fld s 0 2)), se_type = hd (fld s 2 1),
      se_stock_locate = swap_uint16 (le (fld s 3 2)),
      se_tracking_number = swap_uint16 (le (fld s 5 2)),
      se_timestamp = swap_uint64 (le (fld s 7 8)), se_event_code = hd (fld s 15 1)\<rparr>"

definition sizeof_stock_directory :: nat where
  "sizeof_stock_directory = 43"

definition decode_stock_directory :: "u8 list \<Rightarrow> stock_directory" where
  "decode_stock_directory s =
     \<lparr>sd_length = swap_uint16 (le (fld s 0 2)), sd_type = hd (fld s 2 1),
      sd_stock_locate = swap_uint16 (le (fld s 3 2)),
      sd_tracking_number = swap_uint16 (le (fld s 5 2)),
      sd_timestamp = swap_uint64 (le (fld s 7 8)), sd_stock = fld s 15 8,
      sd_market_category = hd (fld s 23 1), sd_financial_status = hd (fld s 24 1),
      sd_round_lot_size = swap_uint32 (le (fld s 25 4)),
      sd_round_lots_only = hd (fld s 29 1), sd_issue_classification = hd (fld s 30 1),
      sd_issue_sub_type = fld s 31 2, sd_authenticity = hd (fld s 33 1),
      sd_short_sale_threshold = hd (fld s 34 1), sd_ipo_flag = hd (fld s 35 1),
      sd_luld_reference_price_tier = hd (fld s 36 1), sd_etp_flag = hd (fld s 37 1),
      sd_etp_leverage_factor = swap_uint32 (le (fld s 38 4)),
      sd_inverse_indicator = hd (fld s 42 1)\<rparr>"

definition sizeof_add_order_msg :: nat where
  "sizeof_add_order_msg = 40"

definition decode_add_order_msg :: "u8 list \<Rightarrow> add_order_msg" where
  "decode_add_order_msg s =
     \<lparr>ao_length = swap_uint16 (le (fld s 0 2)), ao_type = hd (fld s 2 1),
      ao_stock_locate = swap_uint16 (le (fld s 3 2)),
      ao_tracking_number = swap_uint16 (le (fld s 5 2)),
      ao_timestamp = swap_uint64 (le (fld s 7 8)),
      ao_order_reference = swap_uint64 (le (fld s 15 8)), ao_buy_sell = hd (fld s 23 1),
      ao_shares = swap_uint32 (le (fld s 24 4)), ao_stock = fld s 28 8,
      ao_price = swap_uint32 (le (fld s 36 4))\<rparr>"

definition sizeof_add_order_mpid :: nat where
  "sizeof_add_order_mpid = 44"

definition decode_add_order_mpid :: "u8 list \<Rightarrow> add_order_mpid" where
  "decode_add_order_mpid s =
     \<lparr>am_length = swap_uint16 (le (fld s 0 2)), am_type = hd (fld s 2 1),
      am_stock_locate = swap_uint16 (le (fld s 3 2)),
      am_tracking_number = swap_uint16 (le (fld s 5 2)),
      am_timestamp = swap_uint64 (le (fld s 7 8)),
      am_order_reference = swap_uint64 (le (fld s 15 8)), am_buy_sell = hd (fld s 23 1),
      am_shares = swap_uint32 (le (fld s 24 4)), am_stock = fld s 28 8,
      am_price = swap_uint32 (le (fld s 36 4)), am_attribution = fld s 40 4\<rparr>"

definition sizeof_order_executed :: nat where
  "sizeof_order_executed = 35"

definition decode_order_executed :: "u8 list \<Rightarrow> order_executed" where
  "decode_order_executed s =
     \<lparr>oe_length = swap_uint16 (le (fld s 0 2)), oe_type = hd (fld s 2 1),
      oe_stock_locate = swap_uint16 (le (fld s 3 2)),
      oe_tracking_number = swap_uint16 (le (fld s 5 2)),
      oe_timestamp = swap_uint64 (le (fld s 7 8)),
      oe_order_reference = swap_uint64 (le (fld s 15 8)),
      oe_executed_shares = swap_uint32 (le (fld s 23 4)),
      oe_match_number = swap_uint64 (le (fld s 27 8))\<rparr>"

definition sizeof_order_executed_with_price :: nat where
  "sizeof_order_executed_with_price = 40"

definition decode_order_executed_with_price :: "u8 list \<Rightarrow> order_executed_with_price" where
  "decode_order_executed_with_price s =
     \<lparr>op_length = swap_uint16 (le (fld s 0 2)), op_type = hd (fld s 2 1),
      op_stock_locate = swap_uint16 (le (fld s 3 2)),
      op_tracking_number = swap_uint16 (le (fld s 5 2)),
      op_timestamp = swap_uint64 (le (fld s 7 8)),
      op_order_reference = swap_uint64 (le (fld s 15 8)),
      op_executed_shares = swap_uint32 (le (fld s 23 4)),
      op_match_number = swap_uint64 (le (fld s 27 8)), op_printable = hd (fld s 35 1),
      op_execution_price = swap_uint32 (le (fld s 36 4))\<rparr>"

definition sizeof_order_cancel :: nat where
  "sizeof_order_cancel = 27"

definition decode_order_cancel :: "u8 list \<Rightarrow> order_cancel" where
  "decode_order_cancel s =
     \<lparr>oc_length = swap_uint16 (le (fld s 0 2)), oc_type = hd (fld s 2 1),
      oc_stock_locate = swap_uint16 (le (fld s 3 2)),
      oc_tracking_number = swap_uint16 (le (fld s 5 2)),
      oc_timestamp = swap_uint64 (le (fld s 7 8)),
      oc_order_reference = swap_uint64 (le (fld s 15 8)),
      oc_cancelled_shares = swap_uint32 (le (fld s 23 4))\<rparr>"

definition sizeof_order_delete :: nat where
  "sizeof_order_delete = 23"

definition decode_order_delete :: "u8 list \<Rightarrow> order_delete" where
  "decode_order_delete s =
     \<lparr>od_length = swap_uint16 (le (fld s 0 2)), od_type = hd (fld s 2 1),
      od_stock_locate = swap_uint16 (le (fld s 3 2)),
      od_tracking_number = swap_uint16 (le (fld s 5 2)),
      od_timestamp = swap_uint64 (le (fld s 7 8)),
      od_order_reference = swap_uint64 (le (fld s 15 8))\<rparr>"

definition sizeof_order_replace :: nat where
  "sizeof_order_replace = 39"

definition decode_order_replace :: "u8 list \<Rightarrow> order_replace" where
  "decode_order_replace s =
     \<lparr>or_length = swap_uint16 (le (fld s 0 2)), or_type = hd (fld s 2 1),
      or_stock_locate = swap_uint16 (le (fld s 3 2)),
      or_tracking_number = swap_uint16 (le (fld s 5 2)),
      or_timestamp = swap_uint64 (le (fld s 7 8)),
      or_original_order_reference = swap_uint64 (le (fld s 15 8)),
      or_new_order_reference = swap_uint64 (le (fld s 23 8)),
      or_shares = swap_uint32 (le (fld s 31 4)),
      or_price = swap_uint32 (le (fld s 35 4))\<rparr>"

definition sizeof_trade_msg :: nat where
  "sizeof_trade_msg = 48"

definition decode_trade_msg :: "u8 list \<Rightarrow> trade_msg" where
  "decode_trade_msg s =
     \<lparr>tr_length = swap_uint16 (le (fld s 0 2)), tr_type = hd (fld s 2 1),
      tr_stock_locate = swap_uint16 (le (fld s 3 2)),
      tr_tracking_number = swap_uint16 (le (fld s 5 2)),
      tr_timestamp = swap_uint64 (le (fld s 7 8)),
      tr_order_reference = swap_uint64 (le (fld s 15 8)), tr_buy_sell = hd (fld s 23 1),
      tr_shares = swap_uint32 (le (fld s 24 4)), tr_stock = fld s 28 8,
      tr_price = swap_uint32 (le (fld s 36 4)),
      tr_match_number = swap_uint64 (le (fld s 40 8))\<rparr>"

subsection \<open>The parser\<close>

record parser =
  buffer :: "u8 list"
  offset :: nat

definition parser_at :: "u8 list \<Rightarrow> nat \<Rightarrow> parser" where
  "parser_at b k = \<lparr>buffer = b, offset = k\<rparr>"

definition parser_new :: "u8 list \<Rightarrow> parser" where
  "parser_new b = parser_at b 0"

text \<open>The cases of the switch: the struct's size and its decoding.\<close>

definition dispatch :: "u8 \<Rightarrow> (nat \<times> (u8 list \<Rightarrow> itch_message)) option" where
  "dispatch t =
     (if t = ch CHR ''S'' then Some (sizeof_system_event, SystemEvent \<circ> decode_system_event)
      else if t = ch CHR ''R'' then Some (sizeof_stock_directory, StockDirectory \<circ> decode_stock_directory)
      else if t = ch CHR ''A'' then Some (sizeof_add_order_msg, AddOrder \<circ> decode_add_order_msg)
      else if t = ch CHR ''F'' then Some (sizeof_add_order_mpid, AddOrderMPID \<circ> decode_add_order_mpid)
      else if t = ch CHR ''E'' then Some (sizeof_order_executed, OrderExecuted \<circ> decode_order_executed)
      else if t = ch CHR ''C'' then Some (sizeof_order_executed_with_price, OrderExecutedWithPrice \<circ> decode_order_executed_with_price)
      else if t = ch CHR ''X'' then Some (sizeof_order_cancel, OrderCancel \<circ> decode_order_cancel)
      else if t = ch CHR ''D'' then Some (sizeof_order_delete, OrderDelete \<circ> decode_order_delete)
      else if t = ch CHR ''U'' then Some (sizeof_order_replace, OrderReplace \<circ> decode_order_replace)
      else if t = ch CHR ''P'' then Some (sizeof_trade_msg, Trade \<circ> decode_trade_msg)
      else None)"

text \<open>
  The outer \<open>option\<close> is a read outside the buffer; inside it stand the returned
  \<open>std::optional<Message>\<close> and the parser after the call.
\<close>

definition parse_next :: "parser \<Rightarrow> (itch_message option \<times> parser) option" where
  "parse_next p =
     (if length (buffer p) < offset p + 3 then Some (None, p)
      else do {
        l \<leftarrow> rd (buffer p) (offset p) 2;
        t \<leftarrow> rd (buffer p) (offset p + 2) 1;
        let msg_length = unat (swap_uint16 (le l));
        if length (buffer p) < offset p + msg_length then Some (None, p)
        else do {
          result \<leftarrow>
            (case dispatch (hd t) of
               None \<Rightarrow> Some None
             | Some (n, decode) \<Rightarrow>
                 (if n \<le> msg_length
                  then do { s \<leftarrow> rd (buffer p) (offset p) n; Some (Some (decode s)) }
                  else Some None));
          Some (result, p\<lparr>offset := offset p + msg_length\<rparr>)
        }
      })"

definition has_more :: "parser \<Rightarrow> bool" where
  "has_more p \<longleftrightarrow> offset p < length (buffer p)"

definition parser_reset :: "parser \<Rightarrow> parser" where
  "parser_reset p = p\<lparr>offset := 0\<rparr>"

definition position :: "parser \<Rightarrow> nat" where
  "position p = offset p"

text \<open>\<open>stock_to_string\<close>: the bytes up to the first blank or NUL, at most eight.\<close>

definition stock_to_string :: "u8 list \<Rightarrow> string" where
  "stock_to_string s = map char_of_u8 (take (text_length (take 8 s)) s)"

definition price_to_double :: "u32 \<Rightarrow> double" where
  "price_to_double p = fl (of_u32 p / 10000)"

subsection \<open>The wire format\<close>

text \<open>
  The format the parser is for: every integer big-endian, the length field counting the
  whole message. The encoding is the reference the parser is compared with; the program
  itself encodes add-order messages only (\<open>Feed_Demo\<close>).
\<close>

definition encode_system_event :: "system_event \<Rightarrow> u8 list" where
  "encode_system_event m =
     be_bytes 2 (se_length m) @ [se_type m] @ be_bytes 2 (se_stock_locate m) @
     be_bytes 2 (se_tracking_number m) @ be_bytes 8 (se_timestamp m) @ [se_event_code m]"

definition valid_system_event :: "system_event \<Rightarrow> bool" where
  "valid_system_event m \<longleftrightarrow> se_length m = of_nat sizeof_system_event \<and> se_type m = ch CHR ''S''"

definition encode_stock_directory :: "stock_directory \<Rightarrow> u8 list" where
  "encode_stock_directory m =
     be_bytes 2 (sd_length m) @ [sd_type m] @ be_bytes 2 (sd_stock_locate m) @
     be_bytes 2 (sd_tracking_number m) @ be_bytes 8 (sd_timestamp m) @ sd_stock m @
     [sd_market_category m] @ [sd_financial_status m] @
     be_bytes 4 (sd_round_lot_size m) @ [sd_round_lots_only m] @
     [sd_issue_classification m] @ sd_issue_sub_type m @ [sd_authenticity m] @
     [sd_short_sale_threshold m] @ [sd_ipo_flag m] @ [sd_luld_reference_price_tier m] @
     [sd_etp_flag m] @ be_bytes 4 (sd_etp_leverage_factor m) @ [sd_inverse_indicator m]"

definition valid_stock_directory :: "stock_directory \<Rightarrow> bool" where
  "valid_stock_directory m \<longleftrightarrow> sd_length m = of_nat sizeof_stock_directory \<and> sd_type m = ch CHR ''R'' \<and> length (sd_stock m) = 8 \<and> length (sd_issue_sub_type m) = 2"

definition encode_add_order_msg :: "add_order_msg \<Rightarrow> u8 list" where
  "encode_add_order_msg m =
     be_bytes 2 (ao_length m) @ [ao_type m] @ be_bytes 2 (ao_stock_locate m) @
     be_bytes 2 (ao_tracking_number m) @ be_bytes 8 (ao_timestamp m) @
     be_bytes 8 (ao_order_reference m) @ [ao_buy_sell m] @ be_bytes 4 (ao_shares m) @
     ao_stock m @ be_bytes 4 (ao_price m)"

definition valid_add_order_msg :: "add_order_msg \<Rightarrow> bool" where
  "valid_add_order_msg m \<longleftrightarrow> ao_length m = of_nat sizeof_add_order_msg \<and> ao_type m = ch CHR ''A'' \<and> length (ao_stock m) = 8"

definition encode_add_order_mpid :: "add_order_mpid \<Rightarrow> u8 list" where
  "encode_add_order_mpid m =
     be_bytes 2 (am_length m) @ [am_type m] @ be_bytes 2 (am_stock_locate m) @
     be_bytes 2 (am_tracking_number m) @ be_bytes 8 (am_timestamp m) @
     be_bytes 8 (am_order_reference m) @ [am_buy_sell m] @ be_bytes 4 (am_shares m) @
     am_stock m @ be_bytes 4 (am_price m) @ am_attribution m"

definition valid_add_order_mpid :: "add_order_mpid \<Rightarrow> bool" where
  "valid_add_order_mpid m \<longleftrightarrow> am_length m = of_nat sizeof_add_order_mpid \<and> am_type m = ch CHR ''F'' \<and> length (am_stock m) = 8 \<and> length (am_attribution m) = 4"

definition encode_order_executed :: "order_executed \<Rightarrow> u8 list" where
  "encode_order_executed m =
     be_bytes 2 (oe_length m) @ [oe_type m] @ be_bytes 2 (oe_stock_locate m) @
     be_bytes 2 (oe_tracking_number m) @ be_bytes 8 (oe_timestamp m) @
     be_bytes 8 (oe_order_reference m) @ be_bytes 4 (oe_executed_shares m) @
     be_bytes 8 (oe_match_number m)"

definition valid_order_executed :: "order_executed \<Rightarrow> bool" where
  "valid_order_executed m \<longleftrightarrow> oe_length m = of_nat sizeof_order_executed \<and> oe_type m = ch CHR ''E''"

definition encode_order_executed_with_price :: "order_executed_with_price \<Rightarrow> u8 list" where
  "encode_order_executed_with_price m =
     be_bytes 2 (op_length m) @ [op_type m] @ be_bytes 2 (op_stock_locate m) @
     be_bytes 2 (op_tracking_number m) @ be_bytes 8 (op_timestamp m) @
     be_bytes 8 (op_order_reference m) @ be_bytes 4 (op_executed_shares m) @
     be_bytes 8 (op_match_number m) @ [op_printable m] @
     be_bytes 4 (op_execution_price m)"

definition valid_order_executed_with_price :: "order_executed_with_price \<Rightarrow> bool" where
  "valid_order_executed_with_price m \<longleftrightarrow> op_length m = of_nat sizeof_order_executed_with_price \<and> op_type m = ch CHR ''C''"

definition encode_order_cancel :: "order_cancel \<Rightarrow> u8 list" where
  "encode_order_cancel m =
     be_bytes 2 (oc_length m) @ [oc_type m] @ be_bytes 2 (oc_stock_locate m) @
     be_bytes 2 (oc_tracking_number m) @ be_bytes 8 (oc_timestamp m) @
     be_bytes 8 (oc_order_reference m) @ be_bytes 4 (oc_cancelled_shares m)"

definition valid_order_cancel :: "order_cancel \<Rightarrow> bool" where
  "valid_order_cancel m \<longleftrightarrow> oc_length m = of_nat sizeof_order_cancel \<and> oc_type m = ch CHR ''X''"

definition encode_order_delete :: "order_delete \<Rightarrow> u8 list" where
  "encode_order_delete m =
     be_bytes 2 (od_length m) @ [od_type m] @ be_bytes 2 (od_stock_locate m) @
     be_bytes 2 (od_tracking_number m) @ be_bytes 8 (od_timestamp m) @
     be_bytes 8 (od_order_reference m)"

definition valid_order_delete :: "order_delete \<Rightarrow> bool" where
  "valid_order_delete m \<longleftrightarrow> od_length m = of_nat sizeof_order_delete \<and> od_type m = ch CHR ''D''"

definition encode_order_replace :: "order_replace \<Rightarrow> u8 list" where
  "encode_order_replace m =
     be_bytes 2 (or_length m) @ [or_type m] @ be_bytes 2 (or_stock_locate m) @
     be_bytes 2 (or_tracking_number m) @ be_bytes 8 (or_timestamp m) @
     be_bytes 8 (or_original_order_reference m) @
     be_bytes 8 (or_new_order_reference m) @ be_bytes 4 (or_shares m) @
     be_bytes 4 (or_price m)"

definition valid_order_replace :: "order_replace \<Rightarrow> bool" where
  "valid_order_replace m \<longleftrightarrow> or_length m = of_nat sizeof_order_replace \<and> or_type m = ch CHR ''U''"

definition encode_trade_msg :: "trade_msg \<Rightarrow> u8 list" where
  "encode_trade_msg m =
     be_bytes 2 (tr_length m) @ [tr_type m] @ be_bytes 2 (tr_stock_locate m) @
     be_bytes 2 (tr_tracking_number m) @ be_bytes 8 (tr_timestamp m) @
     be_bytes 8 (tr_order_reference m) @ [tr_buy_sell m] @ be_bytes 4 (tr_shares m) @
     tr_stock m @ be_bytes 4 (tr_price m) @ be_bytes 8 (tr_match_number m)"

definition valid_trade_msg :: "trade_msg \<Rightarrow> bool" where
  "valid_trade_msg m \<longleftrightarrow> tr_length m = of_nat sizeof_trade_msg \<and> tr_type m = ch CHR ''P'' \<and> length (tr_stock m) = 8"

fun encode_message :: "itch_message \<Rightarrow> u8 list" where
  "encode_message (SystemEvent m) = encode_system_event m"
| "encode_message (StockDirectory m) = encode_stock_directory m"
| "encode_message (AddOrder m) = encode_add_order_msg m"
| "encode_message (AddOrderMPID m) = encode_add_order_mpid m"
| "encode_message (OrderExecuted m) = encode_order_executed m"
| "encode_message (OrderExecutedWithPrice m) = encode_order_executed_with_price m"
| "encode_message (OrderCancel m) = encode_order_cancel m"
| "encode_message (OrderDelete m) = encode_order_delete m"
| "encode_message (OrderReplace m) = encode_order_replace m"
| "encode_message (Trade m) = encode_trade_msg m"

fun valid_message :: "itch_message \<Rightarrow> bool" where
  "valid_message (SystemEvent m) \<longleftrightarrow> valid_system_event m"
| "valid_message (StockDirectory m) \<longleftrightarrow> valid_stock_directory m"
| "valid_message (AddOrder m) \<longleftrightarrow> valid_add_order_msg m"
| "valid_message (AddOrderMPID m) \<longleftrightarrow> valid_add_order_mpid m"
| "valid_message (OrderExecuted m) \<longleftrightarrow> valid_order_executed m"
| "valid_message (OrderExecutedWithPrice m) \<longleftrightarrow> valid_order_executed_with_price m"
| "valid_message (OrderCancel m) \<longleftrightarrow> valid_order_cancel m"
| "valid_message (OrderDelete m) \<longleftrightarrow> valid_order_delete m"
| "valid_message (OrderReplace m) \<longleftrightarrow> valid_order_replace m"
| "valid_message (Trade m) \<longleftrightarrow> valid_trade_msg m"

subsection \<open>Byte swaps\<close>

text \<open>A swap turns the little-endian reading of a field into the big-endian one.\<close>

lemma swap16_be: "length s = 2 \<Longrightarrow> swap_uint16 (le s) = be s"
  by (rule word16_bytewise)
    (simp_all add: swap_uint16_def byte_index bit_be bit_le bit_simps)

lemma swap32_be: "length s = 4 \<Longrightarrow> swap_uint32 (le s) = be s"
  by (rule word32_bytewise, simp only: insert_iff empty_iff simp_thms, elim disjE)
    (simp_all add: swap_uint32_def byte_index byte_masks bit_be bit_le bit_simps)

lemma swap64_be: "length s = 8 \<Longrightarrow> swap_uint64 (le s) = be s"
  by (rule word64_bytewise, simp only: insert_iff empty_iff simp_thms, elim disjE)
    (simp_all add: swap_uint64_def byte_index byte_masks bit_be bit_le bit_simps)

lemmas swap_be = swap16_be swap32_be swap64_be

lemmas codec_defs = swap_be be_be_bytes_full fld_def

subsection \<open>Reading a message back\<close>

lemma roundtrip_system_event:
  assumes "valid_system_event m"
  shows "decode_system_event (encode_system_event m) = m"
    and "length (encode_system_event m) = sizeof_system_event"
    and "take 2 (encode_system_event m) = be_bytes 2 (of_nat sizeof_system_event :: u16)"
    and "take 1 (drop 2 (encode_system_event m)) = [ch CHR ''S'']"
  using assms
  by (cases m; simp add: codec_defs decode_system_event_def encode_system_event_def
      valid_system_event_def sizeof_system_event_def)+

lemma roundtrip_stock_directory:
  assumes "valid_stock_directory m"
  shows "decode_stock_directory (encode_stock_directory m) = m"
    and "length (encode_stock_directory m) = sizeof_stock_directory"
    and "take 2 (encode_stock_directory m) = be_bytes 2 (of_nat sizeof_stock_directory :: u16)"
    and "take 1 (drop 2 (encode_stock_directory m)) = [ch CHR ''R'']"
  using assms
  by (cases m; simp add: codec_defs decode_stock_directory_def encode_stock_directory_def
      valid_stock_directory_def sizeof_stock_directory_def)+

lemma roundtrip_add_order_msg:
  assumes "valid_add_order_msg m"
  shows "decode_add_order_msg (encode_add_order_msg m) = m"
    and "length (encode_add_order_msg m) = sizeof_add_order_msg"
    and "take 2 (encode_add_order_msg m) = be_bytes 2 (of_nat sizeof_add_order_msg :: u16)"
    and "take 1 (drop 2 (encode_add_order_msg m)) = [ch CHR ''A'']"
  using assms
  by (cases m; simp add: codec_defs decode_add_order_msg_def encode_add_order_msg_def
      valid_add_order_msg_def sizeof_add_order_msg_def)+

lemma roundtrip_add_order_mpid:
  assumes "valid_add_order_mpid m"
  shows "decode_add_order_mpid (encode_add_order_mpid m) = m"
    and "length (encode_add_order_mpid m) = sizeof_add_order_mpid"
    and "take 2 (encode_add_order_mpid m) = be_bytes 2 (of_nat sizeof_add_order_mpid :: u16)"
    and "take 1 (drop 2 (encode_add_order_mpid m)) = [ch CHR ''F'']"
  using assms
  by (cases m; simp add: codec_defs decode_add_order_mpid_def encode_add_order_mpid_def
      valid_add_order_mpid_def sizeof_add_order_mpid_def)+

lemma roundtrip_order_executed:
  assumes "valid_order_executed m"
  shows "decode_order_executed (encode_order_executed m) = m"
    and "length (encode_order_executed m) = sizeof_order_executed"
    and "take 2 (encode_order_executed m) = be_bytes 2 (of_nat sizeof_order_executed :: u16)"
    and "take 1 (drop 2 (encode_order_executed m)) = [ch CHR ''E'']"
  using assms
  by (cases m; simp add: codec_defs decode_order_executed_def encode_order_executed_def
      valid_order_executed_def sizeof_order_executed_def)+

lemma roundtrip_order_executed_with_price:
  assumes "valid_order_executed_with_price m"
  shows "decode_order_executed_with_price (encode_order_executed_with_price m) = m"
    and "length (encode_order_executed_with_price m) = sizeof_order_executed_with_price"
    and "take 2 (encode_order_executed_with_price m) = be_bytes 2 (of_nat sizeof_order_executed_with_price :: u16)"
    and "take 1 (drop 2 (encode_order_executed_with_price m)) = [ch CHR ''C'']"
  using assms
  by (cases m; simp add: codec_defs decode_order_executed_with_price_def encode_order_executed_with_price_def
      valid_order_executed_with_price_def sizeof_order_executed_with_price_def)+

lemma roundtrip_order_cancel:
  assumes "valid_order_cancel m"
  shows "decode_order_cancel (encode_order_cancel m) = m"
    and "length (encode_order_cancel m) = sizeof_order_cancel"
    and "take 2 (encode_order_cancel m) = be_bytes 2 (of_nat sizeof_order_cancel :: u16)"
    and "take 1 (drop 2 (encode_order_cancel m)) = [ch CHR ''X'']"
  using assms
  by (cases m; simp add: codec_defs decode_order_cancel_def encode_order_cancel_def
      valid_order_cancel_def sizeof_order_cancel_def)+

lemma roundtrip_order_delete:
  assumes "valid_order_delete m"
  shows "decode_order_delete (encode_order_delete m) = m"
    and "length (encode_order_delete m) = sizeof_order_delete"
    and "take 2 (encode_order_delete m) = be_bytes 2 (of_nat sizeof_order_delete :: u16)"
    and "take 1 (drop 2 (encode_order_delete m)) = [ch CHR ''D'']"
  using assms
  by (cases m; simp add: codec_defs decode_order_delete_def encode_order_delete_def
      valid_order_delete_def sizeof_order_delete_def)+

lemma roundtrip_order_replace:
  assumes "valid_order_replace m"
  shows "decode_order_replace (encode_order_replace m) = m"
    and "length (encode_order_replace m) = sizeof_order_replace"
    and "take 2 (encode_order_replace m) = be_bytes 2 (of_nat sizeof_order_replace :: u16)"
    and "take 1 (drop 2 (encode_order_replace m)) = [ch CHR ''U'']"
  using assms
  by (cases m; simp add: codec_defs decode_order_replace_def encode_order_replace_def
      valid_order_replace_def sizeof_order_replace_def)+

lemma roundtrip_trade_msg:
  assumes "valid_trade_msg m"
  shows "decode_trade_msg (encode_trade_msg m) = m"
    and "length (encode_trade_msg m) = sizeof_trade_msg"
    and "take 2 (encode_trade_msg m) = be_bytes 2 (of_nat sizeof_trade_msg :: u16)"
    and "take 1 (drop 2 (encode_trade_msg m)) = [ch CHR ''P'']"
  using assms
  by (cases m; simp add: codec_defs decode_trade_msg_def encode_trade_msg_def
      valid_trade_msg_def sizeof_trade_msg_def)+

lemmas sizeof_defs =
  sizeof_system_event_def
  sizeof_stock_directory_def
  sizeof_add_order_msg_def
  sizeof_add_order_mpid_def
  sizeof_order_executed_def
  sizeof_order_executed_with_price_def
  sizeof_order_cancel_def
  sizeof_order_delete_def
  sizeof_order_replace_def
  sizeof_trade_msg_def

lemmas encode_defs =
  encode_system_event_def
  encode_stock_directory_def
  encode_add_order_msg_def
  encode_add_order_mpid_def
  encode_order_executed_def
  encode_order_executed_with_price_def
  encode_order_cancel_def
  encode_order_delete_def
  encode_order_replace_def
  encode_trade_msg_def

lemmas roundtrips =
  roundtrip_system_event
  roundtrip_stock_directory
  roundtrip_add_order_msg
  roundtrip_add_order_mpid
  roundtrip_order_executed
  roundtrip_order_executed_with_price
  roundtrip_order_cancel
  roundtrip_order_delete
  roundtrip_order_replace
  roundtrip_trade_msg

subsection \<open>What one call does\<close>

definition frame_length :: "parser \<Rightarrow> nat" where
  "frame_length p = unat (be (take 2 (drop (offset p) (buffer p))) :: u16)"

definition frame_complete :: "parser \<Rightarrow> bool" where
  "frame_complete p \<longleftrightarrow> offset p + 3 \<le> length (buffer p) \<and>
     offset p + frame_length p \<le> length (buffer p)"

definition frame_message :: "parser \<Rightarrow> itch_message option" where
  "frame_message p =
     (case dispatch (buffer p ! (offset p + 2)) of
        Some (n, decode) \<Rightarrow>
          (if n \<le> frame_length p then Some (decode (take n (drop (offset p) (buffer p)))) else None)
      | None \<Rightarrow> None)"

lemma parse_next_eq:
  "parse_next p =
     Some (if frame_complete p
           then (frame_message p, p\<lparr>offset := offset p + frame_length p\<rparr>) else (None, p))"
proof (cases "offset p + 3 \<le> length (buffer p)")
  case False
  then show ?thesis by (simp add: parse_next_def frame_complete_def)
next
  case True
  have two: "length (take 2 (drop (offset p) (buffer p))) = 2" using True by simp
  have len: "unat (swap_uint16 (le (take 2 (drop (offset p) (buffer p))))) = frame_length p"
    by (simp add: swap16_be [OF two] frame_length_def)
  have ty: "hd (drop (Suc (Suc (offset p))) (buffer p)) = buffer p ! Suc (Suc (offset p))"
    using True by (simp add: hd_drop_conv_nth)
  show ?thesis
    using True
    by (auto simp: parse_next_def len ty frame_complete_def frame_message_def Let_def
        split: option.split)
qed

lemma frame_message_empty: "frame_length p = 0 \<Longrightarrow> frame_message p = None"
  by (simp add: frame_message_def dispatch_def sizeof_defs split: option.split)

lemma parse_next_stuck:
  "\<not> frame_complete p \<or> frame_length p = 0 \<Longrightarrow> parse_next p = Some (None, p)"
  by (auto simp: parse_next_eq frame_message_empty)

text \<open>
  C27. Memory safety and bounds: no call of \<open>parse_next\<close> reads outside the buffer, whatever the
  bytes are; the offset never moves back and never passes the end of the buffer.
\<close>
theorem itch_parse_safe:
  "\<exists>m p'. parse_next p = Some (m, p') \<and> buffer p' = buffer p \<and> offset p \<le> offset p' \<and>
     offset p' \<le> max (offset p) (length (buffer p))"
  by (simp add: parse_next_eq frame_complete_def)

text \<open>
  Progress: a call leaves the parser where it was exactly when fewer than three bytes are
  left, when the declared length runs past the end, or when the declared length is zero; then
  it also returns no message. Every other call advances by the declared length.
\<close>
theorem itch_parse_progress:
  assumes "parse_next p = Some (m, p')"
  shows "(offset p' = offset p \<longleftrightarrow>
      length (buffer p) < offset p + 3 \<or> length (buffer p) < offset p + frame_length p \<or>
      frame_length p = 0) \<and>
    (offset p' = offset p \<longrightarrow> m = None \<and> p' = p) \<and>
    (offset p' \<noteq> offset p \<longrightarrow> offset p' = offset p + frame_length p)"
  using assms frame_message_empty [of p]
  by (auto simp: parse_next_eq frame_complete_def split: if_splits)

subsection \<open>Encoded messages\<close>

lemma dispatch_of:
  "dispatch (ch CHR ''S'') = Some (sizeof_system_event, SystemEvent \<circ> decode_system_event)"
  "dispatch (ch CHR ''R'') = Some (sizeof_stock_directory, StockDirectory \<circ> decode_stock_directory)"
  "dispatch (ch CHR ''A'') = Some (sizeof_add_order_msg, AddOrder \<circ> decode_add_order_msg)"
  "dispatch (ch CHR ''F'') = Some (sizeof_add_order_mpid, AddOrderMPID \<circ> decode_add_order_mpid)"
  "dispatch (ch CHR ''E'') = Some (sizeof_order_executed, OrderExecuted \<circ> decode_order_executed)"
  "dispatch (ch CHR ''C'') = Some (sizeof_order_executed_with_price, OrderExecutedWithPrice \<circ> decode_order_executed_with_price)"
  "dispatch (ch CHR ''X'') = Some (sizeof_order_cancel, OrderCancel \<circ> decode_order_cancel)"
  "dispatch (ch CHR ''D'') = Some (sizeof_order_delete, OrderDelete \<circ> decode_order_delete)"
  "dispatch (ch CHR ''U'') = Some (sizeof_order_replace, OrderReplace \<circ> decode_order_replace)"
  "dispatch (ch CHR ''P'') = Some (sizeof_trade_msg, Trade \<circ> decode_trade_msg)"
  by (simp_all add: dispatch_def)

definition frames :: "u8 list \<Rightarrow> itch_message \<Rightarrow> bool" where
  "frames e m \<longleftrightarrow> (\<exists>decode. dispatch (e ! 2) = Some (length e, decode) \<and> decode e = m \<and>
     3 \<le> length e \<and> length e < 2 ^ 16 \<and> take 2 e = be_bytes 2 (of_nat (length e) :: u16))"

lemma framesI:
  assumes "length e = n" and "take 2 e = be_bytes 2 (of_nat n :: u16)" and "take 1 (drop 2 e) = [t]"
    and "dispatch t = Some (n, decode)" and "decode e = m" and "3 \<le> n" and "n < 2 ^ 16"
  shows "frames e m"
proof -
  have "e ! 2 = t"
    using assms(1,3,6) by (metis drop_eq_Nil hd_drop_conv_nth hd_take list.sel(1) not_less
        less_le_trans numeral_2_eq_2 numeral_3_eq_3 lessI zero_less_one)
  with assms show ?thesis by (auto simp: frames_def)
qed

lemma encode_message_frame:
  assumes "valid_message m"
  shows "frames (encode_message m) m"
  using assms
proof (cases m)
  case (SystemEvent x)
  with assms show ?thesis
    using roundtrip_system_event [of x] framesI [OF _ _ _ dispatch_of(1)] by (simp add: sizeof_system_event_def)
next
  case (StockDirectory x)
  with assms show ?thesis
    using roundtrip_stock_directory [of x] framesI [OF _ _ _ dispatch_of(2)] by (simp add: sizeof_stock_directory_def)
next
  case (AddOrder x)
  with assms show ?thesis
    using roundtrip_add_order_msg [of x] framesI [OF _ _ _ dispatch_of(3)] by (simp add: sizeof_add_order_msg_def)
next
  case (AddOrderMPID x)
  with assms show ?thesis
    using roundtrip_add_order_mpid [of x] framesI [OF _ _ _ dispatch_of(4)] by (simp add: sizeof_add_order_mpid_def)
next
  case (OrderExecuted x)
  with assms show ?thesis
    using roundtrip_order_executed [of x] framesI [OF _ _ _ dispatch_of(5)] by (simp add: sizeof_order_executed_def)
next
  case (OrderExecutedWithPrice x)
  with assms show ?thesis
    using roundtrip_order_executed_with_price [of x] framesI [OF _ _ _ dispatch_of(6)] by (simp add: sizeof_order_executed_with_price_def)
next
  case (OrderCancel x)
  with assms show ?thesis
    using roundtrip_order_cancel [of x] framesI [OF _ _ _ dispatch_of(7)] by (simp add: sizeof_order_cancel_def)
next
  case (OrderDelete x)
  with assms show ?thesis
    using roundtrip_order_delete [of x] framesI [OF _ _ _ dispatch_of(8)] by (simp add: sizeof_order_delete_def)
next
  case (OrderReplace x)
  with assms show ?thesis
    using roundtrip_order_replace [of x] framesI [OF _ _ _ dispatch_of(9)] by (simp add: sizeof_order_replace_def)
next
  case (Trade x)
  with assms show ?thesis
    using roundtrip_trade_msg [of x] framesI [OF _ _ _ dispatch_of(10)] by (simp add: sizeof_trade_msg_def)
qed

lemma parse_next_encoded:
  assumes "valid_message m"
  shows "parse_next (parser_at (pre @ encode_message m @ post) (length pre)) =
    Some (Some m, parser_at (pre @ encode_message m @ post) (length pre + length (encode_message m)))"
proof -
  let ?e = "encode_message m" and ?p = "parser_at (pre @ encode_message m @ post) (length pre)"
  obtain decode where f: "dispatch (?e ! 2) = Some (length ?e, decode)" "decode ?e = m"
      "3 \<le> length ?e" "length ?e < 2 ^ 16" "take 2 ?e = be_bytes 2 (of_nat (length ?e) :: u16)"
    using encode_message_frame [OF assms] by (auto simp: frames_def)
  have len: "frame_length ?p = length ?e"
    using f(3-5) by (simp add: frame_length_def parser_at_def be_be_bytes_full unat_of_nat_small)
  have "buffer ?p ! (offset ?p + 2) = ?e ! 2"
    using f(3) by (simp add: parser_at_def nth_append)
  then have "frame_message ?p = Some m"
    using f(1,2) len by (simp add: frame_message_def parser_at_def)
  then show ?thesis
    using f(3) len by (simp add: parse_next_eq frame_complete_def parser_at_def)
qed

interpretation itch: framed_parser parse_next has_more parser_at encode_message valid_message
proof unfold_locales
  show "valid_message m \<Longrightarrow>
    parse_next (parser_at (pre @ encode_message m @ post) (length pre)) =
    Some (Some m, parser_at (pre @ encode_message m @ post) (length pre + length (encode_message m)))"
    for m pre post by (rule parse_next_encoded)
  show "has_more (parser_at buf off) \<longleftrightarrow> off < length buf" for buf off
    by (simp add: has_more_def parser_at_def)
  show "encode_message m \<noteq> []" for m
    by (cases m) (simp_all add: encode_defs be_bytes_def)
qed

text \<open>
  C6. Round trip: draining a buffer of encoded messages of any of the ten kinds returns
  exactly those messages, every field with its value, in their order, and ends.
\<close>
theorem itch_stream_roundtrip:
  assumes "\<forall>m\<in>set ms. valid_message m"
  shows "drain parse_next has_more (parser_new (concat (map encode_message ms))) [] = Some ms"
  using itch.drain_encoded [OF assms] by (simp add: parser_new_def)

text \<open>
  C32. A stream whose last frame is cut short (or declares length zero) makes the loop of the
  program's clients run forever: after any valid messages, a non-empty tail of one or two
  bytes, a tail that declares more bytes than it has, or one that declares none, is never
  left.
\<close>
theorem itch_truncated_stream_diverges:
  assumes "\<forall>m\<in>set ms. valid_message m" and "tail \<noteq> []"
    and "length tail < 3 \<or> length tail < unat (be (take 2 tail) :: u16) \<or>
      unat (be (take 2 tail) :: u16) = 0"
  shows "drain parse_next has_more (parser_new (concat (map encode_message ms) @ tail)) [] = None"
proof -
  have "parse_next (parser_at (pre @ tail) (length pre)) =
      Some (None, parser_at (pre @ tail) (length pre))" for pre
    using assms(3) by (intro parse_next_stuck) (auto simp: parser_at_def frame_length_def frame_complete_def)
  then show ?thesis
    using itch.drain_encoded_stuck [OF assms(1,2), of "[]" "[]"] by (simp add: parser_new_def)
qed

text \<open>
  A well-framed message of a kind the parser does not know, or one whose declared length
  is smaller than its struct, is skipped whole: no message is returned and the parser stands
  at the next frame.
\<close>
theorem itch_unknown_skipped:
  assumes "frame_complete p"
    and "\<forall>n decode. dispatch (buffer p ! (offset p + 2)) = Some (n, decode) \<longrightarrow> frame_length p < n"
  shows "parse_next p = Some (None, p\<lparr>offset := offset p + frame_length p\<rparr>)"
  using assms by (auto simp: parse_next_eq frame_message_def split: option.split)

subsection \<open>Witnesses\<close>

definition sample_add :: add_order_msg where
  "sample_add =
     \<lparr>ao_length = 40, ao_type = ch CHR ''A'', ao_stock_locate = 0, ao_tracking_number = 1,
      ao_timestamp = 1000000, ao_order_reference = 12345, ao_buy_sell = ch CHR ''B'',
      ao_shares = 100, ao_stock = map ch ''AAPL    '', ao_price = 1500000\<rparr>"

definition sample_delete :: order_delete where
  "sample_delete =
     \<lparr>od_length = 23, od_type = ch CHR ''D'', od_stock_locate = 0, od_tracking_number = 2,
      od_timestamp = 1000001, od_order_reference = 12345\<rparr>"

definition sample_msgs :: "itch_message list" where
  "sample_msgs = [AddOrder sample_add, OrderDelete sample_delete]"

lemma sample_msgs_valid: "\<forall>m\<in>set sample_msgs. valid_message m"
  by (simp add: sample_msgs_def sample_add_def sample_delete_def valid_add_order_msg_def
      valid_order_delete_def sizeof_defs)

theorem itch_parse_progress_witness:
  "\<exists>m p'. parse_next (parser_new (concat (map encode_message sample_msgs))) = Some (m, p') \<and> offset p' = 40"
proof -
  let ?p = "parser_new (concat (map encode_message sample_msgs))"
  have l: "frame_length ?p = 40" and "length (buffer ?p) = 63" and o: "offset ?p = 0" by code_simp+
  moreover obtain m p' where "parse_next ?p = Some (m, p')" by (metis parse_next_eq surj_pair)
  ultimately show ?thesis using itch_parse_progress [of ?p m p'] by (intro exI [of _ m] exI [of _ p']) simp
qed

theorem itch_stream_roundtrip_witness:
  "drain parse_next has_more (parser_new (concat (map encode_message sample_msgs))) [] =
     Some [AddOrder sample_add, OrderDelete sample_delete]"
  using itch_stream_roundtrip [OF sample_msgs_valid] by (simp only: sample_msgs_def)

theorem itch_truncated_stream_diverges_witness:
  "drain parse_next has_more (parser_new (concat (map encode_message sample_msgs) @ [0, 40])) [] = None \<and>
   drain parse_next has_more (parser_new (concat (map encode_message sample_msgs) @ [0, 0, 65])) [] = None"
proof
  show "drain parse_next has_more (parser_new (concat (map encode_message sample_msgs) @ [0, 40])) [] = None"
    by (rule itch_truncated_stream_diverges [OF sample_msgs_valid]) simp_all
  show "drain parse_next has_more (parser_new (concat (map encode_message sample_msgs) @ [0, 0, 65])) [] = None"
    by (rule itch_truncated_stream_diverges [OF sample_msgs_valid]) (simp_all add: be_def)
qed

theorem itch_unknown_skipped_witness:
  "parse_next (parser_new [0, 5, ch CHR ''Z'', 1, 2]) =
     Some (None, parser_at [0, 5, ch CHR ''Z'', 1, 2] 5)"
proof -
  let ?p = "parser_new [0, 5, ch CHR ''Z'', 1, 2]"
  have "frame_complete ?p" and "dispatch (buffer ?p ! (offset ?p + 2)) = None"
    and l: "frame_length ?p = 5"
    by code_simp+
  then have "parse_next ?p = Some (None, ?p\<lparr>offset := offset ?p + frame_length ?p\<rparr>)"
    by (intro itch_unknown_skipped) simp_all
  then show ?thesis by (simp only: l) (simp add: parser_new_def parser_at_def)
qed

end
