(* ===== verification/Iex.thy ===== *)
theory Iex
  imports Framing Binary64
begin

text \<open>
  The IEX TOPS/DEEP parser: \<open>include/iex_parser.hpp\<close>. Every message starts with the nine-byte
  header (type and timestamp); the fields are little-endian, so a \<open>memcpy\<close> of the packed struct
  is the whole decoding. The length of a message is the size of its struct; the stream has no
  length field.
\<close>

subsection \<open>The packed structs\<close>

record iex_header =
  ih_type :: u8
  ih_timestamp :: u64

record iex_system_event =
  is_header :: iex_header
  is_event :: u8

record iex_security_directory =
  id_header :: iex_header
  id_flags :: u8
  id_timestamp :: u64
  id_symbol :: "u8 list"
  id_round_lot :: u32
  id_adjusted_poc_close :: u64
  id_luld_tier :: u8

record iex_trading_status =
  ih_header :: iex_header
  ih_status :: u8
  ih_symbol :: "u8 list"
  ih_reason :: "u8 list"

record iex_quote_update =
  iq_header :: iex_header
  iq_flags :: u8
  iq_symbol :: "u8 list"
  iq_bid_size :: u32
  iq_bid_price :: i64
  iq_ask_size :: u32
  iq_ask_price :: i64

record iex_trade_report =
  it_header :: iex_header
  it_flags :: u8
  it_symbol :: "u8 list"
  it_size :: u32
  it_price :: i64
  it_trade_id :: u64

record iex_price_level_update =
  ip_header :: iex_header
  ip_flags :: u8
  ip_symbol :: "u8 list"
  ip_size :: u32
  ip_price :: i64

datatype iex_message =
    ISystemEvent iex_system_event
  | ISecurityDirectory iex_security_directory
  | ITradingStatus iex_trading_status
  | IQuoteUpdate iex_quote_update
  | ITradeReport iex_trade_report
  | IPriceLevelUpdate iex_price_level_update

definition sizeof_header :: nat where
  "sizeof_header = 9"

definition decode_header :: "u8 list \<Rightarrow> iex_header" where
  "decode_header s = \<lparr>ih_type = hd (fld s 0 1), ih_timestamp = le (fld s 1 8)\<rparr>"

definition sizeof_iex_system_event :: nat where
  "sizeof_iex_system_event = 10"

definition decode_iex_system_event :: "u8 list \<Rightarrow> iex_system_event" where
  "decode_iex_system_event s =
     \<lparr>is_header = decode_header (fld s 0 9),
      is_event = hd (fld s 9 1)\<rparr>"

definition sizeof_iex_security_directory :: nat where
  "sizeof_iex_security_directory = 39"

definition decode_iex_security_directory :: "u8 list \<Rightarrow> iex_security_directory" where
  "decode_iex_security_directory s =
     \<lparr>id_header = decode_header (fld s 0 9),
      id_flags = hd (fld s 9 1),
      id_timestamp = le (fld s 10 8),
      id_symbol = fld s 18 8,
      id_round_lot = le (fld s 26 4),
      id_adjusted_poc_close = le (fld s 30 8),
      id_luld_tier = hd (fld s 38 1)\<rparr>"

definition sizeof_iex_trading_status :: nat where
  "sizeof_iex_trading_status = 22"

definition decode_iex_trading_status :: "u8 list \<Rightarrow> iex_trading_status" where
  "decode_iex_trading_status s =
     \<lparr>ih_header = decode_header (fld s 0 9),
      ih_status = hd (fld s 9 1),
      ih_symbol = fld s 10 8,
      ih_reason = fld s 18 4\<rparr>"

definition sizeof_iex_quote_update :: nat where
  "sizeof_iex_quote_update = 42"

definition decode_iex_quote_update :: "u8 list \<Rightarrow> iex_quote_update" where
  "decode_iex_quote_update s =
     \<lparr>iq_header = decode_header (fld s 0 9),
      iq_flags = hd (fld s 9 1),
      iq_symbol = fld s 10 8,
      iq_bid_size = le (fld s 18 4),
      iq_bid_price = le (fld s 22 8),
      iq_ask_size = le (fld s 30 4),
      iq_ask_price = le (fld s 34 8)\<rparr>"

definition sizeof_iex_trade_report :: nat where
  "sizeof_iex_trade_report = 38"

definition decode_iex_trade_report :: "u8 list \<Rightarrow> iex_trade_report" where
  "decode_iex_trade_report s =
     \<lparr>it_header = decode_header (fld s 0 9),
      it_flags = hd (fld s 9 1),
      it_symbol = fld s 10 8,
      it_size = le (fld s 18 4),
      it_price = le (fld s 22 8),
      it_trade_id = le (fld s 30 8)\<rparr>"

definition sizeof_iex_price_level_update :: nat where
  "sizeof_iex_price_level_update = 30"

definition decode_iex_price_level_update :: "u8 list \<Rightarrow> iex_price_level_update" where
  "decode_iex_price_level_update s =
     \<lparr>ip_header = decode_header (fld s 0 9),
      ip_flags = hd (fld s 9 1),
      ip_symbol = fld s 10 8,
      ip_size = le (fld s 18 4),
      ip_price = le (fld s 22 8)\<rparr>"

definition iex_dispatch :: "u8 \<Rightarrow> (nat \<times> (u8 list \<Rightarrow> iex_message)) option" where
  "iex_dispatch t =
     (if t = 0x53 then Some (sizeof_iex_system_event, ISystemEvent \<circ> decode_iex_system_event)
      else if t = 0x44 then Some (sizeof_iex_security_directory, ISecurityDirectory \<circ> decode_iex_security_directory)
      else if t = 0x48 then Some (sizeof_iex_trading_status, ITradingStatus \<circ> decode_iex_trading_status)
      else if t = 0x51 then Some (sizeof_iex_quote_update, IQuoteUpdate \<circ> decode_iex_quote_update)
      else if t = 0x54 then Some (sizeof_iex_trade_report, ITradeReport \<circ> decode_iex_trade_report)
      else if t = 0x38 then Some (sizeof_iex_price_level_update, IPriceLevelUpdate \<circ> decode_iex_price_level_update)
      else None)"

subsection \<open>The parser\<close>

record iex_parser =
  iex_buffer :: "u8 list"
  iex_offset :: nat

definition iex_at :: "u8 list \<Rightarrow> nat \<Rightarrow> iex_parser" where
  "iex_at buf off = \<lparr>iex_buffer = buf, iex_offset = off\<rparr>"

definition iex_new :: "u8 list \<Rightarrow> iex_parser" where
  "iex_new buf = iex_at buf 0"

text \<open>As for ITCH, the outer \<open>option\<close> is a read outside the buffer.\<close>

definition iex_parse_message ::
  "nat \<Rightarrow> (u8 list \<Rightarrow> iex_message) \<Rightarrow> iex_parser \<Rightarrow> (iex_message option \<times> iex_parser) option" where
  "iex_parse_message n decode p =
     (if length (iex_buffer p) < iex_offset p + n then Some (None, p)
      else do {
        s \<leftarrow> rd (iex_buffer p) (iex_offset p) n;
        Some (Some (decode s), p\<lparr>iex_offset := iex_offset p + n\<rparr>)
      })"

definition iex_parse_next :: "iex_parser \<Rightarrow> (iex_message option \<times> iex_parser) option" where
  "iex_parse_next p =
     (if length (iex_buffer p) < iex_offset p + sizeof_header then Some (None, p)
      else do {
        t \<leftarrow> rd (iex_buffer p) (iex_offset p) 1;
        (case iex_dispatch (hd t) of
           Some (n, decode) \<Rightarrow> iex_parse_message n decode p
         | None \<Rightarrow> Some (None, p\<lparr>iex_offset := iex_offset p + sizeof_header\<rparr>))
      })"

definition iex_has_more :: "iex_parser \<Rightarrow> bool" where
  "iex_has_more p \<longleftrightarrow> iex_offset p < length (iex_buffer p)"

definition iex_reset :: "iex_parser \<Rightarrow> iex_parser" where
  "iex_reset p = p\<lparr>iex_offset := 0\<rparr>"

definition iex_position :: "iex_parser \<Rightarrow> nat" where
  "iex_position p = iex_offset p"

definition symbol_to_string :: "u8 list \<Rightarrow> string" where
  "symbol_to_string s = map char_of_u8 (take (text_length s) s)"

definition price_to_double_scale :: "i64 \<Rightarrow> i64" where
  "price_to_double_scale p = p"

definition iex_price_to_double :: "i64 \<Rightarrow> double" where
  "iex_price_to_double p = fl (of_i64 p / 10000)"

subsection \<open>The wire format\<close>

definition encode_header :: "iex_header \<Rightarrow> u8 list" where
  "encode_header h = [ih_type h] @ le_bytes 8 (ih_timestamp h)"

definition encode_iex_system_event :: "iex_system_event \<Rightarrow> u8 list" where
  "encode_iex_system_event m =
     encode_header (is_header m) @ [is_event m]"

definition valid_iex_system_event :: "iex_system_event \<Rightarrow> bool" where
  "valid_iex_system_event m \<longleftrightarrow> ih_type (is_header m) = 0x53"

definition encode_iex_security_directory :: "iex_security_directory \<Rightarrow> u8 list" where
  "encode_iex_security_directory m =
     encode_header (id_header m) @ [id_flags m] @ le_bytes 8 (id_timestamp m) @ id_symbol m @
     le_bytes 4 (id_round_lot m) @ le_bytes 8 (id_adjusted_poc_close m) @ [id_luld_tier m]"

definition valid_iex_security_directory :: "iex_security_directory \<Rightarrow> bool" where
  "valid_iex_security_directory m \<longleftrightarrow> ih_type (id_header m) = 0x44 \<and> length (id_symbol m) = 8"

definition encode_iex_trading_status :: "iex_trading_status \<Rightarrow> u8 list" where
  "encode_iex_trading_status m =
     encode_header (ih_header m) @ [ih_status m] @ ih_symbol m @ ih_reason m"

definition valid_iex_trading_status :: "iex_trading_status \<Rightarrow> bool" where
  "valid_iex_trading_status m \<longleftrightarrow> ih_type (ih_header m) = 0x48 \<and> length (ih_symbol m) = 8 \<and> length (ih_reason m) = 4"

definition encode_iex_quote_update :: "iex_quote_update \<Rightarrow> u8 list" where
  "encode_iex_quote_update m =
     encode_header (iq_header m) @ [iq_flags m] @ iq_symbol m @ le_bytes 4 (iq_bid_size m) @
     le_bytes 8 (iq_bid_price m) @ le_bytes 4 (iq_ask_size m) @ le_bytes 8 (iq_ask_price m)"

definition valid_iex_quote_update :: "iex_quote_update \<Rightarrow> bool" where
  "valid_iex_quote_update m \<longleftrightarrow> ih_type (iq_header m) = 0x51 \<and> length (iq_symbol m) = 8"

definition encode_iex_trade_report :: "iex_trade_report \<Rightarrow> u8 list" where
  "encode_iex_trade_report m =
     encode_header (it_header m) @ [it_flags m] @ it_symbol m @ le_bytes 4 (it_size m) @
     le_bytes 8 (it_price m) @ le_bytes 8 (it_trade_id m)"

definition valid_iex_trade_report :: "iex_trade_report \<Rightarrow> bool" where
  "valid_iex_trade_report m \<longleftrightarrow> ih_type (it_header m) = 0x54 \<and> length (it_symbol m) = 8"

definition encode_iex_price_level_update :: "iex_price_level_update \<Rightarrow> u8 list" where
  "encode_iex_price_level_update m =
     encode_header (ip_header m) @ [ip_flags m] @ ip_symbol m @ le_bytes 4 (ip_size m) @
     le_bytes 8 (ip_price m)"

definition valid_iex_price_level_update :: "iex_price_level_update \<Rightarrow> bool" where
  "valid_iex_price_level_update m \<longleftrightarrow> ih_type (ip_header m) = 0x38 \<and> length (ip_symbol m) = 8"

fun iex_encode :: "iex_message \<Rightarrow> u8 list" where
  "iex_encode (ISystemEvent m) = encode_iex_system_event m"
| "iex_encode (ISecurityDirectory m) = encode_iex_security_directory m"
| "iex_encode (ITradingStatus m) = encode_iex_trading_status m"
| "iex_encode (IQuoteUpdate m) = encode_iex_quote_update m"
| "iex_encode (ITradeReport m) = encode_iex_trade_report m"
| "iex_encode (IPriceLevelUpdate m) = encode_iex_price_level_update m"

fun iex_valid :: "iex_message \<Rightarrow> bool" where
  "iex_valid (ISystemEvent m) \<longleftrightarrow> valid_iex_system_event m"
| "iex_valid (ISecurityDirectory m) \<longleftrightarrow> valid_iex_security_directory m"
| "iex_valid (ITradingStatus m) \<longleftrightarrow> valid_iex_trading_status m"
| "iex_valid (IQuoteUpdate m) \<longleftrightarrow> valid_iex_quote_update m"
| "iex_valid (ITradeReport m) \<longleftrightarrow> valid_iex_trade_report m"
| "iex_valid (IPriceLevelUpdate m) \<longleftrightarrow> valid_iex_price_level_update m"

lemmas iex_codec_defs = le_le_bytes_full fld_def decode_header_def encode_header_def

lemma roundtrip_iex_system_event:
  assumes "valid_iex_system_event m"
  shows "decode_iex_system_event (encode_iex_system_event m) = m"
    and "length (encode_iex_system_event m) = sizeof_iex_system_event"
    and "hd (encode_iex_system_event m) = 0x53"
  using assms
  by (cases m; simp add: iex_codec_defs decode_iex_system_event_def encode_iex_system_event_def
      valid_iex_system_event_def sizeof_iex_system_event_def)+

lemma roundtrip_iex_security_directory:
  assumes "valid_iex_security_directory m"
  shows "decode_iex_security_directory (encode_iex_security_directory m) = m"
    and "length (encode_iex_security_directory m) = sizeof_iex_security_directory"
    and "hd (encode_iex_security_directory m) = 0x44"
  using assms
  by (cases m; simp add: iex_codec_defs decode_iex_security_directory_def encode_iex_security_directory_def
      valid_iex_security_directory_def sizeof_iex_security_directory_def)+

lemma roundtrip_iex_trading_status:
  assumes "valid_iex_trading_status m"
  shows "decode_iex_trading_status (encode_iex_trading_status m) = m"
    and "length (encode_iex_trading_status m) = sizeof_iex_trading_status"
    and "hd (encode_iex_trading_status m) = 0x48"
  using assms
  by (cases m; simp add: iex_codec_defs decode_iex_trading_status_def encode_iex_trading_status_def
      valid_iex_trading_status_def sizeof_iex_trading_status_def)+

lemma roundtrip_iex_quote_update:
  assumes "valid_iex_quote_update m"
  shows "decode_iex_quote_update (encode_iex_quote_update m) = m"
    and "length (encode_iex_quote_update m) = sizeof_iex_quote_update"
    and "hd (encode_iex_quote_update m) = 0x51"
  using assms
  by (cases m; simp add: iex_codec_defs decode_iex_quote_update_def encode_iex_quote_update_def
      valid_iex_quote_update_def sizeof_iex_quote_update_def)+

lemma roundtrip_iex_trade_report:
  assumes "valid_iex_trade_report m"
  shows "decode_iex_trade_report (encode_iex_trade_report m) = m"
    and "length (encode_iex_trade_report m) = sizeof_iex_trade_report"
    and "hd (encode_iex_trade_report m) = 0x54"
  using assms
  by (cases m; simp add: iex_codec_defs decode_iex_trade_report_def encode_iex_trade_report_def
      valid_iex_trade_report_def sizeof_iex_trade_report_def)+

lemma roundtrip_iex_price_level_update:
  assumes "valid_iex_price_level_update m"
  shows "decode_iex_price_level_update (encode_iex_price_level_update m) = m"
    and "length (encode_iex_price_level_update m) = sizeof_iex_price_level_update"
    and "hd (encode_iex_price_level_update m) = 0x38"
  using assms
  by (cases m; simp add: iex_codec_defs decode_iex_price_level_update_def encode_iex_price_level_update_def
      valid_iex_price_level_update_def sizeof_iex_price_level_update_def)+

lemmas iex_sizeof_defs =
  sizeof_iex_system_event_def
  sizeof_iex_security_directory_def
  sizeof_iex_trading_status_def
  sizeof_iex_quote_update_def
  sizeof_iex_trade_report_def
  sizeof_iex_price_level_update_def

lemmas iex_encode_defs =
  encode_iex_system_event_def
  encode_iex_security_directory_def
  encode_iex_trading_status_def
  encode_iex_quote_update_def
  encode_iex_trade_report_def
  encode_iex_price_level_update_def

lemma iex_dispatch_of:
  "iex_dispatch 0x53 = Some (sizeof_iex_system_event, ISystemEvent \<circ> decode_iex_system_event)"
  "iex_dispatch 0x44 = Some (sizeof_iex_security_directory, ISecurityDirectory \<circ> decode_iex_security_directory)"
  "iex_dispatch 0x48 = Some (sizeof_iex_trading_status, ITradingStatus \<circ> decode_iex_trading_status)"
  "iex_dispatch 0x51 = Some (sizeof_iex_quote_update, IQuoteUpdate \<circ> decode_iex_quote_update)"
  "iex_dispatch 0x54 = Some (sizeof_iex_trade_report, ITradeReport \<circ> decode_iex_trade_report)"
  "iex_dispatch 0x38 = Some (sizeof_iex_price_level_update, IPriceLevelUpdate \<circ> decode_iex_price_level_update)"
  by (simp_all add: iex_dispatch_def)

subsection \<open>What one call does\<close>

text \<open>
  \<open>advance_at\<close> is the number of bytes a call consumes at the head of a byte sequence: the size
  of the struct, the nine bytes of an unknown header, or nothing.
\<close>

definition advance_at :: "u8 list \<Rightarrow> nat" where
  "advance_at bs =
     (if length bs < 9 then 0
      else case iex_dispatch (hd bs) of
             None \<Rightarrow> 9
           | Some (n, decode) \<Rightarrow> if length bs < n then 0 else n)"

definition message_at :: "u8 list \<Rightarrow> iex_message option" where
  "message_at bs =
     (if length bs < 9 then None
      else case iex_dispatch (hd bs) of
             None \<Rightarrow> None
           | Some (n, decode) \<Rightarrow> if length bs < n then None else Some (decode (take n bs)))"

lemma iex_parse_next_eq:
  "iex_parse_next p =
     Some (message_at (drop (iex_offset p) (iex_buffer p)),
           p\<lparr>iex_offset := iex_offset p + advance_at (drop (iex_offset p) (iex_buffer p))\<rparr>)"
proof (cases "iex_offset p + 9 \<le> length (iex_buffer p)")
  case False
  then have "length (iex_buffer p) - iex_offset p < 9" by simp
  with False show ?thesis
    by (simp add: iex_parse_next_def message_at_def advance_at_def sizeof_header_def)
next
  case True
  have "hd (take 1 (drop (iex_offset p) (iex_buffer p))) = hd (drop (iex_offset p) (iex_buffer p))"
    by (cases "drop (iex_offset p) (iex_buffer p)") simp_all
  with True show ?thesis
    by (auto simp: iex_parse_next_def iex_parse_message_def message_at_def advance_at_def sizeof_header_def
        split: option.split)
qed

definition iex_frames :: "u8 list \<Rightarrow> iex_message \<Rightarrow> bool" where
  "iex_frames e m \<longleftrightarrow> (\<exists>decode. iex_dispatch (hd e) = Some (length e, decode) \<and> decode e = m \<and> 9 \<le> length e)"

lemma iex_framesI:
  "length e = n \<Longrightarrow> hd e = t \<Longrightarrow> iex_dispatch t = Some (n, decode) \<Longrightarrow> decode e = m \<Longrightarrow> 9 \<le> n \<Longrightarrow>
   iex_frames e m"
  by (auto simp: iex_frames_def)

lemma iex_encode_frame:
  assumes "iex_valid m"
  shows "iex_frames (iex_encode m) m"
  using assms
proof (cases m)
  case (ISystemEvent x)
  with assms show ?thesis
    using roundtrip_iex_system_event [of x] iex_framesI [OF _ _ iex_dispatch_of(1)]
    by (simp add: sizeof_iex_system_event_def)
next
  case (ISecurityDirectory x)
  with assms show ?thesis
    using roundtrip_iex_security_directory [of x] iex_framesI [OF _ _ iex_dispatch_of(2)]
    by (simp add: sizeof_iex_security_directory_def)
next
  case (ITradingStatus x)
  with assms show ?thesis
    using roundtrip_iex_trading_status [of x] iex_framesI [OF _ _ iex_dispatch_of(3)]
    by (simp add: sizeof_iex_trading_status_def)
next
  case (IQuoteUpdate x)
  with assms show ?thesis
    using roundtrip_iex_quote_update [of x] iex_framesI [OF _ _ iex_dispatch_of(4)]
    by (simp add: sizeof_iex_quote_update_def)
next
  case (ITradeReport x)
  with assms show ?thesis
    using roundtrip_iex_trade_report [of x] iex_framesI [OF _ _ iex_dispatch_of(5)]
    by (simp add: sizeof_iex_trade_report_def)
next
  case (IPriceLevelUpdate x)
  with assms show ?thesis
    using roundtrip_iex_price_level_update [of x] iex_framesI [OF _ _ iex_dispatch_of(6)]
    by (simp add: sizeof_iex_price_level_update_def)
qed

lemma iex_parse_encoded:
  assumes "iex_valid m"
  shows "iex_parse_next (iex_at (pre @ iex_encode m @ post) (length pre)) =
    Some (Some m, iex_at (pre @ iex_encode m @ post) (length pre + length (iex_encode m)))"
proof -
  obtain decode where f: "iex_dispatch (hd (iex_encode m)) = Some (length (iex_encode m), decode)"
      "decode (iex_encode m) = m" "9 \<le> length (iex_encode m)"
    using iex_encode_frame [OF assms] by (auto simp: iex_frames_def)
  moreover have "hd (iex_encode m @ post) = hd (iex_encode m)" using f(3) by (cases "iex_encode m") simp_all
  ultimately show ?thesis
    by (simp add: iex_parse_next_eq iex_at_def message_at_def advance_at_def)
qed

interpretation iex: framed_parser iex_parse_next iex_has_more iex_at iex_encode iex_valid
proof unfold_locales
  show "iex_valid m \<Longrightarrow>
    iex_parse_next (iex_at (pre @ iex_encode m @ post) (length pre)) =
    Some (Some m, iex_at (pre @ iex_encode m @ post) (length pre + length (iex_encode m)))"
    for m pre post by (rule iex_parse_encoded)
  show "iex_has_more (iex_at buf off) \<longleftrightarrow> off < length buf" for buf off
    by (simp add: iex_has_more_def iex_at_def)
  show "iex_encode m \<noteq> []" for m
    by (cases m) (simp_all add: iex_encode_defs encode_header_def)
qed

text \<open>
  C34. Round trip: a buffer of encoded IEX messages of the six kinds is drained to exactly those
  messages in order, every field with its value.
\<close>
theorem iex_stream_roundtrip:
  assumes "\<forall>m\<in>set ms. iex_valid m"
  shows "drain iex_parse_next iex_has_more (iex_new (concat (map iex_encode ms))) [] = Some ms"
  using iex.drain_encoded [OF assms] by (simp add: iex_new_def)

text \<open>
  One call: it never reads outside the buffer and never moves past its end; it stays where
  it is exactly when fewer than nine bytes are left or a known message is cut short; and
  then the loop that drains the buffer never ends unless the end is reached.
\<close>
theorem iex_call_effect:
  "\<exists>m p'. iex_parse_next p = Some (m, p') \<and> iex_buffer p' = iex_buffer p \<and>
     iex_offset p' = iex_offset p + advance_at (drop (iex_offset p) (iex_buffer p)) \<and>
     iex_offset p' \<le> max (iex_offset p) (length (iex_buffer p)) \<and>
     (iex_offset p' = iex_offset p \<and> iex_has_more p \<longrightarrow> m = None \<and> drain iex_parse_next iex_has_more p acc = None)"
proof -
  let ?bs = "drop (iex_offset p) (iex_buffer p)"
  have le: "advance_at ?bs \<le> length ?bs"
    by (auto simp: advance_at_def split: option.split)
  have none: "message_at ?bs = None" if "advance_at ?bs = 0"
    using that
    by (auto simp: advance_at_def message_at_def iex_dispatch_def iex_sizeof_defs split: if_splits)
  have "drain iex_parse_next iex_has_more p acc = None" if "advance_at ?bs = 0" "iex_has_more p"
    using that none by (intro drain_stuck) (simp_all add: iex_parse_next_eq)
  with le none show ?thesis by (auto simp: iex_parse_next_eq)
qed

subsection \<open>Witnesses\<close>

definition sample_quote :: iex_quote_update where
  "sample_quote =
     \<lparr>iq_header = \<lparr>ih_type = 0x51, ih_timestamp = 1000\<rparr>, iq_flags = 0, iq_symbol = map ch ''AAPL    '',
      iq_bid_size = 100, iq_bid_price = 1500000, iq_ask_size = 200, iq_ask_price = 1500100\<rparr>"

definition sample_trade :: iex_trade_report where
  "sample_trade =
     \<lparr>it_header = \<lparr>ih_type = 0x54, ih_timestamp = 2000\<rparr>, it_flags = 0, it_symbol = map ch ''MSFT    '',
      it_size = 50, it_price = 2500000, it_trade_id = 12345\<rparr>"

theorem iex_stream_roundtrip_witness:
  "drain iex_parse_next iex_has_more
     (iex_new (concat (map iex_encode [IQuoteUpdate sample_quote, ITradeReport sample_trade]))) [] =
   Some [IQuoteUpdate sample_quote, ITradeReport sample_trade]"
  by (rule iex_stream_roundtrip)
    (simp add: sample_quote_def sample_trade_def valid_iex_quote_update_def valid_iex_trade_report_def)

theorem iex_call_effect_witness:
  "drain iex_parse_next iex_has_more (iex_new [0x51, 0, 0, 0, 0, 0, 0, 0, 0, 7]) [] = None"
proof -
  let ?p = "iex_new [0x51, 0, 0, 0, 0, 0, 0, 0, 0, 7]"
  have "advance_at (drop (iex_offset ?p) (iex_buffer ?p)) = 0" and "iex_has_more ?p" by code_simp+
  then show ?thesis using iex_call_effect [of ?p "[]"] by auto
qed

end
