(* ===== verification/Md_Parser.thy ===== *)
theory Md_Parser
  imports Bytes
begin

text \<open>
  The flat ITCH add-order parser: \<open>include/marketdata_parser.hpp\<close> and
  \<open>src/marketdata_parser.cpp\<close>, with the generator of its input,
  \<open>data/generate_sample_itch.py\<close>. The message has no length prefix and a six-byte timestamp.
\<close>

record md_order =
  md_timestamp :: u64
  md_order_ref :: u64
  md_shares :: u32
  md_price :: u32
  md_symbol :: "u8 list"
  md_is_buy :: bool

definition md_swap16 :: "u16 \<Rightarrow> u16" where
  "md_swap16 v = drop_bit 8 v OR push_bit 8 v"

definition md_swap32 :: "u32 \<Rightarrow> u32" where
  "md_swap32 v =
     drop_bit 24 v AND 0x000000FF OR drop_bit 8 v AND 0x0000FF00 OR
     push_bit 8 v AND 0x00FF0000 OR push_bit 24 v AND 0xFF000000"

definition md_swap64 :: "u64 \<Rightarrow> u64" where
  "md_swap64 v =
     drop_bit 56 v AND 0x00000000000000FF OR drop_bit 40 v AND 0x000000000000FF00 OR
     drop_bit 24 v AND 0x0000000000FF0000 OR drop_bit 8 v AND 0x00000000FF000000 OR
     push_bit 8 v AND 0x000000FF00000000 OR push_bit 24 v AND 0x0000FF0000000000 OR
     push_bit 40 v AND 0x00FF000000000000 OR push_bit 56 v AND 0xFF00000000000000"

definition read_timestamp :: "u8 list \<Rightarrow> u64" where
  "read_timestamp p =
     (let ts = 0;
          ts = ts OR push_bit 40 (ucast (p ! 0));
          ts = ts OR push_bit 32 (ucast (p ! 1));
          ts = ts OR push_bit 24 (ucast (p ! 2));
          ts = ts OR push_bit 16 (ucast (p ! 3));
          ts = ts OR push_bit 8 (ucast (p ! 4))
      in ts OR ucast (p ! 5))"

text \<open>
  The \<open>out\<close> parameter comes back updated; the outer \<open>option\<close> is a read outside \<open>data\<close>.
\<close>

definition parse_add_order :: "u8 list \<Rightarrow> md_order \<Rightarrow> (bool \<times> md_order) option" where
  "parse_add_order data out =
     (if length data < 36 then Some (False, out)
      else do {
        t \<leftarrow> rd data 0 1;
        if hd t \<noteq> ch CHR ''A'' then Some (False, out)
        else do {
          ts \<leftarrow> rd data 5 6;
          ref \<leftarrow> rd data 11 8;
          side \<leftarrow> rd data 19 1;
          shares \<leftarrow> rd data 20 4;
          sym \<leftarrow> rd data 24 8;
          price \<leftarrow> rd data 32 4;
          Some (True, out\<lparr>md_timestamp := read_timestamp ts, md_order_ref := md_swap64 (le ref),
            md_is_buy := (hd side = ch CHR ''B''), md_shares := md_swap32 (le shares),
            md_symbol := sym @ [0], md_price := md_swap32 (le price)\<rparr>)
        }
      })"

subsection \<open>The generator\<close>

text \<open>
  \<open>generate_add_order\<close>: \<open>struct.pack\<close> with \<open>'>'\<close> is big-endian, \<open>[-6:]\<close> keeps the last six bytes,
  \<open>ljust\<close> pads with spaces and \<open>[:8]\<close> cuts. The integers are in range for their formats.
\<close>

definition ljust :: "nat \<Rightarrow> string \<Rightarrow> string" where
  "ljust n s = s @ replicate (n - length s) CHR '' ''"

definition generate_add_order ::
  "u64 \<Rightarrow> u64 \<Rightarrow> u32 \<Rightarrow> string \<Rightarrow> u32 \<Rightarrow> char \<Rightarrow> u8 list" where
  "generate_add_order timestamp order_ref shares stock price buy_sell =
     [ch CHR ''A''] @ be_bytes 2 (1 :: u16) @ be_bytes 2 (0 :: u16) @ drop 2 (be_bytes 8 timestamp) @
     be_bytes 8 order_ref @ [ch buy_sell] @ be_bytes 4 shares @
     take 8 (map ch (ljust 8 stock)) @ be_bytes 4 price"

subsection \<open>Reading back\<close>

lemma md_swap32_be: "length s = 4 \<Longrightarrow> md_swap32 (le s) = be s"
  by (rule word32_bytewise, simp only: insert_iff empty_iff simp_thms, elim disjE)
    (simp_all add: md_swap32_def byte_index byte_masks bit_be bit_le bit_simps)

lemma md_swap64_be: "length s = 8 \<Longrightarrow> md_swap64 (le s) = be s"
  by (rule word64_bytewise, simp only: insert_iff empty_iff simp_thms, elim disjE)
    (simp_all add: md_swap64_def byte_index byte_masks bit_be bit_le bit_simps)

lemma read_timestamp_be: "length s = 6 \<Longrightarrow> read_timestamp s = be s"
  by (rule word64_bytewise, simp only: insert_iff empty_iff simp_thms, elim disjE)
    (auto simp: read_timestamp_def Let_def byte_index bit_be bit_simps dest: bit_imp_le_length)

lemma drop_be_bytes: "drop n (be_bytes m w) = be_bytes (m - n) (w :: 'n::len word)"
proof -
  have "take k (le_bytes m w) = le_bytes k w" if "k \<le> m" for k and w :: "'n word"
    using that
  proof (induction k arbitrary: m w)
    case (Suc k)
    then show ?case by (cases m) simp_all
  qed simp
  from this [of "m - n" w] show ?thesis by (simp add: be_bytes_def drop_rev)
qed

lemma be_be_bytes: "be (be_bytes n w) = take_bit (8 * n) (w :: 'n::len word)"
  by (simp add: be_def be_bytes_def le_le_bytes)

lemma length_ljust [simp]: "length (ljust n s) = max n (length s)"
  by (simp add: ljust_def)

lemma length_generated [simp]: "length (generate_add_order ts ref sh st pr bs) = 36"
  by (simp add: generate_add_order_def)

text \<open>
  Round trip between the two languages: the C++ parser accepts every message of the Python
  generator, and reads back the reference, the shares, the price, the side, the padded symbol
  with its terminator, and the timestamp modulo \<open>2 ^ 48\<close>.
\<close>

lemma parse_generated:
  "parse_add_order (generate_add_order ts ref sh st pr bs) out =
     Some (True, out\<lparr>md_timestamp := take_bit 48 ts, md_order_ref := ref,
       md_is_buy := (bs = CHR ''B''), md_shares := sh,
       md_symbol := take 8 (map ch (ljust 8 st)) @ [0], md_price := pr\<rparr>)"
proof -
  let ?g = "generate_add_order ts ref sh st pr bs"
  have f: "hd ?g = 65" "take 6 (drop 5 ?g) = drop 2 (be_bytes 8 ts)"
      "take 8 (drop 11 ?g) = be_bytes 8 ref" "hd (drop 19 ?g) = ch bs"
      "take 4 (drop 20 ?g) = be_bytes 4 sh" "take 8 (drop 24 ?g) = take 8 (map ch (ljust 8 st))"
      "take 4 (drop 32 ?g) = be_bytes 4 pr"
    by (simp_all add: generate_add_order_def)
  have side: "ch bs = 66 \<longleftrightarrow> bs = CHR ''B''"
    using ch_eq_iff [of bs "CHR ''B''"] by simp
  have ts: "read_timestamp (drop 2 (be_bytes 8 ts)) = take_bit 48 ts"
    by (simp add: read_timestamp_be drop_be_bytes be_be_bytes)
  show ?thesis
    by (simp add: parse_add_order_def f md_swap32_be md_swap64_be be_be_bytes_full ts side)
qed

text \<open>The parser rejects what is too short or of another type, and leaves \<open>out\<close> alone then.\<close>

lemma parse_add_order_reject:
  "length data < 36 \<or> hd data \<noteq> ch CHR ''A'' \<Longrightarrow> parse_add_order data out = Some (False, out)"
  by (cases data) (auto simp: parse_add_order_def)

lemma parse_add_order_safe: "parse_add_order data out \<noteq> None"
  by (auto simp: parse_add_order_def)

end
