(* ===== verification/Pcap.thy ===== *)
theory Pcap
  imports Bytes
begin

text \<open>
  The packet capture reader: \<open>include/pcap_reader.hpp\<close> and \<open>src/pcap_reader.cpp\<close>. The captured
  file is a byte list; a read outside it is the result \<open>None\<close>. \<open>Packet::payload\<close> points into
  the file and is modelled by its offset. Sizes are natural numbers: a file is smaller than
  \<open>2 ^ 63\<close> bytes and a packet length has 32 bits, so no sum of \<open>size_t\<close> wraps.
\<close>

record pcap_file_header =
  magic_number :: u32
  version_major :: u16
  version_minor :: u16
  thiszone :: u32
  sigfigs :: u32
  snaplen :: u32
  network :: u32

record pcap_packet_header =
  ts_sec :: u32
  ts_usec :: u32
  incl_len :: u32
  orig_len :: u32

record packet =
  timestamp_ns :: u64
  payload :: nat
  payload_size :: nat
  src_port :: u16
  dst_port :: u16

record pcap_reader =
  pdata :: "u8 list"
  poffset :: nat
  file_header :: "pcap_file_header option"
  pvalid :: bool

definition ntohs_custom :: "u16 \<Rightarrow> u16" where
  "ntohs_custom v = push_bit 8 (v AND 0xFF) OR drop_bit 8 v AND 0xFF"

definition ntohl_custom :: "u32 \<Rightarrow> u32" where
  "ntohl_custom v =
     push_bit 24 (v AND 0xFF) OR push_bit 8 (v AND 0xFF00) OR
     drop_bit 8 v AND 0xFF00 OR drop_bit 24 v AND 0xFF"

definition decode_file_header :: "u8 list \<Rightarrow> pcap_file_header" where
  "decode_file_header s =
     \<lparr>magic_number = le (fld s 0 4), version_major = le (fld s 4 2), version_minor = le (fld s 6 2),
      thiszone = le (fld s 8 4), sigfigs = le (fld s 12 4), snaplen = le (fld s 16 4),
      network = le (fld s 20 4)\<rparr>"

definition decode_packet_header :: "u8 list \<Rightarrow> pcap_packet_header" where
  "decode_packet_header s =
     \<lparr>ts_sec = le (fld s 0 4), ts_usec = le (fld s 4 4), incl_len = le (fld s 8 4),
      orig_len = le (fld s 12 4)\<rparr>"

definition reader_new :: "u8 list \<Rightarrow> pcap_reader" where
  "reader_new data =
     (let r = \<lparr>pdata = data, poffset = 0, file_header = None, pvalid = False\<rparr>
      in if length data < 24 then r
         else let h = decode_file_header (take 24 data); r1 = r\<lparr>file_header := Some h\<rparr>
              in if magic_number h \<noteq> 0xa1b2c3d4 \<and> magic_number h \<noteq> 0xd4c3b2a1 then r1
                 else r1\<lparr>poffset := 24, pvalid := True\<rparr>)"

text \<open>
  \<open>parse_headers\<close> looks at the \<open>len\<close> bytes at offset \<open>base\<close> of the file: Ethernet (14 bytes), IPv4
  (20 bytes and options), UDP (8 bytes). The packet comes back updated also when it fails.
\<close>

definition parse_headers :: "u8 list \<Rightarrow> nat \<Rightarrow> nat \<Rightarrow> packet \<Rightarrow> (bool \<times> packet) option" where
  "parse_headers data base len pkt =
     (if len < 14 then Some (False, pkt)
      else do {
        et \<leftarrow> rd data (base + 12) 2;
        if ntohs_custom (le et) \<noteq> 0x0800 then Some (False, pkt)
        else if len < 14 + 20 then Some (False, pkt)
        else do {
          version_ihl \<leftarrow> rd data (base + 14) 1;
          let ihl = unat ((hd version_ihl AND 0x0F) * 4);
          let offset = 14 + ihl;
          protocol \<leftarrow> rd data (base + 14 + 9) 1;
          if hd protocol \<noteq> 17 then Some (False, pkt)
          else if len < offset + 8 then Some (False, pkt)
          else do {
            sp \<leftarrow> rd data (base + offset) 2;
            dp \<leftarrow> rd data (base + offset + 2) 2;
            let pkt1 = pkt\<lparr>src_port := ntohs_custom (le sp), dst_port := ntohs_custom (le dp)\<rparr>;
            if len \<le> offset + 8 then Some (False, pkt1)
            else Some (True, pkt1\<lparr>payload := base + (offset + 8), payload_size := len - (offset + 8)\<rparr>)
          }
        }
      })"

definition next_packet :: "packet \<Rightarrow> pcap_reader \<Rightarrow> (bool \<times> packet \<times> pcap_reader) option" where
  "next_packet pkt r =
     (if length (pdata r) < poffset r + 16 then Some (False, pkt, r)
      else do {
        hs \<leftarrow> rd (pdata r) (poffset r) 16;
        let h = decode_packet_header hs;
        let r1 = r\<lparr>poffset := poffset r + 16\<rparr>;
        let len = unat (incl_len h);
        if length (pdata r1) < poffset r1 + len then Some (False, pkt, r1)
        else do {
          let pkt1 = pkt\<lparr>timestamp_ns := ucast (ts_sec h) * 1000000000 + ucast (ts_usec h) * 1000\<rparr>;
          (ok, pkt2) \<leftarrow> parse_headers (pdata r1) (poffset r1) len pkt1;
          Some (ok, pkt2, r1\<lparr>poffset := poffset r1 + len\<rparr>)
        }
      })"

definition reader_reset :: "pcap_reader \<Rightarrow> pcap_reader" where
  "reader_reset r = r\<lparr>poffset := 24\<rparr>"

definition packets_read :: "pcap_reader \<Rightarrow> nat" where
  "packets_read r = 0"

text \<open>The bytes a packet points at, and the calls of a client until the first \<open>false\<close>.\<close>

definition packet_bytes :: "pcap_reader \<Rightarrow> packet \<Rightarrow> u8 list" where
  "packet_bytes r pkt = take (payload_size pkt) (drop (payload pkt) (pdata r))"

fun read_packets :: "nat \<Rightarrow> packet \<Rightarrow> pcap_reader \<Rightarrow> (packet list \<times> pcap_reader) option" where
  "read_packets 0 pkt r = Some ([], r)"
| "read_packets (Suc n) pkt r =
     (case next_packet pkt r of
        None \<Rightarrow> None
      | Some (ok, pkt', r') \<Rightarrow>
          (if ok then map_option (\<lambda>(ps, q). (pkt' # ps, q)) (read_packets n pkt' r')
           else Some ([], r')))"

subsection \<open>Safety\<close>

lemma parse_headers_safe:
  assumes "base + len \<le> length data"
  shows "\<exists>ok pkt'. parse_headers data base len pkt = Some (ok, pkt') \<and> timestamp_ns pkt' = timestamp_ns pkt \<and>
    (if ok then base + 22 \<le> payload pkt' \<and> payload pkt' + payload_size pkt' = base + len \<and> 0 < payload_size pkt'
     else payload pkt' = payload pkt \<and> payload_size pkt' = payload_size pkt)"
proof -
  have r: "rd data (base + k) n = Some (take n (drop (base + k) data))" if "k + n \<le> len" for k n
    using that assms by simp
  show ?thesis
    using assms
    by (auto simp: parse_headers_def r [of 12] r [of 14] r [of 23] Let_def add.assoc)
qed

text \<open>
  C35. Safety and progress of \<open>next_packet\<close>, on any bytes, valid or not: it never reads outside
  the file; \<open>true\<close> means that the payload is a non-empty range inside the bytes it consumed;
  it consumes nothing only when less than a packet header is left, and never moves past the
  end of the file.
\<close>
theorem pcap_next_packet_safe:
  "\<exists>ok pkt' r'. next_packet pkt r = Some (ok, pkt', r') \<and> pdata r' = pdata r \<and>
     (if length (pdata r) < poffset r + 16 then \<not> ok \<and> r' = r \<and> pkt' = pkt
      else poffset r + 16 \<le> poffset r' \<and> poffset r' \<le> length (pdata r) \<and>
        (if ok then poffset r + 16 < payload pkt' \<and> 0 < payload_size pkt' \<and>
           payload pkt' + payload_size pkt' = poffset r'
         else payload pkt' = payload pkt \<and> payload_size pkt' = payload_size pkt))"
proof (cases "length (pdata r) < poffset r + 16")
  case True
  then show ?thesis by (intro exI [of _ False]) (simp add: next_packet_def)
next
  case False
  let ?h = "decode_packet_header (take 16 (drop (poffset r) (pdata r)))"
  let ?len = "unat (incl_len ?h)"
  show ?thesis
  proof (cases "length (pdata r) < poffset r + 16 + ?len")
    case True
    with False show ?thesis by (intro exI [of _ False]) (simp add: next_packet_def Let_def)
  next
    case inside: False
    let ?pkt = "pkt\<lparr>timestamp_ns := ucast (ts_sec ?h) * 1000000000 + ucast (ts_usec ?h) * 1000\<rparr>"
    obtain ok pkt' where p: "parse_headers (pdata r) (poffset r + 16) ?len ?pkt = Some (ok, pkt')"
        "if ok then poffset r + 16 + 22 \<le> payload pkt' \<and> payload pkt' + payload_size pkt' = poffset r + 16 + ?len \<and>
           0 < payload_size pkt' else payload pkt' = payload ?pkt \<and> payload_size pkt' = payload_size ?pkt"
      using parse_headers_safe [of "poffset r + 16" ?len "pdata r" ?pkt] inside by force
    then have "next_packet pkt r = Some (ok, pkt', r\<lparr>poffset := poffset r + 16 + ?len\<rparr>)"
      using False inside by (simp add: next_packet_def Let_def)
    with p(2) False inside show ?thesis by (auto split: if_splits)
  qed
qed

subsection \<open>Captured UDP packets\<close>

text \<open>A UDP packet in an IPv4 packet with options in an Ethernet frame, as a capture holds it.\<close>

record udp_frame =
  uf_sec :: u32
  uf_usec :: u32
  uf_orig :: u32
  uf_macs :: "u8 list"
  uf_version_ihl :: u8
  uf_ip1 :: "u8 list"
  uf_ip2 :: "u8 list"
  uf_options :: "u8 list"
  uf_src :: u16
  uf_dst :: u16
  uf_udp :: "u8 list"
  uf_payload :: "u8 list"

definition encode_frame :: "udp_frame \<Rightarrow> u8 list" where
  "encode_frame f =
     uf_macs f @ be_bytes 2 (0x0800 :: u16) @ [uf_version_ihl f] @ uf_ip1 f @ [17] @ uf_ip2 f @
     uf_options f @ be_bytes 2 (uf_src f) @ be_bytes 2 (uf_dst f) @ uf_udp f @ uf_payload f"

definition encode_record :: "udp_frame \<Rightarrow> u8 list" where
  "encode_record f =
     le_bytes 4 (uf_sec f) @ le_bytes 4 (uf_usec f) @
     le_bytes 4 (of_nat (length (encode_frame f)) :: u32) @ le_bytes 4 (uf_orig f) @ encode_frame f"

definition valid_frame :: "udp_frame \<Rightarrow> bool" where
  "valid_frame f \<longleftrightarrow> length (uf_macs f) = 12 \<and> length (uf_ip1 f) = 8 \<and> length (uf_ip2 f) = 10 \<and>
     length (uf_udp f) = 4 \<and> unat ((uf_version_ihl f AND 0x0F) * 4) = 20 + length (uf_options f) \<and>
     uf_payload f \<noteq> [] \<and> length (encode_frame f) < 2 ^ 32"

definition encode_file :: "u8 list \<Rightarrow> udp_frame list \<Rightarrow> u8 list" where
  \<comment> \<open>the magic number and the rest of the file header, which the reader does not look at\<close>
  "encode_file hd_rest fs = le_bytes 4 (0xa1b2c3d4 :: u32) @ hd_rest @ concat (map encode_record fs)"

lemma ntohs_be: "length s = 2 \<Longrightarrow> ntohs_custom (le s) = be s"
proof (rule word16_bytewise)
  fix r :: nat assume "length s = 2" and "r < 8"
  have m: "(0xFF :: u16) = byte_mask 0" using byte_masks_16(1) by simp
  show "bit (ntohs_custom (le s)) r = bit (be s :: u16) r"
    using \<open>length s = 2\<close> \<open>r < 8\<close> unfolding ntohs_custom_def m
    by (simp add: byte_index byte_masks bit_be bit_le bit_simps)
  show "bit (ntohs_custom (le s)) (8 + r) = bit (be s :: u16) (8 + r)"
    using \<open>length s = 2\<close> \<open>r < 8\<close> unfolding ntohs_custom_def m
    by (simp add: byte_index byte_masks bit_be bit_le bit_simps)
qed

lemma rd_append:
  "k + n \<le> length e \<Longrightarrow> rd (pre @ e @ post) (length pre + k) n = Some (take n (drop k e))"
  by (simp add: rd_def)

lemma length_encode_frame:
  "valid_frame f \<Longrightarrow> length (encode_frame f) = 42 + length (uf_options f) + length (uf_payload f)"
  by (simp add: encode_frame_def valid_frame_def)

lemma parse_headers_udp:
  assumes "rd d (b + 12) 2 = Some et" and "ntohs_custom (le et) = 0x0800" and "34 \<le> len"
    and "rd d (b + 14) 1 = Some [v]" and "unat ((v AND 0x0F) * 4) = h"
    and "rd d (b + 14 + 9) 1 = Some [17]" and "14 + h + 8 < len"
    and "rd d (b + (14 + h)) 2 = Some sp" and "rd d (b + (14 + h) + 2) 2 = Some dp"
  shows "parse_headers d b len pkt =
    Some (True, pkt\<lparr>src_port := ntohs_custom (le sp), dst_port := ntohs_custom (le dp),
      payload := b + (14 + h + 8), payload_size := len - (14 + h + 8)\<rparr>)"
  using assms by (simp add: parse_headers_def Let_def)

lemma parse_encoded_frame:
  assumes "valid_frame f"
  shows "parse_headers (pre @ encode_frame f @ post) (length pre) (length (encode_frame f)) pkt =
    Some (True, pkt\<lparr>src_port := uf_src f, dst_port := uf_dst f,
      payload := length pre + (length (encode_frame f) - length (uf_payload f)),
      payload_size := length (uf_payload f)\<rparr>)"
proof -
  let ?e = "encode_frame f" and ?o = "34 + length (uf_options f)"
  have v: "length (uf_macs f) = 12" "length (uf_ip1 f) = 8" "length (uf_ip2 f) = 10"
      "length (uf_udp f) = 4" "unat ((uf_version_ihl f AND 0x0F) * 4) = 20 + length (uf_options f)"
      "uf_payload f \<noteq> []"
    using assms by (simp_all add: valid_frame_def)
  note len = length_encode_frame [OF assms]
  have p: "0 < length (uf_payload f)" using v(6) by simp
  have e: "take 2 (drop 12 ?e) = be_bytes 2 (0x0800 :: u16)" "take 1 (drop 14 ?e) = [uf_version_ihl f]"
      "take 1 (drop 23 ?e) = [17]" "take 2 (drop ?o ?e) = be_bytes 2 (uf_src f)"
      "take 2 (drop (?o + 2) ?e) = be_bytes 2 (uf_dst f)"
    using v by (simp_all add: encode_frame_def drop_Cons')
  have r: "rd (pre @ ?e @ post) (length pre + k) n = Some (take n (drop k ?e))"
    if "k + n \<le> length ?e" for k n using that by (rule rd_append)
  let ?d = "pre @ ?e @ post" and ?b = "length pre" and ?h = "20 + length (uf_options f)"
  have "parse_headers ?d ?b (length ?e) pkt = Some (True, pkt\<lparr>
      src_port := ntohs_custom (le (be_bytes 2 (uf_src f))),
      dst_port := ntohs_custom (le (be_bytes 2 (uf_dst f))),
      payload := ?b + (14 + ?h + 8), payload_size := length ?e - (14 + ?h + 8)\<rparr>)"
  proof (rule parse_headers_udp)
    show "rd ?d (?b + 12) 2 = Some (be_bytes 2 (0x0800 :: u16))" using r [of 12 2] len e(1) by simp
    show "rd ?d (?b + 14) 1 = Some [uf_version_ihl f]" using r [of 14 1] len e(2) by simp
    show "rd ?d (?b + 14 + 9) 1 = Some [17]" using r [of 23 1] len e(3) by simp
    show "rd ?d (?b + (14 + ?h)) 2 = Some (be_bytes 2 (uf_src f))" using r [of ?o 2] len e(4) by simp
    show "rd ?d (?b + (14 + ?h) + 2) 2 = Some (be_bytes 2 (uf_dst f))"
      using r [of "?o + 2" 2] len e(5) by simp
  qed (use len p v(5) in \<open>simp_all add: ntohs_be be_be_bytes_full\<close>)
  with len show ?thesis by (simp add: ntohs_be be_be_bytes_full)
qed

lemma next_packet_encoded:
  assumes "valid_frame f" and "pdata r = pre @ encode_record f @ post" and "poffset r = length pre"
  shows "\<exists>pkt'. next_packet pkt r = Some (True, pkt', r\<lparr>poffset := length (pre @ encode_record f)\<rparr>) \<and>
    timestamp_ns pkt' = ucast (uf_sec f) * 1000000000 + ucast (uf_usec f) * 1000 \<and>
    src_port pkt' = uf_src f \<and> dst_port pkt' = uf_dst f \<and> packet_bytes r pkt' = uf_payload f"
proof -
  let ?hs = "take 16 (encode_record f)" and ?e = "encode_frame f"
  let ?pre = "pre @ ?hs"
  have small: "length ?e < 2 ^ 32" using assms(1) by (simp add: valid_frame_def)
  have split: "encode_record f = ?hs @ ?e" "length ?hs = 16" by (simp_all add: encode_record_def)
  have h: "decode_packet_header ?hs = \<lparr>ts_sec = uf_sec f, ts_usec = uf_usec f,
      incl_len = of_nat (length ?e), orig_len = uf_orig f\<rparr>"
    by (simp add: decode_packet_header_def encode_record_def fld_def le_le_bytes_full)
  have len: "unat (of_nat (length ?e) :: u32) = length ?e" using small by (simp add: unat_of_nat_small)
  have data: "pdata r = ?pre @ ?e @ post" using assms(2) split(1) by simp
  have rd: "rd (pdata r) (length pre) 16 = Some ?hs"
    using rd_append [of 0 16 "encode_record f" pre post] split assms(2) by simp
  let ?pkt = "pkt\<lparr>timestamp_ns := ucast (uf_sec f) * 1000000000 + ucast (uf_usec f) * 1000\<rparr>"
  let ?off = "length ?pre + (length ?e - length (uf_payload f))"
  have ph: "parse_headers (pdata r) (length pre + 16) (length ?e) ?pkt = Some (True, ?pkt\<lparr>src_port := uf_src f,
      dst_port := uf_dst f, payload := ?off, payload_size := length (uf_payload f)\<rparr>)"
    using parse_encoded_frame [OF assms(1), of ?pre post ?pkt] split(2) by (simp only: data) simp
  have "length (pdata r) = length pre + 16 + length ?e + length post" using data split(2) by simp
  moreover have "length (encode_record f) = 16 + length ?e" using split by (metis length_append)
  moreover have "packet_bytes r (?pkt\<lparr>src_port := uf_src f, dst_port := uf_dst f, payload := ?off,
      payload_size := length (uf_payload f)\<rparr>) = uf_payload f"
    using length_encode_frame [OF assms(1)] split(2)
    by (simp add: packet_bytes_def data)
      (simp add: encode_frame_def drop_Cons' assms(1) [unfolded valid_frame_def])
  ultimately show ?thesis
    using rd ph assms(3) by (simp add: next_packet_def Let_def h len)
qed

lemma read_packets_encoded:
  assumes "\<forall>f\<in>set fs. valid_frame f" and "pdata r = pre @ concat (map encode_record fs)"
    and "poffset r = length pre" and "length fs < n"
  shows "\<exists>ps q. read_packets n pkt r = Some (ps, q) \<and> pdata q = pdata r \<and> poffset q = length (pdata r) \<and>
    map (\<lambda>p. (timestamp_ns p, src_port p, dst_port p, packet_bytes r p)) ps =
    map (\<lambda>f. (ucast (uf_sec f) * 1000000000 + ucast (uf_usec f) * 1000, uf_src f, uf_dst f, uf_payload f)) fs"
  using assms
proof (induction fs arbitrary: pre pkt r n)
  case Nil
  then obtain m where "n = Suc m" by (cases n) auto
  with Nil show ?case by (simp add: next_packet_def)
next
  case (Cons f fs)
  then obtain m where n: "n = Suc m" "length fs < m" by (cases n) auto
  let ?post = "concat (map encode_record fs)"
  let ?r = "r\<lparr>poffset := length (pre @ encode_record f)\<rparr>"
  have data: "pdata r = pre @ encode_record f @ ?post" using Cons.prems(2) by simp
  obtain p where p: "next_packet pkt r = Some (True, p, ?r)"
      "timestamp_ns p = ucast (uf_sec f) * 1000000000 + ucast (uf_usec f) * 1000"
      "src_port p = uf_src f" "dst_port p = uf_dst f" "packet_bytes r p = uf_payload f"
    using next_packet_encoded [OF _ data, of pkt] Cons.prems(1,3) by auto
  have same: "packet_bytes ?r x = packet_bytes r x" for x by (simp add: packet_bytes_def)
  obtain ps q where ps: "read_packets m p ?r = Some (ps, q)" "pdata q = pdata r" "poffset q = length (pdata r)"
      "map (\<lambda>p. (timestamp_ns p, src_port p, dst_port p, packet_bytes ?r p)) ps =
       map (\<lambda>f. (ucast (uf_sec f) * 1000000000 + ucast (uf_usec f) * 1000, uf_src f, uf_dst f, uf_payload f)) fs"
    using Cons.IH [of ?r "pre @ encode_record f" m p] Cons.prems(1) data n(2) by auto
  show ?case
    using p ps n(1) unfolding same by simp
qed

text \<open>
  C21. A capture of UDP packets (any ports, any IPv4 options, any non-empty payloads) is read
  back completely and in order: \<open>next_packet\<close> returns the timestamp in nanoseconds, both ports
  and exactly the payload bytes of each packet, and then \<open>false\<close> at the end of the file.
\<close>
theorem pcap_capture_roundtrip:
  assumes "\<forall>f\<in>set fs. valid_frame f" and "length rest = 20" and "length fs < n"
  shows "\<exists>ps q. read_packets n pkt (reader_new (encode_file rest fs)) = Some (ps, q) \<and>
    poffset q = length (encode_file rest fs) \<and> pvalid (reader_new (encode_file rest fs)) \<and>
    map (\<lambda>p. (timestamp_ns p, src_port p, dst_port p, packet_bytes q p)) ps =
    map (\<lambda>f. (ucast (uf_sec f) * 1000000000 + ucast (uf_usec f) * 1000, uf_src f, uf_dst f, uf_payload f)) fs"
proof -
  let ?d = "encode_file rest fs"
  let ?pre = "le_bytes 4 (0xa1b2c3d4 :: u32) @ rest"
  have "magic_number (decode_file_header (take 24 ?d)) = 0xa1b2c3d4"
    using assms(2) by (simp add: decode_file_header_def encode_file_def fld_def le_le_bytes_full)
  then have r: "pdata (reader_new ?d) = ?d" "poffset (reader_new ?d) = 24" "pvalid (reader_new ?d)"
    using assms(2) by (simp_all add: reader_new_def Let_def encode_file_def)
  have "pdata (reader_new ?d) = ?pre @ concat (map encode_record fs)"
    and "poffset (reader_new ?d) = length ?pre"
    using r assms(2) by (simp_all add: encode_file_def)
  from read_packets_encoded [OF assms(1) this assms(3), of pkt] obtain ps q where
      "read_packets n pkt (reader_new ?d) = Some (ps, q)" "pdata q = ?d" "poffset q = length ?d"
      "map (\<lambda>p. (timestamp_ns p, src_port p, dst_port p, packet_bytes (reader_new ?d) p)) ps =
       map (\<lambda>f. (ucast (uf_sec f) * 1000000000 + ucast (uf_usec f) * 1000, uf_src f, uf_dst f, uf_payload f)) fs"
    using r(1) by auto
  then show ?thesis using r by (simp add: packet_bytes_def)
qed

text \<open>
  What a client cannot tell apart: a packet that is not UDP makes \<open>next_packet\<close> return \<open>false\<close>
  like the end of the file, although the packets after it can still be read; and an IPv4
  header length below five words is not rejected, so the ports are read out of the IP header.
\<close>

definition sample_frame :: udp_frame where
  "sample_frame =
     \<lparr>uf_sec = 1, uf_usec = 2, uf_orig = 45, uf_macs = replicate 12 0, uf_version_ihl = 0x45,
      uf_ip1 = replicate 8 0, uf_ip2 = replicate 10 0, uf_options = [], uf_src = 26400, uf_dst = 26477,
      uf_udp = replicate 4 0, uf_payload = [1, 2, 3]\<rparr>"

lemma sample_frame_valid: "valid_frame sample_frame"
  by (simp add: valid_frame_def sample_frame_def encode_frame_def)

definition blank_packet :: packet where
  "blank_packet = \<lparr>timestamp_ns = 0, payload = 0, payload_size = 0, src_port = 0, dst_port = 0\<rparr>"

lemma pcap_ihl_below_five:
  "map_option fst (parse_headers (encode_frame (sample_frame\<lparr>uf_version_ihl := 0x40\<rparr>)) 0 45 blank_packet) =
     Some True"
  by code_simp

subsection \<open>Witnesses\<close>

theorem pcap_capture_roundtrip_witness:
  "\<exists>pkt ps q. read_packets 3 pkt (reader_new (encode_file (replicate 20 0) [sample_frame, sample_frame])) = Some (ps, q) \<and>
     map (packet_bytes q) ps = [[1, 2, 3], [1, 2, 3]] \<and> map dst_port ps = [26477, 26477] \<and>
     map timestamp_ns ps = [1000002000, 1000002000]"
proof -
  let ?pkt = blank_packet
  have "\<forall>f\<in>set [sample_frame, sample_frame]. valid_frame f" by (simp add: sample_frame_valid)
  from pcap_capture_roundtrip [OF this, of "replicate 20 0" 3 ?pkt] obtain ps q where
      r: "read_packets 3 ?pkt (reader_new (encode_file (replicate 20 0) [sample_frame, sample_frame])) = Some (ps, q)"
      "map (\<lambda>p. (timestamp_ns p, src_port p, dst_port p, packet_bytes q p)) ps =
       map (\<lambda>f. (ucast (uf_sec f) * 1000000000 + ucast (uf_usec f) * 1000, uf_src f, uf_dst f, uf_payload f))
         [sample_frame, sample_frame]"
    by auto
  then have "map (packet_bytes q) ps = [[1, 2, 3], [1, 2, 3]]" and "map dst_port ps = [26477, 26477]"
      and "map timestamp_ns ps = [1000002000, 1000002000]"
    by (auto simp: sample_frame_def)
  with r(1) show ?thesis by (intro exI conjI)
qed

end
