(* ===== verification/Fifo.thy ===== *)
theory Fifo
  imports Prelude
begin

text \<open>
  What the clients of the queues rely on. \<open>fifo\<close> is the contract of a queue run by one thread
  at a time: an enqueue is accepted while there is room and appends, a dequeue takes the
  oldest element. The result type is an \<open>option\<close> because an operation may touch memory it does
  not own: \<open>None\<close> is undefined behaviour, and part of the contract is that it does not occur.
\<close>

datatype 'a queue_op = Enq 'a | Deq

datatype 'a queue_out = Accepted 'a | Refused 'a | Got 'a | Nothing

fun accepted :: "'a queue_out list \<Rightarrow> 'a list" where
  "accepted [] = []"
| "accepted (Accepted x # os) = x # accepted os"
| "accepted (_ # os) = accepted os"

fun got :: "'a queue_out list \<Rightarrow> 'a list" where
  "got [] = []"
| "got (Got x # os) = x # got os"
| "got (_ # os) = got os"

fun queue_run ::
  "('a \<Rightarrow> 'q \<Rightarrow> (bool \<times> 'q) option) \<Rightarrow> ('q \<Rightarrow> ('a option \<times> 'q) option) \<Rightarrow>
   'a queue_op list \<Rightarrow> 'q \<Rightarrow> ('a queue_out list \<times> 'q) option" where
  "queue_run enq deq [] q = Some ([], q)"
| "queue_run enq deq (Enq x # ops) q =
     (case enq x q of
        None \<Rightarrow> None
      | Some (b, q') \<Rightarrow>
          map_option (\<lambda>(os, r). ((if b then Accepted x else Refused x) # os, r))
            (queue_run enq deq ops q'))"
| "queue_run enq deq (Deq # ops) q =
     (case deq q of
        None \<Rightarrow> None
      | Some (r, q') \<Rightarrow>
          map_option (\<lambda>(os, s). ((case r of None \<Rightarrow> Nothing | Some x \<Rightarrow> Got x) # os, s))
            (queue_run enq deq ops q'))"

text \<open>The specification: a list with at most \<open>bound\<close> elements, if there is a bound.\<close>

definition room_in :: "nat option \<Rightarrow> 'a list \<Rightarrow> bool" where
  "room_in bound xs \<longleftrightarrow> (case bound of None \<Rightarrow> True | Some n \<Rightarrow> length xs < n)"

fun spec_run :: "nat option \<Rightarrow> 'a queue_op list \<Rightarrow> 'a list \<Rightarrow> 'a queue_out list \<times> 'a list" where
  "spec_run bound [] xs = ([], xs)"
| "spec_run bound (Enq x # ops) xs =
     (if room_in bound xs
      then (case spec_run bound ops (xs @ [x]) of (os, ys) \<Rightarrow> (Accepted x # os, ys))
      else (case spec_run bound ops xs of (os, ys) \<Rightarrow> (Refused x # os, ys)))"
| "spec_run bound (Deq # ops) [] =
     (case spec_run bound ops [] of (os, ys) \<Rightarrow> (Nothing # os, ys))"
| "spec_run bound (Deq # ops) (x # xs) =
     (case spec_run bound ops xs of (os, ys) \<Rightarrow> (Got x # os, ys))"

lemma spec_run_fifo:
  "spec_run bound ops xs = (os, ys) \<Longrightarrow> xs @ accepted os = got os @ ys"
proof (induction bound ops xs arbitrary: os ys rule: spec_run.induct)
  case (2 bound x ops xs)
  then show ?case by (fastforce split: if_splits prod.splits)
qed (auto split: prod.splits)

lemma spec_run_bounded:
  "spec_run (Some n) ops xs = (os, ys) \<Longrightarrow> length xs \<le> n \<Longrightarrow> length ys \<le> n"
  by (induction "Some n" ops xs arbitrary: os ys rule: spec_run.induct)
    (auto simp: room_in_def split: if_splits prod.splits)

locale fifo =
  fixes enq :: "'a \<Rightarrow> 'q \<Rightarrow> (bool \<times> 'q) option"
    and deq :: "'q \<Rightarrow> ('a option \<times> 'q) option"
    and contents :: "'q \<Rightarrow> 'a list"
    and ok :: "'q \<Rightarrow> bool"
    and bound :: "nat option"
  assumes enq_room: "ok q \<Longrightarrow> room_in bound (contents q) \<Longrightarrow>
      \<exists>r. enq x q = Some (True, r) \<and> ok r \<and> contents r = contents q @ [x]"
    and enq_full: "ok q \<Longrightarrow> \<not> room_in bound (contents q) \<Longrightarrow> enq x q = Some (False, q)"
    and deq_empty: "ok q \<Longrightarrow> contents q = [] \<Longrightarrow> deq q = Some (None, q)"
    and deq_cons: "ok q \<Longrightarrow> contents q = x # xs \<Longrightarrow>
      \<exists>r. deq q = Some (Some x, r) \<and> ok r \<and> contents r = xs"
begin

text \<open>Every run of operations is defined and answers like the list.\<close>

lemma run_refines:
  assumes "ok q"
  shows "\<exists>r. queue_run enq deq ops q = Some (fst (spec_run bound ops (contents q)), r) \<and> ok r \<and>
    contents r = snd (spec_run bound ops (contents q))"
  using assms
proof (induction ops arbitrary: q)
  case (Cons op ops)
  show ?case
  proof (cases op)
    case (Enq x)
    show ?thesis
    proof (cases "room_in bound (contents q)")
      case True
      with Enq Cons enq_room [OF Cons.prems, of x] show ?thesis
        by (fastforce split: prod.splits)
    next
      case False
      with Enq Cons enq_full [OF Cons.prems, of x] show ?thesis
        by (fastforce split: prod.splits)
    qed
  next
    case Deq
    show ?thesis
    proof (cases "contents q")
      case Nil
      with Deq Cons deq_empty [OF Cons.prems] show ?thesis
        by (fastforce split: prod.splits)
    next
      case (Cons y ys)
      with Deq Cons.IH Cons.prems deq_cons [OF Cons.prems, of y ys] show ?thesis
        by (fastforce split: prod.splits)
    qed
  qed
qed simp

lemma run_fifo:
  assumes "ok q" and "queue_run enq deq ops q = Some (os, r)"
  shows "contents q @ accepted os = got os @ contents r"
  using run_refines [OF assms(1), of ops] assms(2) spec_run_fifo [of bound ops "contents q" os "contents r"]
  by (cases "spec_run bound ops (contents q)") auto

end

end
