(* ===== verification/Spsc.thy ===== *)
theory Spsc
  imports Fifo
begin

text \<open>
  \<open>SPSCQueue\<close> of \<open>include/lock_free_queue.hpp\<close>: a ring of nodes, each with a 64-bit sequence
  number that says who may touch its data. First the ring itself, then the operations run by
  one thread at a time, then the producer and the consumer interleaved step by step.
  \<open>aligned_alloc\<close> is assumed to succeed. A moved-from element keeps its value in the model; the
  queue never reads it again before overwriting it.
\<close>

subsection \<open>The ring\<close>

text \<open>
  \<open>ring_at k t i\<close> is the slot of the \<open>i\<close>-th element after the consumer's position \<open>t\<close> in a ring of
  \<open>2 ^ k\<close> slots. \<open>ring_ok\<close> says what the sequence numbers are when \<open>n\<close> elements are queued.
\<close>

definition ring_at :: "nat \<Rightarrow> u64 \<Rightarrow> nat \<Rightarrow> nat" where
  "ring_at k t i = (unat t + i) mod 2 ^ k"

definition ring_ok :: "nat \<Rightarrow> u64 \<Rightarrow> nat \<Rightarrow> u64 list \<Rightarrow> bool" where
  "ring_ok k t n s \<longleftrightarrow> length s = 2 ^ k \<and> n \<le> 2 ^ k \<and>
     (\<forall>i<2 ^ k. s ! ring_at k t i = t + of_nat i + (if i < n then 1 else 0))"

definition ring_data :: "nat \<Rightarrow> u64 \<Rightarrow> nat \<Rightarrow> 'a list \<Rightarrow> 'a list" where
  "ring_data k t n d = map (\<lambda>i. d ! ring_at k t i) [0..<n]"

lemma ring_at_less [simp]: "ring_at k t i < 2 ^ k"
  by (simp add: ring_at_def)

lemma unat_plus_mod:
  assumes "k \<le> 64"
  shows "unat (t + of_nat i :: u64) mod 2 ^ k = (unat t + i) mod 2 ^ k"
proof -
  have "(2::nat) ^ k dvd 2 ^ 64" using assms by (rule le_imp_power_dvd)
  then show ?thesis
    by (simp add: unat_word_ariths unat_of_nat mod_mod_cancel take_bit_eq_mod)
      (metis mod_add_right_eq mod_mod_cancel)
qed

lemma ring_at_plus:
  assumes "k \<le> 64"
  shows "ring_at k (t + of_nat j) i = ring_at k t (j + i)"
proof -
  have "(unat (t + of_nat j) + i) mod 2 ^ k = (unat (t + of_nat j) mod 2 ^ k + i) mod 2 ^ k"
    by (simp only: mod_add_left_eq)
  also have "\<dots> = (unat t + j + i) mod 2 ^ k"
    by (simp only: unat_plus_mod [OF assms] mod_add_left_eq)
  finally show ?thesis by (simp add: ring_at_def add.assoc)
qed

lemma ring_at_1: "k \<le> 64 \<Longrightarrow> ring_at k (t + 1) i = ring_at k t (Suc i)"
  using ring_at_plus [of k t 1 i] by simp

lemma ring_at_full [simp]: "ring_at k t (2 ^ k) = ring_at k t 0"
  by (simp add: ring_at_def)

lemma ring_at_inj:
  assumes "i < 2 ^ k" and "j < 2 ^ k" and "ring_at k t i = ring_at k t j"
  shows "i = j"
proof -
  have *: "a = b" if "a \<le> b" "b < 2 ^ k" "ring_at k t a = ring_at k t b" for a b
  proof -
    have "2 ^ k dvd (unat t + b) - (unat t + a)"
      using that(1,3) by (subst mod_eq_dvd_iff_nat [symmetric]) (auto simp: ring_at_def)
    then have "2 ^ k dvd b - a" by simp
    moreover have "b - a < 2 ^ k" using that(2) by simp
    ultimately show ?thesis using that(1) by (metis dvd_imp_le leD le_antisym diff_is_0_eq neq0_conv)
  qed
  show ?thesis using * [of i j] * [of j i] assms by (metis nat_le_linear)
qed

lemma ring_at_eq_iff [simp]:
  "i < 2 ^ k \<Longrightarrow> j < 2 ^ k \<Longrightarrow> ring_at k t i = ring_at k t j \<longleftrightarrow> i = j"
  using ring_at_inj by blast

lemma ring_slot_free:
  assumes "ring_ok k t n s" and "n < 2 ^ k"
  shows "s ! ring_at k t n = t + of_nat n"
  using assms by (simp add: ring_ok_def)

lemma ring_slot_busy:
  assumes "ring_ok k t (2 ^ k) s"
  shows "s ! ring_at k t (2 ^ k) = t + 1"
  using assms by (simp add: ring_ok_def)

lemma ring_slot_first:
  assumes "ring_ok k t n s"
  shows "s ! ring_at k t 0 = (if 0 < n then t + 1 else t)"
  using assms unfolding ring_ok_def by auto

lemma ring_push:
  assumes "ring_ok k t n s" and "n < 2 ^ k"
  shows "ring_ok k t (Suc n) (s[ring_at k t n := t + of_nat n + 1])"
  using assms by (auto simp: ring_ok_def nth_list_update)

lemma ring_pop:
  assumes "ring_ok k t (Suc n) s" and "k \<le> 64"
  shows "ring_ok k (t + 1) n (s[ring_at k t 0 := t + 2 ^ k])"
proof -
  have "s[ring_at k t 0 := t + 2 ^ k] ! ring_at k (t + 1) i = t + 1 + of_nat i + (if i < n then 1 else 0)"
    if "i < 2 ^ k" for i
  proof (cases "Suc i < 2 ^ k")
    case True
    then have "ring_at k t 0 \<noteq> ring_at k t (Suc i)" by simp
    then show ?thesis
      using assms True by (auto simp: ring_ok_def ring_at_1)
  next
    case False
    with that have i: "Suc i = 2 ^ k" by simp
    then have "(of_nat (Suc i) :: u64) = 2 ^ k" by simp
    then have "1 + of_nat i = (2 ^ k :: u64)" by simp
    moreover have "n \<le> i" using assms(1) i by (simp add: ring_ok_def)
    moreover have "ring_at k (t + 1) i = ring_at k t 0" using assms(2) i by (simp add: ring_at_1)
    ultimately show ?thesis
      using assms(1) by (simp add: ring_ok_def add.assoc)
  qed
  with assms show ?thesis by (simp add: ring_ok_def)
qed

lemma ring_data_push:
  assumes "n < 2 ^ k" and "length d = 2 ^ k"
  shows "ring_data k t (Suc n) (d[ring_at k t n := x]) = ring_data k t n d @ [x]"
  using assms by (auto simp: ring_data_def)

lemma ring_data_write:
  assumes "n < 2 ^ k" and "length d = 2 ^ k"
  shows "ring_data k t n (d[ring_at k t n := x]) = ring_data k t n d"
  using assms by (auto simp: ring_data_def)

lemma ring_data_Suc: "ring_data k t (Suc n) d = ring_data k t n d @ [d ! ring_at k t n]"
  by (simp add: ring_data_def)

lemma ring_data_pop:
  assumes "k \<le> 64"
  shows "ring_data k t (Suc n) d = d ! ring_at k t 0 # ring_data k (t + 1) n d"
  using assms by (simp add: ring_data_def ring_at_1 upt_conv_Cons map_Suc_upt [symmetric] del: upt_Suc)

lemma ring_data_0 [simp]: "ring_data k t 0 d = []"
  by (simp add: ring_data_def)

lemma length_ring_data [simp]: "length (ring_data k t n d) = n"
  by (simp add: ring_data_def)

subsection \<open>The operations\<close>

record 'a spsc =
  head_pos :: u64
  tail_pos :: u64
  capacity :: u64
  mask_bits :: u64
  sequences :: "u64 list"
  node_data :: "'a list"

datatype queue_error = Invalid_argument

text \<open>\<open>d\<close> is the value of a default-constructed element.\<close>

definition spsc_new :: "'a \<Rightarrow> u64 \<Rightarrow> queue_error + 'a spsc" where
  "spsc_new d c =
     (if c AND (c - 1) \<noteq> 0 then Inl Invalid_argument
      else Inr \<lparr>head_pos = 0, tail_pos = 0, capacity = c, mask_bits = c - 1,
                sequences = map of_nat [0..<unat c], node_data = replicate (unat c) d\<rparr>)"

definition slot :: "u64 \<Rightarrow> 'a spsc \<Rightarrow> nat" where
  "slot w q = unat (w AND mask_bits q)"

text \<open>
  A step outside the allocated nodes is undefined behaviour: the value \<open>None\<close>. The copying and
  the moving overload of \<open>try_push\<close> have the same body.
\<close>

definition try_push :: "'a \<Rightarrow> 'a spsc \<Rightarrow> (bool \<times> 'a spsc) option" where
  "try_push item q =
     (let head = head_pos q; i = slot head q
      in if i < length (sequences q) then
           (if sequences q ! i \<noteq> head then Some (False, q)
            else Some (True, q\<lparr>node_data := (node_data q)[i := item],
                              sequences := (sequences q)[i := head + 1], head_pos := head + 1\<rparr>))
         else None)"

definition try_pop :: "'a spsc \<Rightarrow> ('a option \<times> 'a spsc) option" where
  "try_pop q =
     (let tail = tail_pos q; i = slot tail q
      in if i < length (sequences q) then
           (if sequences q ! i \<noteq> tail + 1 then Some (None, q)
            else Some (Some (node_data q ! i),
                   q\<lparr>sequences := (sequences q)[i := tail + capacity q], tail_pos := tail + 1\<rparr>))
         else None)"

definition spsc_size :: "'a spsc \<Rightarrow> u64" where
  "spsc_size q = head_pos q - tail_pos q"

definition spsc_empty :: "'a spsc \<Rightarrow> bool" where
  "spsc_empty q \<longleftrightarrow> spsc_size q = 0"

subsection \<open>One thread at a time\<close>

text \<open>The parts that no operation changes, for a ring of \<open>2 ^ k\<close> nodes.\<close>

definition geometry :: "nat \<Rightarrow> 'a spsc \<Rightarrow> bool" where
  "geometry k q \<longleftrightarrow> 1 \<le> k \<and> k < 64 \<and> capacity q = 2 ^ k \<and> mask_bits q = 2 ^ k - 1 \<and>
     length (sequences q) = 2 ^ k \<and> length (node_data q) = 2 ^ k"

definition spsc_ok :: "nat \<Rightarrow> 'a spsc \<Rightarrow> bool" where
  "spsc_ok k q \<longleftrightarrow> geometry k q \<and>
     (\<exists>n. head_pos q = tail_pos q + of_nat n \<and> ring_ok k (tail_pos q) n (sequences q))"

definition spsc_contents :: "nat \<Rightarrow> 'a spsc \<Rightarrow> 'a list" where
  "spsc_contents k q = ring_data k (tail_pos q) (unat (head_pos q - tail_pos q)) (node_data q)"

lemma slot_ring: "geometry k q \<Longrightarrow> slot (t + of_nat i) q = ring_at k t i"
  using unat_plus_mod [of k t i]
  by (simp add: geometry_def slot_def ring_at_def mask_eq_exp_minus_1 [symmetric] take_bit_eq_mask [symmetric]
      unsigned_take_bit_eq take_bit_eq_mod [where 'a = nat])

lemma slot_ring_0: "geometry k q \<Longrightarrow> slot t q = ring_at k t 0"
  using slot_ring [of k q t 0] by simp

lemma small_count:
  assumes "geometry k q" and "n \<le> 2 ^ k"
  shows "unat (of_nat n :: u64) = n"
proof (rule unat_of_nat_small)
  have "(2::nat) ^ k < 2 ^ 64" using assms(1) by (intro power_strict_increasing) (auto simp: geometry_def)
  with assms(2) show "n < 2 ^ LENGTH(64)" by simp
qed

lemma spsc_okE:
  assumes "spsc_ok k q"
  obtains n where "geometry k q" and "head_pos q = tail_pos q + of_nat n"
    and "ring_ok k (tail_pos q) n (sequences q)" and "n \<le> 2 ^ k"
    and "spsc_contents k q = ring_data k (tail_pos q) n (node_data q)"
    and "unat (spsc_size q) = n"
proof -
  from assms obtain n where n: "geometry k q" "head_pos q = tail_pos q + of_nat n"
      "ring_ok k (tail_pos q) n (sequences q)"
    by (auto simp: spsc_ok_def)
  then have le: "n \<le> 2 ^ k" by (simp add: ring_ok_def)
  have "unat (head_pos q - tail_pos q) = n"
    using n(2) small_count [OF n(1) le] by simp
  with n le show ?thesis by (intro that [of n]) (simp_all add: spsc_contents_def spsc_size_def)
qed

lemma spsc_okI:
  assumes "geometry k q" and "head_pos q = tail_pos q + of_nat n"
    and "ring_ok k (tail_pos q) n (sequences q)"
  shows "spsc_ok k q \<and> spsc_contents k q = ring_data k (tail_pos q) n (node_data q)"
proof -
  have "n \<le> 2 ^ k" using assms(3) by (simp add: ring_ok_def)
  then have "unat (head_pos q - tail_pos q) = n"
    using assms(2) small_count [OF assms(1)] by simp
  with assms show ?thesis by (auto simp: spsc_ok_def spsc_contents_def)
qed

lemma two_power_not_1:
  assumes "geometry k q" shows "(2 ^ k :: u64) \<noteq> 1" and "(1::nat) < 2 ^ k"
proof -
  show "(1::nat) < 2 ^ k" using assms one_less_power [of "2::nat" k] by (simp add: geometry_def)
  then have "(of_nat (2 ^ k) :: u64) \<noteq> of_nat 1"
    using small_count [OF assms, of "2 ^ k"] small_count [OF assms, of 1] by (metis less_irrefl order_refl less_imp_le)
  then show "(2 ^ k :: u64) \<noteq> 1" by simp
qed

lemma push_room:
  assumes "spsc_ok k q" and "room_in (Some (2 ^ k)) (spsc_contents k q)"
  shows "\<exists>r. try_push x q = Some (True, r) \<and> spsc_ok k r \<and> spsc_contents k r = spsc_contents k q @ [x]"
proof -
  obtain n where n: "geometry k q" "head_pos q = tail_pos q + of_nat n"
      "ring_ok k (tail_pos q) n (sequences q)"
      "spsc_contents k q = ring_data k (tail_pos q) n (node_data q)"
    using assms(1) by (rule spsc_okE)
  then have less: "n < 2 ^ k" using assms(2) by (simp add: room_in_def)
  let ?i = "ring_at k (tail_pos q) n"
  let ?r = "q\<lparr>node_data := (node_data q)[?i := x], sequences := (sequences q)[?i := head_pos q + 1],
              head_pos := head_pos q + 1\<rparr>"
  have "try_push x q = Some (True, ?r)"
    using n less ring_slot_free [OF n(3) less]
    by (simp add: try_push_def Let_def slot_ring [OF n(1)]) (simp add: geometry_def)
  moreover have "spsc_ok k ?r \<and> spsc_contents k ?r = ring_data k (tail_pos q) (Suc n) ((node_data q)[?i := x])"
    using spsc_okI [of k ?r "Suc n"] n ring_push [OF n(3) less]
    by (simp add: geometry_def ac_simps)
  ultimately show ?thesis
    using n less by (simp add: ring_data_push geometry_def)
qed

lemma push_full:
  assumes "spsc_ok k q" and "\<not> room_in (Some (2 ^ k)) (spsc_contents k q)"
  shows "try_push x q = Some (False, q)"
proof -
  obtain n where n: "geometry k q" "head_pos q = tail_pos q + of_nat n"
      "ring_ok k (tail_pos q) n (sequences q)" "n \<le> 2 ^ k"
      "spsc_contents k q = ring_data k (tail_pos q) n (node_data q)"
    using assms(1) by (rule spsc_okE)
  then have [simp]: "n = 2 ^ k" using assms(2) by (simp add: room_in_def)
  have "slot (head_pos q) q = ring_at k (tail_pos q) (2 ^ k)"
    using slot_ring [OF n(1), of "tail_pos q" "2 ^ k"] n(2) by simp
  then show ?thesis
    using n two_power_not_1(1) [OF n(1)] ring_slot_busy [of k "tail_pos q" "sequences q"]
    by (simp add: try_push_def Let_def) (simp add: geometry_def)
qed

lemma pop_empty:
  assumes "spsc_ok k q" and "spsc_contents k q = []"
  shows "try_pop q = Some (None, q)"
proof -
  obtain n where n: "geometry k q" "ring_ok k (tail_pos q) n (sequences q)"
      "spsc_contents k q = ring_data k (tail_pos q) n (node_data q)"
    using assms(1) by (rule spsc_okE)
  then have "n = 0" using assms(2) by (metis length_ring_data list.size(3))
  then show ?thesis
    using n ring_slot_first [OF n(2)]
    by (simp add: try_pop_def Let_def slot_ring_0 [OF n(1)]) (simp add: geometry_def)
qed

lemma pop_cons:
  assumes "spsc_ok k q" and "spsc_contents k q = x # xs"
  shows "\<exists>r. try_pop q = Some (Some x, r) \<and> spsc_ok k r \<and> spsc_contents k r = xs"
proof -
  obtain n where n: "geometry k q" "head_pos q = tail_pos q + of_nat n"
      "ring_ok k (tail_pos q) n (sequences q)"
      "spsc_contents k q = ring_data k (tail_pos q) n (node_data q)"
    using assms(1) by (rule spsc_okE)
  then obtain j where j: "n = Suc j" using assms(2) by (cases n) auto
  have k: "k \<le> 64" using n(1) by (simp add: geometry_def)
  let ?i = "ring_at k (tail_pos q) 0"
  let ?r = "q\<lparr>sequences := (sequences q)[?i := tail_pos q + capacity q], tail_pos := tail_pos q + 1\<rparr>"
  have x: "node_data q ! ?i = x" "ring_data k (tail_pos q + 1) j (node_data q) = xs"
    using assms(2) n(4) by (simp_all add: j ring_data_pop [OF k])
  have "try_pop q = Some (Some x, ?r)"
    using n j x ring_slot_first [OF n(3)]
    by (simp add: try_pop_def Let_def slot_ring_0 [OF n(1)]) (simp add: geometry_def)
  moreover have "spsc_ok k ?r \<and> spsc_contents k ?r = ring_data k (tail_pos q + 1) j (node_data q)"
    using spsc_okI [of k ?r j] n ring_pop [of k "tail_pos q" j "sequences q"] k
    by (simp add: geometry_def j ac_simps)
  ultimately show ?thesis using x by blast
qed

interpretation spsc: fifo try_push try_pop "spsc_contents k" "spsc_ok k" "Some (2 ^ k)" for k
  by unfold_locales (simp_all add: push_room push_full pop_empty pop_cons)

lemma spsc_new_ok:
  assumes "1 \<le> k" and "k < 64"
  shows "\<exists>q. spsc_new d (2 ^ k) = Inr q \<and> spsc_ok k q \<and> spsc_contents k q = [] \<and> geometry k q \<and>
    head_pos q = 0 \<and> tail_pos q = 0 \<and> ring_ok k 0 0 (sequences q)"
proof -
  have "(2::nat) ^ k < 2 ^ 64" using assms by (intro power_strict_increasing) auto
  then have u: "unat (2 ^ k :: u64) = 2 ^ k"
    using unat_of_nat_small [where 'n = 64, of "2 ^ k"] by simp
  have pow: "(2 ^ k :: u64) AND (2 ^ k - 1) = 0"
    by (rule bit_word_eqI) (auto simp: bit_and_iff bit_mask_iff bit_exp_iff mask_eq_exp_minus_1 [symmetric])
  let ?q = "\<lparr>head_pos = 0, tail_pos = 0, capacity = 2 ^ k, mask_bits = 2 ^ k - 1,
    sequences = map of_nat [0..<unat (2 ^ k :: u64)], node_data = replicate (unat (2 ^ k :: u64)) d\<rparr>"
  have "ring_ok k 0 0 (sequences ?q)" by (simp add: ring_ok_def ring_at_def u)
  moreover have "geometry k ?q" using assms by (simp add: geometry_def u)
  ultimately show ?thesis
    using spsc_okI [of k ?q 0] pow by (intro exI [of _ ?q]) (simp add: spsc_new_def)
qed


subsection \<open>Producer and consumer interleaved\<close>

text \<open>
  The program counters between the atomic accesses of \<open>try_push\<close> and \<open>try_pop\<close>, with the locals
  read so far. One step is one access to shared memory. The release store of a sequence number
  and the acquire load that reads it are what orders the accesses to the node's data, so the
  interleaving of the accesses is what the two threads can observe; that no two accesses to
  one node's data can meet is proved below.
\<close>

datatype 'a producer =
  P_Idle | P_Head 'a u64 | P_Write 'a u64 | P_Publish 'a u64 | P_Advance u64

datatype 'a consumer =
  C_Idle | C_Tail u64 | C_Read u64 | C_Release u64 'a | C_Advance u64 'a

text \<open>\<open>sent\<close> are the published elements, \<open>received\<close> the results returned, both ghost.\<close>

record 'a channel =
  ring :: "'a spsc"
  prod :: "'a producer"
  cons :: "'a consumer"
  sent :: "'a list"
  received :: "'a list"

definition channel_new :: "'a spsc \<Rightarrow> 'a channel" where
  "channel_new q = \<lparr>ring = q, prod = P_Idle, cons = C_Idle, sent = [], received = []\<rparr>"

definition write_data :: "nat \<Rightarrow> 'a \<Rightarrow> 'a spsc \<Rightarrow> 'a spsc" where
  "write_data i x q = q\<lparr>node_data := (node_data q)[i := x]\<rparr>"

definition write_seq :: "nat \<Rightarrow> u64 \<Rightarrow> 'a spsc \<Rightarrow> 'a spsc" where
  "write_seq i w q = q\<lparr>sequences := (sequences q)[i := w]\<rparr>"

inductive spsc_step :: "'a channel \<Rightarrow> 'a channel \<Rightarrow> bool" where
  push_call: "prod c = P_Idle \<Longrightarrow> spsc_step c (c\<lparr>prod := P_Head x (head_pos (ring c))\<rparr>)"
| push_refuse: "prod c = P_Head x h \<Longrightarrow> sequences (ring c) ! slot h (ring c) \<noteq> h \<Longrightarrow>
    spsc_step c (c\<lparr>prod := P_Idle\<rparr>)"
| push_claim: "prod c = P_Head x h \<Longrightarrow> sequences (ring c) ! slot h (ring c) = h \<Longrightarrow>
    spsc_step c (c\<lparr>prod := P_Write x h\<rparr>)"
| push_write: "prod c = P_Write x h \<Longrightarrow>
    spsc_step c (c\<lparr>ring := write_data (slot h (ring c)) x (ring c), prod := P_Publish x h\<rparr>)"
| push_publish: "prod c = P_Publish x h \<Longrightarrow>
    spsc_step c (c\<lparr>ring := write_seq (slot h (ring c)) (h + 1) (ring c), prod := P_Advance h,
                   sent := sent c @ [x]\<rparr>)"
| push_advance: "prod c = P_Advance h \<Longrightarrow>
    spsc_step c (c\<lparr>ring := (ring c)\<lparr>head_pos := h + 1\<rparr>, prod := P_Idle\<rparr>)"
| pop_call: "cons c = C_Idle \<Longrightarrow> spsc_step c (c\<lparr>cons := C_Tail (tail_pos (ring c))\<rparr>)"
| pop_none: "cons c = C_Tail t \<Longrightarrow> sequences (ring c) ! slot t (ring c) \<noteq> t + 1 \<Longrightarrow>
    spsc_step c (c\<lparr>cons := C_Idle\<rparr>)"
| pop_claim: "cons c = C_Tail t \<Longrightarrow> sequences (ring c) ! slot t (ring c) = t + 1 \<Longrightarrow>
    spsc_step c (c\<lparr>cons := C_Read t\<rparr>)"
| pop_read: "cons c = C_Read t \<Longrightarrow>
    spsc_step c (c\<lparr>cons := C_Release t (node_data (ring c) ! slot t (ring c))\<rparr>)"
| pop_release: "cons c = C_Release t x \<Longrightarrow>
    spsc_step c (c\<lparr>ring := write_seq (slot t (ring c)) (t + capacity (ring c)) (ring c),
                   cons := C_Advance t x\<rparr>)"
| pop_advance: "cons c = C_Advance t x \<Longrightarrow>
    spsc_step c (c\<lparr>ring := (ring c)\<lparr>tail_pos := t + 1\<rparr>, cons := C_Idle,
                   received := received c @ [x]\<rparr>)"

inductive_simps spsc_step_simps: "spsc_step c c'"

text \<open>
  Between the store of a sequence number and the store of the position, the position lags.
\<close>

definition eff_head :: "'a channel \<Rightarrow> u64" where
  "eff_head c = (case prod c of P_Advance h \<Rightarrow> h + 1 | _ \<Rightarrow> head_pos (ring c))"

definition eff_tail :: "'a channel \<Rightarrow> u64" where
  "eff_tail c = (case cons c of C_Advance t x \<Rightarrow> t + 1 | _ \<Rightarrow> tail_pos (ring c))"

definition in_hand :: "'a channel \<Rightarrow> 'a list" where
  "in_hand c = (case cons c of C_Advance t x \<Rightarrow> [x] | _ \<Rightarrow> [])"

definition prod_ok :: "nat \<Rightarrow> nat \<Rightarrow> 'a channel \<Rightarrow> bool" where
  "prod_ok k n c \<longleftrightarrow>
     (case prod c of
        P_Idle \<Rightarrow> True
      | P_Head x h \<Rightarrow> h = head_pos (ring c)
      | P_Write x h \<Rightarrow> h = head_pos (ring c) \<and> n < 2 ^ k
      | P_Publish x h \<Rightarrow> h = head_pos (ring c) \<and> n < 2 ^ k \<and>
          node_data (ring c) ! slot h (ring c) = x
      | P_Advance h \<Rightarrow> h = head_pos (ring c))"

definition cons_ok :: "nat \<Rightarrow> 'a channel \<Rightarrow> bool" where
  "cons_ok n c \<longleftrightarrow>
     (case cons c of
        C_Idle \<Rightarrow> True
      | C_Tail t \<Rightarrow> t = tail_pos (ring c)
      | C_Read t \<Rightarrow> t = tail_pos (ring c) \<and> 0 < n
      | C_Release t x \<Rightarrow> t = tail_pos (ring c) \<and> 0 < n \<and>
          node_data (ring c) ! slot t (ring c) = x
      | C_Advance t x \<Rightarrow> t = tail_pos (ring c))"

definition channel_at :: "nat \<Rightarrow> nat \<Rightarrow> 'a channel \<Rightarrow> bool" where
  "channel_at k n c \<longleftrightarrow> geometry k (ring c) \<and> eff_head c = eff_tail c + of_nat n \<and>
     ring_ok k (eff_tail c) n (sequences (ring c)) \<and>
     sent c = received c @ in_hand c @ ring_data k (eff_tail c) n (node_data (ring c)) \<and>
     prod_ok k n c \<and> cons_ok n c"

definition channel_ok :: "nat \<Rightarrow> 'a channel \<Rightarrow> bool" where
  "channel_ok k c \<longleftrightarrow> (\<exists>n. channel_at k n c)"

lemmas pc_defs = eff_head_def eff_tail_def in_hand_def prod_ok_def cons_ok_def

lemma geometry_updates [simp]:
  "geometry k (write_data i x q) = geometry k q" "geometry k (write_seq i w q) = geometry k q"
  "geometry k (q\<lparr>head_pos := h\<rparr>) = geometry k q" "geometry k (q\<lparr>tail_pos := h\<rparr>) = geometry k q"
  by (simp_all add: geometry_def write_data_def write_seq_def)

lemma slot_updates [simp]:
  "slot w (write_data i x q) = slot w q" "slot w (write_seq i v q) = slot w q"
  "slot w (q\<lparr>head_pos := h\<rparr>) = slot w q" "slot w (q\<lparr>tail_pos := h\<rparr>) = slot w q"
  by (simp_all add: slot_def write_data_def write_seq_def)

lemma write_selects [simp]:
  "sequences (write_data i x q) = sequences q" "head_pos (write_data i x q) = head_pos q"
  "tail_pos (write_data i x q) = tail_pos q" "node_data (write_data i x q) = (node_data q)[i := x]"
  "sequences (write_seq i w q) = (sequences q)[i := w]" "head_pos (write_seq i w q) = head_pos q"
  "tail_pos (write_seq i w q) = tail_pos q" "node_data (write_seq i w q) = node_data q"
  by (simp_all add: write_data_def write_seq_def)

lemma channel_slots:
  assumes "channel_at k n c"
  shows "slot (eff_tail c) (ring c) = ring_at k (eff_tail c) 0"
    and "slot (eff_head c) (ring c) = ring_at k (eff_tail c) n"
    and "n \<le> 2 ^ k" and "length (node_data (ring c)) = 2 ^ k" and "k \<le> 64"
    and "capacity (ring c) = 2 ^ k"
  using assms slot_ring [of k "ring c"] slot_ring_0 [of k "ring c"]
  by (auto simp: channel_at_def ring_ok_def geometry_def)

lemma channel_claim_push:
  assumes "channel_at k n c" and "sequences (ring c) ! slot (eff_head c) (ring c) = eff_head c"
  shows "n < 2 ^ k"
proof (rule ccontr)
  assume "\<not> n < 2 ^ k"
  with channel_slots(3) [OF assms(1)] have n: "n = 2 ^ k" by simp
  have g: "geometry k (ring c)" and s: "ring_ok k (eff_tail c) n (sequences (ring c))"
    and h: "eff_head c = eff_tail c + of_nat n"
    using assms(1) by (simp_all add: channel_at_def)
  have "eff_tail c + 1 = eff_head c"
    using assms(2) channel_slots(2) [OF assms(1)] ring_slot_busy [of k "eff_tail c" "sequences (ring c)"] s n
    by simp
  then have "(2 ^ k :: u64) = 1" using h n by simp
  with two_power_not_1(1) [OF g] show False by simp
qed

lemma channel_full:
  assumes "channel_at k n c" and "sequences (ring c) ! slot (eff_head c) (ring c) \<noteq> eff_head c"
  shows "n = 2 ^ k"
proof (rule ccontr)
  assume "n \<noteq> 2 ^ k"
  with channel_slots(3) [OF assms(1)] have "n < 2 ^ k" by simp
  then have "sequences (ring c) ! ring_at k (eff_tail c) n = eff_head c"
    using assms(1) ring_slot_free [of k "eff_tail c" n "sequences (ring c)"] by (simp add: channel_at_def)
  with assms(2) channel_slots(2) [OF assms(1)] show False by simp
qed

lemma channel_claim_pop:
  assumes "channel_at k n c"
  shows "sequences (ring c) ! slot (eff_tail c) (ring c) = eff_tail c + 1 \<longleftrightarrow> 0 < n"
  using assms channel_slots(1) [OF assms] ring_slot_first [of k "eff_tail c" n "sequences (ring c)"]
  by (auto simp: channel_at_def)

lemma channel_step:
  assumes "channel_at k n c" and "spsc_step c c'"
  shows "\<exists>m. channel_at k m c'"
  using assms(2)
proof (cases rule: spsc_step.cases)
  case (push_call x)
  then show ?thesis using assms(1) by (auto simp: channel_at_def pc_defs split: consumer.splits)
next
  case (push_refuse x h)
  then show ?thesis using assms(1) by (auto simp: channel_at_def pc_defs split: consumer.splits)
next
  case (push_claim x h)
  then have "n < 2 ^ k"
    using assms(1) by (intro channel_claim_push [OF assms(1)]) (auto simp: channel_at_def pc_defs)
  with push_claim show ?thesis
    using assms(1) by (auto simp: channel_at_def pc_defs split: consumer.splits)
next
  case (push_write x h)
  have n: "n < 2 ^ k" and h: "slot h (ring c) = ring_at k (eff_tail c) n"
    using assms(1) push_write channel_slots(2) [OF assms(1)] by (auto simp: channel_at_def pc_defs)
  have keep: "(node_data (ring c))[slot h (ring c) := x] ! slot (eff_tail c) (ring c) =
      node_data (ring c) ! slot (eff_tail c) (ring c)" if "0 < n"
    using that n h channel_slots(1) [OF assms(1)] by simp
  show ?thesis
    using assms(1) push_write n h keep ring_data_write [OF n channel_slots(4) [OF assms(1)]]
      channel_slots(4) [OF assms(1)]
    by (intro exI [of _ n]) (auto simp: channel_at_def pc_defs split: consumer.splits)
next
  case (push_publish x h)
  have n: "n < 2 ^ k" and h: "slot h (ring c) = ring_at k (eff_tail c) n" "h = eff_tail c + of_nat n"
    and x: "node_data (ring c) ! ring_at k (eff_tail c) n = x"
    using assms(1) push_publish channel_slots(2) [OF assms(1)] by (auto simp: channel_at_def pc_defs)
  have "ring_ok k (eff_tail c) (Suc n) ((sequences (ring c))[slot h (ring c) := h + 1])"
    using ring_push [of k "eff_tail c" n "sequences (ring c)"] n h assms(1) by (simp add: channel_at_def)
  moreover have "eff_tail c' = eff_tail c" "eff_head c' = h + 1" "in_hand c' = in_hand c"
      "received c' = received c"
    unfolding push_publish(1) by (simp_all add: eff_tail_def eff_head_def in_hand_def split: consumer.split)
  moreover have "h = head_pos (ring c)"
    using assms(1) push_publish(2) by (simp add: channel_at_def prod_ok_def)
  then have "prod_ok k (Suc n) c'" unfolding push_publish(1) by (simp add: prod_ok_def)
  moreover have "cons_ok (Suc n) c'"
    using assms(1) push_publish(1) by (auto simp: channel_at_def cons_ok_def split: consumer.splits)
  ultimately have "channel_at k (Suc n) c'"
    using assms(1) push_publish(1) h(2) x by (simp add: channel_at_def ring_data_Suc ac_simps)
  then show ?thesis ..
next
  case (push_advance h)
  then show ?thesis
    using assms(1)
    by (intro exI [of _ n]) (auto simp: channel_at_def pc_defs ac_simps split: consumer.splits)
next
  case pop_call
  then show ?thesis using assms(1) by (auto simp: channel_at_def pc_defs split: producer.splits)
next
  case (pop_none t)
  then show ?thesis using assms(1) by (auto simp: channel_at_def pc_defs split: producer.splits)
next
  case (pop_claim t)
  then have "0 < n"
    using assms(1) channel_claim_pop [OF assms(1)] by (auto simp: channel_at_def pc_defs)
  with pop_claim show ?thesis
    using assms(1) by (auto simp: channel_at_def pc_defs split: producer.splits)
next
  case (pop_read t)
  then show ?thesis using assms(1) by (auto simp: channel_at_def pc_defs split: producer.splits)
next
  case (pop_release t x)
  have t: "eff_tail c = t" "slot t (ring c) = ring_at k t 0" "0 < n" "node_data (ring c) ! ring_at k t 0 = x"
    using assms(1) pop_release channel_slots(1) [OF assms(1)] by (auto simp: channel_at_def pc_defs)
  then obtain j where j: "n = Suc j" by (cases n) auto
  note k = channel_slots(5) [OF assms(1)]
  have "ring_ok k (t + 1) j ((sequences (ring c))[slot t (ring c) := t + 2 ^ k])"
    using ring_pop [of k t j "sequences (ring c)"] k assms(1) t j by (simp add: channel_at_def)
  moreover have "ring_data k t n (node_data (ring c)) = x # ring_data k (t + 1) j (node_data (ring c))"
    using ring_data_pop [OF k, of t j "node_data (ring c)"] t(4) by (simp add: j)
  ultimately show ?thesis
    using assms(1) pop_release t j channel_slots(6) [OF assms(1)]
    by (intro exI [of _ j]) (auto simp: channel_at_def pc_defs split: producer.splits)
next
  case (pop_advance t x)
  then show ?thesis
    using assms(1)
    by (intro exI [of _ n]) (auto simp: channel_at_def pc_defs ac_simps split: producer.splits)
qed

lemma channel_reach:
  assumes "1 \<le> k" and "k < 64" and "spsc_new d (2 ^ k) = Inr q" and "spsc_step\<^sup>*\<^sup>* (channel_new q) c"
  obtains n where "channel_at k n c"
proof -
  have "geometry k q \<and> head_pos q = 0 \<and> tail_pos q = 0 \<and> ring_ok k 0 0 (sequences q)"
    using spsc_new_ok [OF assms(1,2), of d] assms(3) by auto
  then have "channel_at k 0 (channel_new q)"
    by (simp add: channel_at_def channel_new_def pc_defs)
  then have "\<exists>n. channel_at k n c"
    by (rule rtranclp_induct [OF assms(4), where P = "\<lambda>c. \<exists>n. channel_at k n c", OF exI])
      (auto dest: channel_step)
  then show ?thesis using that by blast
qed

text \<open>
  C4. Under every interleaving of one producer and one consumer, the elements returned by
  \<open>try_pop\<close> are a prefix of the elements published by \<open>try_push\<close>, in the same order: nothing is
  lost, duplicated, reordered or made up, and at most \<open>2 ^ k + 1\<close> published elements have not
  been returned yet (one of them in the consumer's hand).
\<close>
theorem spsc_concurrent_fifo:
  assumes "1 \<le> k" and "k < 64" and "spsc_new d (2 ^ k) = Inr q"
    and "spsc_step\<^sup>*\<^sup>* (channel_new q) c"
  shows "\<exists>rest. sent c = received c @ rest \<and> length rest \<le> 2 ^ k + 1"
proof -
  obtain n where n: "channel_at k n c" using assms by (rule channel_reach)
  have "length (in_hand c) \<le> 1" by (simp add: in_hand_def split: consumer.split)
  then show ?thesis
    using n channel_slots(3) [OF n] by (auto simp: channel_at_def)
qed

text \<open>
  The sequence numbers exclude the data race: when the producer is about to write a
  node's data and the consumer is about to read one, they are at different nodes, and both
  are inside the buffer. A push is refused only while \<open>2 ^ k\<close> elements are queued, a pop
  answers \<open>nullopt\<close> only when everything published has been returned.
\<close>
theorem spsc_race_free:
  assumes "1 \<le> k" and "k < 64" and "spsc_new d (2 ^ k) = Inr q"
    and "spsc_step\<^sup>*\<^sup>* (channel_new q) c"
  shows "(prod c = P_Write x h \<and> cons c = C_Read t \<longrightarrow> slot h (ring c) \<noteq> slot t (ring c)) \<and>
    slot w (ring c) < length (node_data (ring c)) \<and>
    (prod c = P_Head x h \<and> sequences (ring c) ! slot h (ring c) \<noteq> h \<longrightarrow>
      length (received c) + 2 ^ k \<le> length (sent c)) \<and>
    (cons c = C_Tail t \<and> sequences (ring c) ! slot t (ring c) \<noteq> t + 1 \<longrightarrow> sent c = received c)"
proof -
  obtain n where n: "channel_at k n c" using assms by (rule channel_reach)
  note slots = channel_slots [OF n]
  have g: "geometry k (ring c)" using n by (simp add: channel_at_def)
  have race: "slot h (ring c) \<noteq> slot t (ring c)" if "prod c = P_Write x h" "cons c = C_Read t"
    using that n slots(1,2) by (auto simp: channel_at_def pc_defs)
  have inside: "slot w (ring c) < length (node_data (ring c))"
    using slots(4) by (simp add: slot_ring_0 [OF g])
  have full: "length (received c) + 2 ^ k \<le> length (sent c)"
    if "prod c = P_Head x h" "sequences (ring c) ! slot h (ring c) \<noteq> h"
  proof -
    have "h = eff_head c" using that(1) n by (simp add: channel_at_def eff_head_def prod_ok_def)
    then have "n = 2 ^ k" using channel_full [OF n] that(2) by simp
    then show ?thesis using n by (simp add: channel_at_def)
  qed
  have none: "sent c = received c"
    if "cons c = C_Tail t" "sequences (ring c) ! slot t (ring c) \<noteq> t + 1"
  proof -
    have "t = eff_tail c" using that(1) n by (simp add: channel_at_def eff_tail_def cons_ok_def)
    then have "n = 0" using channel_claim_pop [OF n] that(2) by simp
    then show ?thesis using that(1) n by (simp add: channel_at_def in_hand_def)
  qed
  from race inside full none show ?thesis by blast
qed

subsection \<open>Outside the contract\<close>

text \<open>
  The constructor accepts two capacities the algorithm does not support. With capacity 1 a
  second push overwrites the element that was not popped, reports success, and both are
  gone: the pop that follows answers \<open>nullopt\<close>. With capacity 0 the first push touches a node
  of an empty buffer. Capacity 3 is rejected.
\<close>
theorem spsc_small_capacities:
  "(\<exists>q1 q2 q3. spsc_new d 1 = Inr q1 \<and> try_push x q1 = Some (True, q2) \<and>
      try_push y q2 = Some (True, q3) \<and> try_pop q3 = Some (None, q3)) \<and>
   (\<exists>q. spsc_new d 0 = Inr q \<and> try_push x q = None \<and> try_pop q = None) \<and>
   spsc_new d 3 = Inl Invalid_argument"
  by (simp add: spsc_new_def try_push_def try_pop_def slot_def)

text \<open>
  \<open>size()\<close> called by a third thread can underflow: the producer publishes an element before
  it advances the head, so the consumer can take the element and advance the tail past it.
  Then \<open>size()\<close> is \<open>2 ^ 64 - 1\<close> and \<open>empty()\<close> is false, although nothing is queued.
\<close>
theorem spsc_size_underflows:
  "\<exists>q c. spsc_new (0::nat) 2 = Inr q \<and> spsc_step\<^sup>*\<^sup>* (channel_new q) c \<and> sent c = received c \<and>
     spsc_size (ring c) = - 1 \<and> \<not> spsc_empty (ring c)"
  apply (intro exI conjI)
      apply (simp add: spsc_new_def)
     apply (rule converse_rtranclp_into_rtranclp, rule push_call [where x = 7], simp add: channel_new_def)
     apply (rule converse_rtranclp_into_rtranclp, rule push_claim, simp, simp add: channel_new_def slot_def)
     apply (rule converse_rtranclp_into_rtranclp, rule push_write, simp)
     apply (rule converse_rtranclp_into_rtranclp, rule push_publish, simp)
     apply (rule converse_rtranclp_into_rtranclp, rule pop_call, simp add: channel_new_def)
     apply (rule converse_rtranclp_into_rtranclp, rule pop_claim, simp,
      simp add: channel_new_def slot_def write_data_def write_seq_def)
     apply (rule converse_rtranclp_into_rtranclp, rule pop_read, simp)
     apply (rule converse_rtranclp_into_rtranclp, rule pop_release, simp)
     apply (rule converse_rtranclp_into_rtranclp, rule pop_advance, simp)
     apply (rule rtranclp.rtrancl_refl)
    apply (simp_all add: channel_new_def slot_def write_data_def write_seq_def spsc_empty_def spsc_size_def)
  done

subsection \<open>Witnesses\<close>

definition sample_ring :: "nat spsc" where
  "sample_ring = \<lparr>head_pos = 0, tail_pos = 0, capacity = 2, mask_bits = 1, sequences = [0, 1],
     node_data = [0, 0]\<rparr>"

lemma sample_ring_new: "spsc_new 0 (2 ^ 1) = Inr sample_ring"
  by code_simp

text \<open>One element queued, the producer about to write the next, the consumer about to read.\<close>

definition sample_channel :: "nat channel" where
  "sample_channel =
     \<lparr>ring = \<lparr>head_pos = 1, tail_pos = 0, capacity = 2, mask_bits = 1, sequences = [1, 1],
              node_data = [7, 0]\<rparr>,
      prod = P_Write 8 1, cons = C_Read 0, sent = [7], received = []\<rparr>"

lemma sample_channel_reached: "spsc_step\<^sup>*\<^sup>* (channel_new sample_ring) sample_channel"
proof -
  define start where "start = channel_new sample_ring"
  have "spsc_step\<^sup>*\<^sup>* start
      \<lparr>ring = \<lparr>head_pos = 1, tail_pos = 0, capacity = 2, mask_bits = 1, sequences = [1, 1],
               node_data = [7, 0]\<rparr>, prod = P_Idle, cons = C_Idle, sent = [7], received = []\<rparr>"
    unfolding start_def channel_new_def sample_ring_def
    apply (rule converse_rtranclp_into_rtranclp, rule push_call [where x = 7], simp)
    apply (rule converse_rtranclp_into_rtranclp, rule push_claim, simp, simp add: slot_def)
    apply (rule converse_rtranclp_into_rtranclp, rule push_write, simp)
    apply (rule converse_rtranclp_into_rtranclp, rule push_publish, simp)
    apply (rule converse_rtranclp_into_rtranclp, rule push_advance, simp)
    apply (simp add: slot_def write_data_def write_seq_def)
    done
  also have "spsc_step\<^sup>*\<^sup>* \<dots> sample_channel"
    unfolding sample_channel_def
    apply (rule converse_rtranclp_into_rtranclp, rule push_call [where x = 8], simp)
    apply (rule converse_rtranclp_into_rtranclp, rule push_claim, simp, simp add: slot_def)
    apply (rule converse_rtranclp_into_rtranclp, rule pop_call, simp)
    apply (rule converse_rtranclp_into_rtranclp, rule pop_claim, simp, simp add: slot_def)
    apply simp
    done
  finally show ?thesis by (simp add: start_def)
qed


theorem spsc_concurrent_fifo_witness:
  "\<exists>rest. sent sample_channel = received sample_channel @ rest \<and> length rest \<le> 3"
  using spsc_concurrent_fifo [OF _ _ sample_ring_new sample_channel_reached] by simp

theorem spsc_race_free_witness:
  "prod sample_channel = P_Write 8 1 \<and> cons sample_channel = C_Read 0 \<and>
   slot 1 (ring sample_channel) \<noteq> slot 0 (ring sample_channel)"
proof -
  have "prod sample_channel = P_Write 8 1" "cons sample_channel = C_Read 0"
    by (simp_all add: sample_channel_def)
  then show ?thesis
    using spsc_race_free [OF _ _ sample_ring_new sample_channel_reached, of 8 1 0] by simp
qed

end
