(* ===== verification/Mpsc.thy ===== *)
theory Mpsc
  imports Fifo "HOL-Library.Monad_Syntax"
begin

text \<open>
  \<open>MPSCQueue\<close> of \<open>include/lock_free_queue.hpp\<close>: a linked list of heap nodes behind two atomic
  pointers. The heap is a partial map from addresses to nodes; \<open>new\<close> yields an address that is
  not in it, \<open>delete\<close> removes one, so an address can come back. Dereferencing an address that
  is not in the heap is undefined behaviour. \<open>chain\<close> is a ghost variable that no operation
  reads: the addresses from \<open>tail_\<close> to \<open>head_\<close> in the order of the exchanges.
\<close>

type_synonym addr = nat

record 'a mnode =
  next_node :: "addr option"
  elem :: 'a

type_synonym 'a node_heap = "addr \<rightharpoonup> 'a mnode"

record 'a mpsc =
  nodes :: "'a node_heap"
  mhead :: addr
  mtail :: addr
  chain :: "addr list"

subsection \<open>The atomic pieces of the operations\<close>

definition new_node :: "addr \<Rightarrow> 'a \<Rightarrow> 'a mpsc \<Rightarrow> 'a mpsc" where
  "new_node a x q = q\<lparr>nodes := (nodes q)(a \<mapsto> \<lparr>next_node = None, elem = x\<rparr>)\<rparr>"

definition exchange_head :: "addr \<Rightarrow> 'a mpsc \<Rightarrow> addr \<times> 'a mpsc" where
  "exchange_head a q = (mhead q, q\<lparr>mhead := a, chain := chain q @ [a]\<rparr>)"

definition link_node :: "addr \<Rightarrow> addr \<Rightarrow> 'a mpsc \<Rightarrow> 'a mpsc option" where
  "link_node p a q =
     (case nodes q p of
        None \<Rightarrow> None
      | Some nd \<Rightarrow> Some (q\<lparr>nodes := (nodes q)(p \<mapsto> nd\<lparr>next_node := Some a\<rparr>)\<rparr>))"

definition store_tail :: "addr \<Rightarrow> 'a mpsc \<Rightarrow> 'a mpsc" where
  "store_tail n q = q\<lparr>mtail := n, chain := tl (chain q)\<rparr>"

definition delete_node :: "addr \<Rightarrow> 'a mpsc \<Rightarrow> 'a mpsc option" where
  "delete_node a q = (if nodes q a = None then None else Some (q\<lparr>nodes := (nodes q)(a := None)\<rparr>))"

subsection \<open>The operations\<close>

text \<open>\<open>alloc\<close> stands for \<open>operator new\<close>; all that is asked of it is a free address.\<close>

definition allocator :: "('a node_heap \<Rightarrow> addr) \<Rightarrow> bool" where
  "allocator alloc \<longleftrightarrow> (\<forall>h. finite (dom h) \<longrightarrow> h (alloc h) = None)"

definition mpsc_new :: "('a node_heap \<Rightarrow> addr) \<Rightarrow> 'a \<Rightarrow> 'a mpsc" where
  "mpsc_new alloc d =
     (let s = alloc Map.empty
      in \<lparr>nodes = [s \<mapsto> \<lparr>next_node = None, elem = d\<rparr>], mhead = s, mtail = s, chain = [s]\<rparr>)"

definition mpsc_push :: "('a node_heap \<Rightarrow> addr) \<Rightarrow> 'a \<Rightarrow> 'a mpsc \<Rightarrow> (bool \<times> 'a mpsc) option" where
  "mpsc_push alloc x q =
     (let a = alloc (nodes q);
          (prev, q2) = exchange_head a (new_node a x q)
      in do { q3 \<leftarrow> link_node prev a q2; Some (True, q3) })"

definition mpsc_pop :: "'a mpsc \<Rightarrow> ('a option \<times> 'a mpsc) option" where
  "mpsc_pop q =
     (let tail = mtail q
      in do {
        nd \<leftarrow> nodes q tail;
        (case next_node nd of
           None \<Rightarrow> Some (None, q)
         | Some n \<Rightarrow> do {
             nn \<leftarrow> nodes q n;
             q' \<leftarrow> delete_node tail (store_tail n q);
             Some (Some (elem nn), q')
           })
      })"

text \<open>The destructor: pop until \<open>nullopt\<close>, then delete the last node.\<close>

partial_function (option) mpsc_destroy :: "'a mpsc \<Rightarrow> 'a mpsc option" where
  "mpsc_destroy q =
     (case mpsc_pop q of
        None \<Rightarrow> None
      | Some (r, q') \<Rightarrow> (case r of None \<Rightarrow> delete_node (mhead q') q' | Some x \<Rightarrow> mpsc_destroy q'))"

subsection \<open>Chains\<close>

fun succ_in :: "addr list \<Rightarrow> addr \<Rightarrow> addr \<Rightarrow> bool" where
  "succ_in [] p q = False"
| "succ_in [x] p q = False"
| "succ_in (x # y # zs) p q \<longleftrightarrow> p = x \<and> q = y \<or> succ_in (y # zs) p q"

lemma succ_in_set: "succ_in xs p q \<Longrightarrow> p \<in> set xs \<and> q \<in> set xs"
  by (induction xs p q rule: succ_in.induct) auto

lemma succ_in_snoc:
  "succ_in (xs @ [a]) p q \<longleftrightarrow> succ_in xs p q \<or> xs \<noteq> [] \<and> p = last xs \<and> q = a"
  by (induction xs p q rule: succ_in.induct) auto

lemma succ_in_fun: "distinct xs \<Longrightarrow> succ_in xs p q \<Longrightarrow> succ_in xs p r \<Longrightarrow> q = r"
  by (induction xs p q rule: succ_in.induct) (auto dest: succ_in_set)

lemma succ_in_last: "distinct xs \<Longrightarrow> succ_in xs p q \<Longrightarrow> p \<noteq> last xs"
  by (induction xs p q rule: succ_in.induct) (auto dest: succ_in_set)

definition next_of :: "'a mpsc \<Rightarrow> addr \<Rightarrow> addr option" where
  "next_of q a = Option.bind (nodes q a) next_node"

definition elem_of :: "'a mpsc \<Rightarrow> addr \<Rightarrow> 'a" where
  "elem_of q a = elem (the (nodes q a))"

definition mpsc_contents :: "'a mpsc \<Rightarrow> 'a list" where
  "mpsc_contents q = map (elem_of q) (tl (chain q))"

text \<open>
  The list structure both for one thread and for many: \<open>open_link p a\<close> says that a producer has
  exchanged the head from \<open>p\<close> to \<open>a\<close> and has not linked them yet.
\<close>

definition linked :: "(addr \<Rightarrow> addr \<Rightarrow> bool) \<Rightarrow> 'a mpsc \<Rightarrow> bool" where
  "linked open_link q \<longleftrightarrow> distinct (chain q) \<and> chain q \<noteq> [] \<and> set (chain q) \<subseteq> dom (nodes q) \<and>
     hd (chain q) = mtail q \<and> last (chain q) = mhead q \<and> next_of q (mhead q) = None \<and>
     (\<forall>p a. succ_in (chain q) p a \<longrightarrow>
        next_of q p = (if open_link p a then None else Some a)) \<and>
     (\<forall>p a. open_link p a \<longrightarrow> succ_in (chain q) p a) \<and>
     finite (dom (nodes q))"

lemma linked_parts:
  assumes "linked L q"
  shows "distinct (chain q)" "chain q \<noteq> []" "set (chain q) \<subseteq> dom (nodes q)"
    and "hd (chain q) = mtail q" "last (chain q) = mhead q" "next_of q (mhead q) = None"
    and "succ_in (chain q) p a \<Longrightarrow> next_of q p = (if L p a then None else Some a)"
    and "L p a \<Longrightarrow> succ_in (chain q) p a" and "finite (dom (nodes q))"
  using assms by (simp_all add: linked_def)

lemma linked_tail_next:
  assumes "linked L q" and "next_of q (mtail q) = Some n"
  obtains rest where "chain q = mtail q # n # rest"
proof -
  note l = linked_parts [OF assms(1)]
  obtain xs where xs: "chain q = mtail q # xs" using l(2,4) by (cases "chain q") auto
  then obtain y ys where "xs = y # ys" using l(5,6) assms(2) by (cases xs) auto
  then have "next_of q (mtail q) = (if L (mtail q) y then None else Some y)"
    using l(7) [of "mtail q" y] xs by simp
  with assms(2) xs \<open>xs = y # ys\<close> show ?thesis by (intro that) (auto split: if_splits)
qed

lemma linked_new_node:
  assumes "linked L q" and "nodes q a = None"
  shows "linked L (new_node a x q)" and "mpsc_contents (new_node a x q) = mpsc_contents q"
proof -
  have a: "a \<notin> set (chain q)" using linked_parts(3) [OF assms(1)] assms(2) by auto
  have n: "next_of (new_node a x q) p = next_of q p" if "p \<noteq> a" for p
    using that by (simp add: next_of_def new_node_def)
  have "mhead q \<noteq> a" using a linked_parts(2,5) [OF assms(1)] by (metis last_in_set)
  moreover have "p \<noteq> a" if "succ_in (chain q) p b" for p b using that a succ_in_set by blast
  ultimately show "linked L (new_node a x q)"
    using assms(1) n [of "mhead q"] n unfolding linked_def by (auto simp: new_node_def)
  show "mpsc_contents (new_node a x q) = mpsc_contents q"
    using a linked_parts(2) [OF assms(1)]
    by (auto simp: mpsc_contents_def elem_of_def new_node_def dest: list.set_sel(2))
qed

lemma linked_exchange:
  assumes "linked L q" and "a \<in> dom (nodes q)" and "a \<notin> set (chain q)" and "next_of q a = None"
  shows "linked (\<lambda>p b. L p b \<or> p = mhead q \<and> b = a) (snd (exchange_head a q))"
    and "mpsc_contents (snd (exchange_head a q)) = mpsc_contents q @ [elem_of q a]"
proof -
  note l = linked_parts [OF assms(1)]
  have "\<not> L (mhead q) b" for b
    using l(8) [of "mhead q" b] succ_in_last [OF l(1), of "mhead q" b] l(5) by auto
  moreover have "\<not> succ_in (chain q) p a" for p using succ_in_set assms(3) by blast
  ultimately show "linked (\<lambda>p b. L p b \<or> p = mhead q \<and> b = a) (snd (exchange_head a q))"
    using l assms succ_in_last [OF l(1)] unfolding linked_def
    by (auto simp: exchange_head_def next_of_def succ_in_snoc)
  show "mpsc_contents (snd (exchange_head a q)) = mpsc_contents q @ [elem_of q a]"
    using l(2) by (cases "chain q") (simp_all add: mpsc_contents_def exchange_head_def elem_of_def)
qed

lemma linked_link:
  assumes "linked L q" and "L p a"
  shows "\<exists>r. link_node p a q = Some r \<and> linked (\<lambda>p' b. L p' b \<and> p' \<noteq> p) r \<and>
    mpsc_contents r = mpsc_contents q \<and> chain r = chain q \<and> mtail r = mtail q \<and>
    dom (nodes r) = dom (nodes q) \<and>
    (\<forall>b. next_of r b = (if b = p then Some a else next_of q b)) \<and> (\<forall>b. elem_of r b = elem_of q b)"
proof -
  note l = linked_parts [OF assms(1)]
  have s: "succ_in (chain q) p a" using l(8) assms(2) .
  then obtain nd where nd: "nodes q p = Some nd" using succ_in_set l(3) by blast
  let ?r = "q\<lparr>nodes := (nodes q)(p \<mapsto> nd\<lparr>next_node := Some a\<rparr>)\<rparr>"
  have link: "link_node p a q = Some ?r" by (simp add: link_node_def nd)
  have nx: "next_of ?r b = (if b = p then Some a else next_of q b)" for b
    by (simp add: next_of_def)
  have elem: "elem_of ?r b = elem_of q b" for b by (simp add: elem_of_def nd)
  have succ: "next_of ?r p' = (if L p' b \<and> p' \<noteq> p then None else Some b)"
    if "succ_in (chain q) p' b" for p' b
  proof (cases "p' = p")
    case True
    with that have "b = a" using succ_in_fun [OF l(1) s] by blast
    with True show ?thesis by (simp add: nx)
  next
    case False
    with l(7) [OF that] show ?thesis by (simp add: nx)
  qed
  have "next_of ?r (mhead q) = None"
    using l(5,6) succ_in_last [OF l(1) s] by (simp add: nx)
  moreover have "dom (nodes ?r) = dom (nodes q)" using nd by auto
  ultimately have "linked (\<lambda>p' b. L p' b \<and> p' \<noteq> p) ?r"
    using l(1-5,8,9) succ unfolding linked_def by simp
  with link nx elem nd show ?thesis
    by (intro exI [of _ ?r]) (auto simp: mpsc_contents_def)
qed

lemma linked_store_tail:
  assumes "linked L q" and "next_of q (mtail q) = Some n"
  shows "linked L (store_tail n q)" and "mpsc_contents q = elem_of q n # mpsc_contents (store_tail n q)"
    and "mtail q \<notin> set (chain (store_tail n q))" and "hd (chain (store_tail n q)) = n"
proof -
  obtain rest where c: "chain q = mtail q # n # rest" using assms by (rule linked_tail_next)
  note l = linked_parts [OF assms(1)]
  have "p \<noteq> mtail q" if "L p a" for p a using l(7) [OF l(8) [OF that]] that assms(2) by auto
  then have "linked L (store_tail n q)"
    using l c unfolding linked_def by (auto simp: store_tail_def next_of_def)
  then show "linked L (store_tail n q)" .
  show "mpsc_contents q = elem_of q n # mpsc_contents (store_tail n q)"
    by (simp add: mpsc_contents_def store_tail_def elem_of_def c)
  show "mtail q \<notin> set (chain (store_tail n q))" and "hd (chain (store_tail n q)) = n"
    using l(1) by (simp_all add: store_tail_def c)
qed

lemma linked_delete:
  assumes "linked L q" and "a \<notin> set (chain q)" and "a \<in> dom (nodes q)"
  shows "\<exists>r. delete_node a q = Some r \<and> linked L r \<and> mpsc_contents r = mpsc_contents q \<and>
    chain r = chain q \<and> mtail r = mtail q \<and> nodes r = (nodes q)(a := None)"
proof -
  note l = linked_parts [OF assms(1)]
  let ?r = "q\<lparr>nodes := (nodes q)(a := None)\<rparr>"
  have n: "next_of ?r p = next_of q p" if "p \<noteq> a" for p using that by (simp add: next_of_def)
  have "mhead q \<noteq> a" using assms(2) l(2,5) by (metis last_in_set)
  moreover have "p \<noteq> a" if "succ_in (chain q) p b" for p b using that assms(2) succ_in_set by blast
  ultimately have "linked L ?r"
    using l assms n [of "mhead q"] n unfolding linked_def by auto
  moreover have "mpsc_contents ?r = mpsc_contents q"
    using assms(2) l(2) by (auto simp: mpsc_contents_def elem_of_def dest: list.set_sel(2))
  moreover have "nodes q a \<noteq> None" using assms(3) by auto
  ultimately show ?thesis by (intro exI [of _ ?r]) (simp add: delete_node_def)
qed

subsection \<open>One thread at a time\<close>

definition mpsc_ok :: "'a mpsc \<Rightarrow> bool" where
  "mpsc_ok q \<longleftrightarrow> linked (\<lambda>p a. False) q \<and> set (chain q) = dom (nodes q)"

lemma mpsc_push_ok:
  assumes "mpsc_ok q" and "allocator alloc"
  shows "\<exists>r. mpsc_push alloc x q = Some (True, r) \<and> mpsc_ok r \<and> mpsc_contents r = mpsc_contents q @ [x]"
proof -
  let ?a = "alloc (nodes q)"
  let ?q1 = "new_node ?a x q"
  let ?q2 = "snd (exchange_head ?a ?q1)"
  have l: "linked (\<lambda>p a. False) q" and dom: "set (chain q) = dom (nodes q)"
    using assms(1) by (simp_all add: mpsc_ok_def)
  have a: "nodes q ?a = None" using assms(2) linked_parts(9) [OF l] by (simp add: allocator_def)
  note l1 = linked_new_node [OF l a, of x]
  have a1: "?a \<in> dom (nodes ?q1)" "?a \<notin> set (chain ?q1)" "next_of ?q1 ?a = None" "elem_of ?q1 ?a = x"
    using a dom by (auto simp: new_node_def next_of_def elem_of_def)
  note l2 = linked_exchange [OF l1(1) a1(1-3)]
  obtain r where r: "link_node (mhead ?q1) ?a ?q2 = Some r"
      "linked (\<lambda>p b. (False \<or> p = mhead ?q1 \<and> b = ?a) \<and> p \<noteq> mhead ?q1) r"
      "mpsc_contents r = mpsc_contents ?q2" "chain r = chain ?q2" "dom (nodes r) = dom (nodes ?q2)"
    using linked_link [OF l2(1), of "mhead ?q1" ?a] by auto
  have "(\<lambda>p b. (False \<or> p = mhead ?q1 \<and> b = ?a) \<and> p \<noteq> mhead ?q1) = (\<lambda>p b. False)" by auto
  with r(2) have "linked (\<lambda>p b. False) r" by simp
  moreover have "set (chain r) = dom (nodes r)"
    using r(4,5) dom by (simp add: exchange_head_def new_node_def)
  moreover have "mpsc_push alloc x q = Some (True, r)"
    using r(1) by (simp add: mpsc_push_def Let_def exchange_head_def)
  ultimately show ?thesis
    using r(3) l2(2) l1(2) a1(4) by (simp add: mpsc_ok_def)
qed

lemma mpsc_tail_alive:
  assumes "linked L q" shows "\<exists>nd. nodes q (mtail q) = Some nd"
  using linked_parts(2,3,4) [OF assms] by (metis domD hd_in_set subsetD)

lemma mpsc_pop_none:
  assumes "mpsc_ok q" and "mpsc_contents q = []"
  shows "mpsc_pop q = Some (None, q)"
proof -
  have l: "linked (\<lambda>p a. False) q" using assms(1) by (simp add: mpsc_ok_def)
  obtain nd where nd: "nodes q (mtail q) = Some nd" using mpsc_tail_alive [OF l] by blast
  have "next_of q (mtail q) = None"
    using linked_store_tail(2) [OF l] assms(2) by (metis list.distinct(1) not_None_eq)
  with nd show ?thesis by (simp add: mpsc_pop_def next_of_def)
qed

lemma mpsc_pop_some:
  assumes "mpsc_ok q" and "mpsc_contents q = x # xs"
  shows "\<exists>r. mpsc_pop q = Some (Some x, r) \<and> mpsc_ok r \<and> mpsc_contents r = xs"
proof -
  have l: "linked (\<lambda>p a. False) q" and dom: "set (chain q) = dom (nodes q)"
    using assms(1) by (simp_all add: mpsc_ok_def)
  obtain nd where nd: "nodes q (mtail q) = Some nd" using mpsc_tail_alive [OF l] by blast
  obtain n rest where c: "chain q = mtail q # n # rest"
    using assms(2) linked_parts(2,4) [OF l]
    by (cases "chain q"; cases "tl (chain q)") (auto simp: mpsc_contents_def)
  then have n: "next_of q (mtail q) = Some n" using linked_parts(7) [OF l, of "mtail q" n] by simp
  then obtain nn where nn: "nodes q n = Some nn" using dom c by (metis domD list.set_intros(1,2))
  note s = linked_store_tail [OF l n]
  have "mtail q \<in> dom (nodes (store_tail n q))" using nd by (auto simp: store_tail_def)
  with linked_delete [OF s(1) s(3)] obtain r where r: "delete_node (mtail q) (store_tail n q) = Some r"
      "linked (\<lambda>p a. False) r" "mpsc_contents r = mpsc_contents (store_tail n q)"
      "chain r = chain (store_tail n q)" "nodes r = (nodes (store_tail n q))(mtail q := None)"
    by blast
  have "set (chain r) = dom (nodes r)"
    using r(4,5) dom c linked_parts(1) [OF l] by (auto simp: store_tail_def)
  moreover have "mpsc_pop q = Some (Some (elem nn), r)"
    using nd nn n r(1) by (simp add: mpsc_pop_def next_of_def)
  moreover have "elem_of q n = elem nn" by (simp add: elem_of_def nn)
  ultimately show ?thesis using r(2,3) s(2) assms(2) by (auto simp: mpsc_ok_def)
qed

interpretation mpsc: fifo "mpsc_push alloc" mpsc_pop mpsc_contents
  "\<lambda>q. mpsc_ok q \<and> allocator alloc" None for alloc
proof unfold_locales
  fix q :: "'a mpsc" and x and xs
  show "mpsc_ok q \<and> allocator alloc \<Longrightarrow>
      \<exists>r. mpsc_push alloc x q = Some (True, r) \<and> (mpsc_ok r \<and> allocator alloc) \<and>
        mpsc_contents r = mpsc_contents q @ [x]"
    using mpsc_push_ok [of q alloc x] by simp
  show "mpsc_ok q \<and> allocator alloc \<Longrightarrow> \<not> room_in None (mpsc_contents q) \<Longrightarrow>
      mpsc_push alloc x q = Some (False, q)"
    by (simp add: room_in_def)
  show "mpsc_ok q \<and> allocator alloc \<Longrightarrow> mpsc_contents q = [] \<Longrightarrow> mpsc_pop q = Some (None, q)"
    using mpsc_pop_none [of q] by simp
  show "mpsc_ok q \<and> allocator alloc \<Longrightarrow> mpsc_contents q = x # xs \<Longrightarrow>
      \<exists>r. mpsc_pop q = Some (Some x, r) \<and> (mpsc_ok r \<and> allocator alloc) \<and> mpsc_contents r = xs"
    using mpsc_pop_some [of q x xs] by auto
qed

lemma mpsc_new_ok: "mpsc_ok (mpsc_new alloc d) \<and> mpsc_contents (mpsc_new alloc d) = []"
  by (simp add: mpsc_ok_def linked_def mpsc_new_def mpsc_contents_def next_of_def Let_def)

lemma mpsc_destroy_frees:
  assumes "mpsc_ok q"
  shows "\<exists>r. mpsc_destroy q = Some r \<and> nodes r = Map.empty"
  using assms
proof (induction "mpsc_contents q" arbitrary: q)
  case Nil
  have l: "linked (\<lambda>p a. False) q" and dom: "set (chain q) = dom (nodes q)"
    using Nil.prems by (simp_all add: mpsc_ok_def)
  have "tl (chain q) = []" using Nil.hyps by (simp add: mpsc_contents_def)
  then have c: "chain q = [mhead q]"
    using linked_parts(2,5) [OF l] by (cases "chain q") auto
  then have "dom (nodes q) = {mhead q}" using dom by simp
  then have "(nodes q)(mhead q := None) = Map.empty" and "nodes q (mhead q) \<noteq> None"
    by (auto simp: fun_eq_iff dom_def)
  then show ?case
    using mpsc_pop_none [OF Nil.prems] Nil.hyps
    by (subst mpsc_destroy.simps) (simp add: delete_node_def)
next
  case (Cons x xs)
  then obtain r where r: "mpsc_pop q = Some (Some x, r)" "mpsc_ok r" "mpsc_contents r = xs"
    using mpsc_pop_some [of q x xs] by auto
  with Cons.hyps(1) [of r] show ?case
    by (subst mpsc_destroy.simps) simp
qed

text \<open>
  One thread at a time the MPSC queue is an unbounded FIFO: whatever free addresses the
  allocator hands out, every push is accepted, every pop returns the oldest element (or
  \<open>nullopt\<close> when there is none), no operation touches a freed node, and the destructor ends and
  frees every node.
\<close>
theorem mpsc_refines_fifo:
  assumes "allocator alloc"
  shows "\<exists>os r. queue_run (mpsc_push alloc) mpsc_pop ops (mpsc_new alloc d) = Some (os, r) \<and>
    os = fst (spec_run None ops []) \<and> accepted os = got os @ mpsc_contents r \<and>
    (\<exists>e. mpsc_destroy r = Some e \<and> nodes e = Map.empty)"
proof -
  have ok: "mpsc_ok (mpsc_new alloc d) \<and> allocator alloc"
    using mpsc_new_ok [of alloc d] assms by simp
  obtain r where r: "queue_run (mpsc_push alloc) mpsc_pop ops (mpsc_new alloc d) =
      Some (fst (spec_run None ops []), r)" "mpsc_ok r"
    using mpsc.run_refines [OF ok, of ops] mpsc_new_ok [of alloc d] by auto
  with mpsc.run_fifo [OF ok r(1)] mpsc_new_ok [of alloc d] mpsc_destroy_frees [OF r(2)] show ?thesis
    by auto
qed

subsection \<open>Many producers, one consumer\<close>

text \<open>
  The program counters between the accesses to shared memory. Producers are numbered; each
  holds the node it has made (\<open>M_New\<close>) or the two nodes it still has to link (\<open>M_Link\<close>).
\<close>

datatype mprod = M_Idle | M_New addr | M_Link addr addr

datatype 'a mcons =
  MC_Idle | MC_Tail addr | MC_Next addr addr | MC_Data addr addr 'a | MC_Delete addr 'a

record 'a mchannel =
  mq :: "'a mpsc"
  mprods :: "nat \<Rightarrow> mprod"
  mcons :: "'a mcons"
  enqueued :: "'a list"
  delivered :: "'a list"

definition mchannel_new :: "'a mpsc \<Rightarrow> 'a mchannel" where
  "mchannel_new q =
     \<lparr>mq = q, mprods = (\<lambda>i. M_Idle), mcons = MC_Idle, enqueued = [], delivered = []\<rparr>"

inductive mpsc_step :: "'a mchannel \<Rightarrow> 'a mchannel \<Rightarrow> bool" where
  m_new: "mprods c i = M_Idle \<Longrightarrow> nodes (mq c) a = None \<Longrightarrow>
    mpsc_step c (c\<lparr>mq := new_node a x (mq c), mprods := (mprods c)(i := M_New a)\<rparr>)"
| m_exchange: "mprods c i = M_New a \<Longrightarrow> exchange_head a (mq c) = (prev, q') \<Longrightarrow>
    mpsc_step c (c\<lparr>mq := q', mprods := (mprods c)(i := M_Link prev a),
                   enqueued := enqueued c @ [elem_of (mq c) a]\<rparr>)"
| m_link: "mprods c i = M_Link prev a \<Longrightarrow> link_node prev a (mq c) = Some q' \<Longrightarrow>
    mpsc_step c (c\<lparr>mq := q', mprods := (mprods c)(i := M_Idle)\<rparr>)"
| c_load: "mcons c = MC_Idle \<Longrightarrow> mpsc_step c (c\<lparr>mcons := MC_Tail (mtail (mq c))\<rparr>)"
| c_none: "mcons c = MC_Tail t \<Longrightarrow> nodes (mq c) t = Some nd \<Longrightarrow> next_node nd = None \<Longrightarrow>
    mpsc_step c (c\<lparr>mcons := MC_Idle\<rparr>)"
| c_next: "mcons c = MC_Tail t \<Longrightarrow> nodes (mq c) t = Some nd \<Longrightarrow> next_node nd = Some n \<Longrightarrow>
    mpsc_step c (c\<lparr>mcons := MC_Next t n\<rparr>)"
| c_read: "mcons c = MC_Next t n \<Longrightarrow> nodes (mq c) n = Some nn \<Longrightarrow>
    mpsc_step c (c\<lparr>mcons := MC_Data t n (elem nn)\<rparr>)"
| c_store: "mcons c = MC_Data t n x \<Longrightarrow>
    mpsc_step c (c\<lparr>mq := store_tail n (mq c), mcons := MC_Delete t x\<rparr>)"
| c_delete: "mcons c = MC_Delete t x \<Longrightarrow> delete_node t (mq c) = Some q' \<Longrightarrow>
    mpsc_step c (c\<lparr>mq := q', mcons := MC_Idle, delivered := delivered c @ [x]\<rparr>)"

definition open_link :: "'a mchannel \<Rightarrow> addr \<Rightarrow> addr \<Rightarrow> bool" where
  "open_link c p a \<longleftrightarrow> (\<exists>i. mprods c i = M_Link p a)"

definition m_in_hand :: "'a mchannel \<Rightarrow> 'a list" where
  "m_in_hand c = (case mcons c of MC_Delete t x \<Rightarrow> [x] | _ \<Rightarrow> [])"

definition private_node :: "'a mchannel \<Rightarrow> addr \<Rightarrow> bool" where
  \<comment> \<open>allocated, not in the list, and not the node the consumer is about to delete\<close>
  "private_node c a \<longleftrightarrow> a \<in> dom (nodes (mq c)) \<and> a \<notin> set (chain (mq c)) \<and>
     next_of (mq c) a = None \<and> (\<forall>x. mcons c \<noteq> MC_Delete a x)"

definition mcons_ok :: "'a mchannel \<Rightarrow> bool" where
  "mcons_ok c \<longleftrightarrow>
     (case mcons c of
        MC_Idle \<Rightarrow> True
      | MC_Tail t \<Rightarrow> t = mtail (mq c)
      | MC_Next t n \<Rightarrow> t = mtail (mq c) \<and> next_of (mq c) t = Some n
      | MC_Data t n x \<Rightarrow> t = mtail (mq c) \<and> next_of (mq c) t = Some n \<and> x = elem_of (mq c) n
      | MC_Delete t x \<Rightarrow> t \<in> dom (nodes (mq c)) \<and> t \<notin> set (chain (mq c)))"

definition mprods_ok :: "'a mchannel \<Rightarrow> bool" where
  "mprods_ok c \<longleftrightarrow> (\<forall>i a. mprods c i = M_New a \<longrightarrow> private_node c a) \<and>
     (\<forall>i j a. mprods c i = M_New a \<longrightarrow> mprods c j = M_New a \<longrightarrow> i = j) \<and>
     (\<forall>i j p a b. mprods c i = M_Link p a \<longrightarrow> mprods c j = M_Link p b \<longrightarrow> i = j)"

definition mchannel_ok :: "'a mchannel \<Rightarrow> bool" where
  "mchannel_ok c \<longleftrightarrow> linked (open_link c) (mq c) \<and> mprods_ok c \<and> mcons_ok c \<and>
     enqueued c = delivered c @ m_in_hand c @ mpsc_contents (mq c)"

lemma mchannel_okD:
  assumes "mchannel_ok c"
  shows "linked (open_link c) (mq c)" and "mcons_ok c"
    and "enqueued c = delivered c @ m_in_hand c @ mpsc_contents (mq c)"
    and "mprods c i = M_New a \<Longrightarrow> private_node c a"
    and "mprods c i = M_New a \<Longrightarrow> mprods c j = M_New a \<Longrightarrow> i = j"
    and "mprods c i = M_Link p a \<Longrightarrow> mprods c j = M_Link p b \<Longrightarrow> i = j"
  using assms unfolding mchannel_ok_def mprods_ok_def by blast+

lemma next_alive:
  assumes "linked L q" and "next_of q (mtail q) = Some n"
  shows "n \<in> set (chain q)" and "n \<in> dom (nodes q)"
  using linked_tail_next [OF assms] linked_parts(3) [OF assms(1)] by (metis list.set_intros subsetD)+

lemma mtail_in_chain: "linked L q \<Longrightarrow> mtail q \<in> set (chain q)"
  using linked_parts(2,4) by (metis hd_in_set)

lemma step_new:
  assumes "mchannel_ok c" and "mprods c i = M_Idle" and "nodes (mq c) a = None"
  shows "mchannel_ok (c\<lparr>mq := new_node a x (mq c), mprods := (mprods c)(i := M_New a)\<rparr>)"
    (is "mchannel_ok ?c")
proof -
  note ok = mchannel_okD [OF assms(1)]
  note l = linked_new_node [OF ok(1) assms(3), of x]
  have a: "a \<notin> set (chain (mq c))" using linked_parts(3) [OF ok(1)] assms(3) by auto
  have nx: "next_of (new_node a x (mq c)) p = next_of (mq c) p"
    and el: "elem_of (new_node a x (mq c)) p = elem_of (mq c) p" if "p \<noteq> a" for p
    using that by (simp_all add: next_of_def elem_of_def new_node_def)
  have "open_link ?c = open_link c"
    using assms(2) by (auto simp: open_link_def fun_eq_iff) (metis mprod.distinct(3))
  then have "linked (open_link ?c) (mq ?c)" using l(1) by simp
  moreover have "mcons_ok ?c"
    using ok(2) nx el mtail_in_chain [OF ok(1)] next_alive(1) [OF ok(1)] a assms(3)
    by (auto simp: mcons_ok_def new_node_def split: mcons.splits) (metis)+
  moreover have priv: "private_node ?c b" if "private_node c b" for b
  proof -
    have "b \<noteq> a" using that assms(3) by (auto simp: private_node_def)
    with that nx show ?thesis by (auto simp: private_node_def new_node_def)
  qed
  moreover have "private_node ?c a"
    using a assms(3) ok(2) by (auto simp: private_node_def new_node_def next_of_def mcons_ok_def)
  moreover have "b \<noteq> a" if "mprods c j = M_New b" for j b
    using ok(4) [OF that] assms(3) by (auto simp: private_node_def)
  ultimately show ?thesis
    using ok(3-6) l(2)
    by (auto simp: mchannel_ok_def mprods_ok_def m_in_hand_def split: if_splits)
qed

lemma step_exchange:
  assumes "mchannel_ok c" and "mprods c i = M_New a"
  shows "mchannel_ok (c\<lparr>mq := snd (exchange_head a (mq c)),
      mprods := (mprods c)(i := M_Link (mhead (mq c)) a), enqueued := enqueued c @ [elem_of (mq c) a]\<rparr>)"
    (is "mchannel_ok ?c")
proof -
  note ok = mchannel_okD [OF assms(1)]
  have a: "a \<in> dom (nodes (mq c))" "a \<notin> set (chain (mq c))" "next_of (mq c) a = None"
      "\<forall>x. mcons c \<noteq> MC_Delete a x"
    using ok(4) [OF assms(2)] by (simp_all add: private_node_def)
  note l = linked_exchange [OF ok(1) a(1-3)]
  note ch = linked_parts [OF ok(1)]
  have nh: "\<not> open_link c (mhead (mq c)) b" for b
    using ch(8) [of "mhead (mq c)" b] succ_in_last [OF ch(1), of "mhead (mq c)" b] ch(5) by auto
  have other: "mprods c j \<noteq> M_Link (mhead (mq c)) b" for j b
    using nh by (auto simp: open_link_def)
  have same: "next_of (mq ?c) p = next_of (mq c) p" "elem_of (mq ?c) p = elem_of (mq c) p"
      "nodes (mq ?c) = nodes (mq c)" "mtail (mq ?c) = mtail (mq c)"
      "chain (mq ?c) = chain (mq c) @ [a]" for p
    by (simp_all add: exchange_head_def next_of_def elem_of_def)
  have "open_link ?c = (\<lambda>p b. open_link c p b \<or> p = mhead (mq c) \<and> b = a)"
    using assms(2) by (auto simp: open_link_def fun_eq_iff split: if_splits) (metis mprod.distinct(5))+
  then have "linked (open_link ?c) (mq ?c)" using l(1) by simp
  moreover have "mcons_ok ?c"
    using ok(2) same a(4) by (auto simp: mcons_ok_def split: mcons.splits)
  moreover have "private_node ?c b" if "mprods c j = M_New b" "j \<noteq> i" for b j
  proof -
    have "b \<noteq> a" using that assms(2) ok(5) by blast
    then show ?thesis using ok(4) [OF that(1)] same by (auto simp: private_node_def)
  qed
  ultimately show ?thesis
    using ok(3,5,6) l(2) other
    by (auto simp: mchannel_ok_def mprods_ok_def m_in_hand_def split: if_splits)
qed

lemma step_link:
  assumes "mchannel_ok c" and "mprods c i = M_Link p a" and "link_node p a (mq c) = Some q'"
  shows "mchannel_ok (c\<lparr>mq := q', mprods := (mprods c)(i := M_Idle)\<rparr>)" (is "mchannel_ok ?c")
proof -
  note ok = mchannel_okD [OF assms(1)]
  have open_pa: "open_link c p a" using assms(2) by (auto simp: open_link_def)
  have r: "linked (\<lambda>p' b. open_link c p' b \<and> p' \<noteq> p) q'" "mpsc_contents q' = mpsc_contents (mq c)"
      "chain q' = chain (mq c)" "mtail q' = mtail (mq c)" "dom (nodes q') = dom (nodes (mq c))"
      "\<And>b. next_of q' b = (if b = p then Some a else next_of (mq c) b)"
      "\<And>b. elem_of q' b = elem_of (mq c) b"
    using linked_link [OF ok(1) open_pa] assms(3) by auto
  have p: "p \<in> set (chain (mq c))" "next_of (mq c) p = None"
    using linked_parts(7,8) [OF ok(1), of p a] open_pa succ_in_set by auto
  have "mprods c j \<noteq> M_Link p b" if "j \<noteq> i" for j b using ok(6) assms(2) that by blast
  then have "open_link ?c = (\<lambda>p' b. open_link c p' b \<and> p' \<noteq> p)"
    using assms(2) by (auto simp: open_link_def fun_eq_iff split: if_splits) (metis mprod.inject(2))+
  then have "linked (open_link ?c) (mq ?c)" using r(1) by simp
  moreover have "mcons_ok ?c"
    using ok(2) r(3-7) p by (auto simp: mcons_ok_def split: mcons.splits)
  moreover have "private_node ?c b" if "mprods c j = M_New b" for b j
    using ok(4) [OF that] r(3,5,6) p(1) by (auto simp: private_node_def)
  ultimately show ?thesis
    using ok(3,5,6) r(2) by (auto simp: mchannel_ok_def mprods_ok_def m_in_hand_def split: if_splits)
qed

lemma step_store:
  assumes "mchannel_ok c" and "mcons c = MC_Data t n x"
  shows "mchannel_ok (c\<lparr>mq := store_tail n (mq c), mcons := MC_Delete t x\<rparr>)" (is "mchannel_ok ?c")
proof -
  note ok = mchannel_okD [OF assms(1)]
  have t: "t = mtail (mq c)" "next_of (mq c) (mtail (mq c)) = Some n" "x = elem_of (mq c) n"
    using ok(2) assms(2) by (auto simp: mcons_ok_def)
  note s = linked_store_tail [OF ok(1) t(2)]
  have "open_link ?c = open_link c" by (simp add: open_link_def fun_eq_iff)
  then have "linked (open_link ?c) (mq ?c)" using s(1) by simp
  moreover have "mcons_ok ?c"
    using s(3) t(1) mtail_in_chain [OF ok(1)] linked_parts(3) [OF ok(1)]
    by (auto simp: mcons_ok_def store_tail_def)
  moreover have "private_node ?c b" if "mprods c j = M_New b" for b j
    using ok(4) [OF that] t(1) mtail_in_chain [OF ok(1)]
    by (auto simp: private_node_def store_tail_def next_of_def dest: list.set_sel(2) [rotated])
  ultimately show ?thesis
    using ok(3,5,6) s(2) t(3) assms(2) by (simp add: mchannel_ok_def mprods_ok_def m_in_hand_def)
qed

lemma step_delete:
  assumes "mchannel_ok c" and "mcons c = MC_Delete t x" and "delete_node t (mq c) = Some q'"
  shows "mchannel_ok (c\<lparr>mq := q', mcons := MC_Idle, delivered := delivered c @ [x]\<rparr>)"
    (is "mchannel_ok ?c")
proof -
  note ok = mchannel_okD [OF assms(1)]
  have t: "t \<in> dom (nodes (mq c))" "t \<notin> set (chain (mq c))"
    using ok(2) assms(2) by (auto simp: mcons_ok_def)
  have r: "linked (open_link c) q'" "mpsc_contents q' = mpsc_contents (mq c)"
      "chain q' = chain (mq c)" "nodes q' = (nodes (mq c))(t := None)"
    using linked_delete [OF ok(1) t(2,1)] assms(3) by auto
  have "open_link ?c = open_link c" by (simp add: open_link_def fun_eq_iff)
  then have "linked (open_link ?c) (mq ?c)" using r(1) by simp
  moreover have "private_node ?c b" if "mprods c j = M_New b" for b j
    using ok(4) [OF that] assms(2) r(3,4) by (auto simp: private_node_def next_of_def)
  ultimately show ?thesis
    using ok(3,5,6) r(2) assms(2) by (simp add: mchannel_ok_def mprods_ok_def m_in_hand_def mcons_ok_def)
qed

lemma mchannel_step:
  assumes "mpsc_step c c'" and "mchannel_ok c"
  shows "mchannel_ok c'"
  using assms(1)
proof (cases rule: mpsc_step.cases)
  case (m_new i a x)
  then show ?thesis using step_new [OF assms(2)] by simp
next
  case (m_exchange i a prev q')
  then show ?thesis using step_exchange [OF assms(2) m_exchange(2)] by (simp add: exchange_head_def)
next
  case (m_link i prev a q')
  then show ?thesis using step_link [OF assms(2) m_link(2,3)] by simp
next
  case (c_store t n x)
  then show ?thesis using step_store [OF assms(2) c_store(2)] by simp
next
  case (c_delete t x q')
  then show ?thesis using step_delete [OF assms(2) c_delete(2,3)] by simp
qed (use mchannel_okD [OF assms(2)] in
    \<open>auto simp: mchannel_ok_def mprods_ok_def mcons_ok_def m_in_hand_def private_node_def
      open_link_def [abs_def] next_of_def elem_of_def\<close>)

lemma mchannel_reach:
  assumes "mpsc_step\<^sup>*\<^sup>* (mchannel_new (mpsc_new alloc d)) c"
  shows "mchannel_ok c"
  using assms
proof (induction rule: rtranclp_induct)
  case base
  have "open_link (mchannel_new (mpsc_new alloc d)) = (\<lambda>p a. False)"
    by (simp add: open_link_def mchannel_new_def fun_eq_iff)
  then show ?case
    using mpsc_new_ok [of alloc d]
    by (simp add: mchannel_ok_def mprods_ok_def mcons_ok_def m_in_hand_def mchannel_new_def mpsc_ok_def)
qed (rule mchannel_step)

text \<open>
  C7. Under every interleaving of any number of producers with the consumer, and whatever free
  addresses \<open>new\<close> returns (addresses of deleted nodes included), the popped elements are a
  prefix of the pushed ones in the order of their exchanges; no thread ever touches a node
  that is not allocated; and a pop that answers \<open>nullopt\<close> while no producer stands between its
  exchange and its link has taken everything.
\<close>
theorem mpsc_concurrent_fifo:
  assumes "mpsc_step\<^sup>*\<^sup>* (mchannel_new (mpsc_new alloc d)) c"
  shows "(\<exists>rest. enqueued c = delivered c @ rest) \<and>
    (mprods c i = M_Link p a \<longrightarrow> link_node p a (mq c) \<noteq> None) \<and>
    (mcons c = MC_Tail t \<longrightarrow> nodes (mq c) t \<noteq> None) \<and>
    (mcons c = MC_Next t n \<longrightarrow> nodes (mq c) n \<noteq> None) \<and>
    (mcons c = MC_Delete t x \<longrightarrow> delete_node t (mq c) \<noteq> None) \<and>
    (mcons c = MC_Tail t \<and> next_of (mq c) t = None \<and> (\<forall>p a. \<not> open_link c p a) \<longrightarrow>
      enqueued c = delivered c)"
proof -
  have c: "mchannel_ok c" using assms by (rule mchannel_reach)
  note ok = mchannel_okD [OF c]
  note l = linked_parts [OF ok(1)]
  have "link_node p a (mq c) \<noteq> None" if "mprods c i = M_Link p a"
  proof -
    have "open_link c p a" using that by (auto simp: open_link_def)
    then show ?thesis using linked_link [OF ok(1)] by fastforce
  qed
  moreover have "nodes (mq c) t \<noteq> None" if "mcons c = MC_Tail t"
    using that ok(2) mpsc_tail_alive [OF ok(1)] by (simp add: mcons_ok_def)
  moreover have "nodes (mq c) n \<noteq> None" if "mcons c = MC_Next t n"
    using that ok(2) next_alive(2) [OF ok(1), of n] by (auto simp: mcons_ok_def)
  moreover have "delete_node t (mq c) \<noteq> None" if "mcons c = MC_Delete t x"
    using that ok(2) by (auto simp: mcons_ok_def delete_node_def)
  moreover have "enqueued c = delivered c"
    if "mcons c = MC_Tail t" "next_of (mq c) t = None" "\<forall>p a. \<not> open_link c p a"
  proof -
    have t: "t = mtail (mq c)" using that(1) ok(2) by (simp add: mcons_ok_def)
    have "tl (chain (mq c)) = []"
    proof (rule ccontr)
      assume "tl (chain (mq c)) \<noteq> []"
      then obtain y ys where "chain (mq c) = t # y # ys"
        using l(2,4) t by (cases "chain (mq c)"; cases "tl (chain (mq c))") auto
      then have "next_of (mq c) t = Some y" using l(7) [of t y] that(3) by simp
      with that(2) show False by simp
    qed
    then show ?thesis using ok(3) that(1) by (simp add: m_in_hand_def mpsc_contents_def)
  qed
  ultimately show ?thesis using ok(3) by blast
qed

subsection \<open>Witnesses\<close>

theorem mpsc_refines_fifo_witness:
  "\<exists>r e. queue_run (mpsc_push (\<lambda>h. LEAST a. h a = None)) mpsc_pop [Enq 7, Enq 8, Deq]
       (mpsc_new (\<lambda>h. LEAST a. h a = None) (0::nat)) = Some ([Accepted 7, Accepted 8, Got 7], r) \<and>
     mpsc_contents r = [8] \<and> mpsc_destroy r = Some e \<and> nodes e = Map.empty"
proof -
  have alloc: "allocator (\<lambda>h :: nat node_heap. LEAST a. h a = None)"
    unfolding allocator_def
  proof (intro allI impI)
    fix h :: "nat node_heap" assume "finite (dom h)"
    then have "\<exists>a. a \<notin> dom h" by (rule ex_new_if_finite [OF infinite_UNIV_nat])
    then show "h (LEAST a. h a = None) = None" by (metis (mono_tags) LeastI domIff)
  qed
  show ?thesis
    using mpsc_refines_fifo [OF alloc, of "[Enq 7, Enq 8, Deq]" 0] by (auto simp: room_in_def)
qed

text \<open>
  A producer that has exchanged the head and not linked its node yet hides a completed push
  behind it: the consumer finds the list empty.
\<close>

definition stalled :: "nat mchannel" where
  "stalled =
     \<lparr>mq = \<lparr>nodes = [0 \<mapsto> \<lparr>next_node = None, elem = 0\<rparr>, 2 \<mapsto> \<lparr>next_node = None, elem = 8\<rparr>,
                     1 \<mapsto> \<lparr>next_node = Some 2, elem = 7\<rparr>],
           mhead = 2, mtail = 0, chain = [0, 1, 2]\<rparr>,
      mprods = (\<lambda>i. M_Idle)(0 := M_Link 0 1, 1 := M_Idle), mcons = MC_Tail 0, enqueued = [7, 8], delivered = []\<rparr>"

lemma stalled_reached: "mpsc_step\<^sup>*\<^sup>* (mchannel_new (mpsc_new (\<lambda>h. 0) 0)) stalled"
proof -
  have "mpsc_step\<^sup>*\<^sup>* (mchannel_new (mpsc_new (\<lambda>h. 0) 0))
     \<lparr>mq = \<lparr>nodes = [0 \<mapsto> \<lparr>next_node = None, elem = 0\<rparr>, 1 \<mapsto> \<lparr>next_node = None, elem = 7\<rparr>],
           mhead = 1, mtail = 0, chain = [0, 1]\<rparr>,
      mprods = (\<lambda>i. M_Idle)(0 := M_Link 0 1), mcons = MC_Idle, enqueued = [7], delivered = []\<rparr>"
    unfolding mchannel_new_def mpsc_new_def Let_def
    apply (rule converse_rtranclp_into_rtranclp, rule m_new [where i = 0 and a = 1 and x = 7], simp, simp)
    apply (rule converse_rtranclp_into_rtranclp, rule m_exchange [where i = 0 and a = 1], simp,
      simp add: exchange_head_def)
    apply (simp add: new_node_def elem_of_def)
    done
  also have "mpsc_step\<^sup>*\<^sup>* \<dots> stalled"
    unfolding stalled_def
    apply (rule converse_rtranclp_into_rtranclp, rule m_new [where i = 1 and a = 2 and x = 8], simp, simp)
    apply (rule converse_rtranclp_into_rtranclp, rule m_exchange [where i = 1 and a = 2], simp,
      simp add: exchange_head_def)
    apply (rule converse_rtranclp_into_rtranclp, rule m_link [where i = 1 and a = 2], simp,
      simp add: link_node_def new_node_def)
    apply (rule converse_rtranclp_into_rtranclp, rule c_load, simp)
    apply (simp add: new_node_def elem_of_def)
    done
  finally show ?thesis .
qed

theorem mpsc_concurrent_fifo_witness:
  "mprods stalled 0 = M_Link 0 1 \<and> link_node 0 1 (mq stalled) \<noteq> None \<and>
   mcons stalled = MC_Tail 0 \<and> next_of (mq stalled) 0 = None \<and> enqueued stalled \<noteq> delivered stalled"
proof -
  have "mprods stalled 0 = M_Link 0 1" "mcons stalled = MC_Tail 0" "next_of (mq stalled) 0 = None"
      "enqueued stalled \<noteq> delivered stalled"
    by (simp_all add: stalled_def next_of_def)
  then show ?thesis
    using mpsc_concurrent_fifo [OF stalled_reached, of 0 0 1] by blast
qed

end
