(* ===== verification/Memory_Pool.thy ===== *)
theory Memory_Pool
  imports Prelude "HOL-Library.Monad_Syntax"
begin

text \<open>
  \<open>MemoryPool\<close> of \<open>include/memory_pool.hpp\<close>. A slot is a union: it holds an element or the
  pointer to the next free slot, and reading the pointer out of a slot that holds an element is
  undefined behaviour (\<open>None\<close>). A slot's address is its chunk and its index in it; \<open>ChunkSize\<close>
  is the parameter \<open>n\<close>. \<open>aligned_alloc\<close> is the parameter \<open>alloc\<close>: it is assumed to succeed and
  to return a chunk that is not in use.
\<close>

type_synonym slot_addr = "nat \<times> nat"

datatype 'a slot = Element 'a | Next "slot_addr option"

type_synonym 'a slots = "slot_addr \<rightharpoonup> 'a slot"

record 'a pool =
  chunks :: "nat list"
  free_list :: "slot_addr option"
  allocated_count :: u64
  mem :: "'a slots"

definition chunk_alloc :: "(nat list \<Rightarrow> nat) \<Rightarrow> bool" where
  "chunk_alloc alloc \<longleftrightarrow> (\<forall>cs. alloc cs \<notin> set cs)"

text \<open>The loop that threads the free list through the slots \<open>0, \<dots>, k\<close> of a chunk.\<close>

definition link_slots :: "nat \<Rightarrow> nat \<Rightarrow> 'a slots \<Rightarrow> 'a slots" where
  "link_slots c k m = fold (\<lambda>i m. m((c, i) \<mapsto> Next (Some (c, i + 1)))) [0..<k] m"

definition allocate_chunk :: "nat \<Rightarrow> (nat list \<Rightarrow> nat) \<Rightarrow> 'a pool \<Rightarrow> 'a pool" where
  "allocate_chunk n alloc p =
     (let c = alloc (chunks p);
          m = link_slots c (n - 1) (mem p)
      in p\<lparr>chunks := c # chunks p, mem := m((c, n - 1) \<mapsto> Next (free_list p)),
           free_list := Some (c, 0)\<rparr>)"

definition pool_new :: "nat \<Rightarrow> (nat list \<Rightarrow> nat) \<Rightarrow> 'a pool" where
  "pool_new n alloc =
     allocate_chunk n alloc \<lparr>chunks = [], free_list = None, allocated_count = 0, mem = Map.empty\<rparr>"

definition read_next :: "'a slots \<Rightarrow> slot_addr \<Rightarrow> slot_addr option option" where
  "read_next m a = (case m a of Some (Next nx) \<Rightarrow> Some nx | _ \<Rightarrow> None)"

definition allocate :: "nat \<Rightarrow> (nat list \<Rightarrow> nat) \<Rightarrow> 'a \<Rightarrow> 'a pool \<Rightarrow> (slot_addr \<times> 'a pool) option" where
  "allocate n alloc x p =
     (let p1 = (if free_list p = None then allocate_chunk n alloc p else p)
      in do {
        a \<leftarrow> free_list p1;
        nx \<leftarrow> read_next (mem p1) a;
        Some (a, p1\<lparr>free_list := nx, allocated_count := allocated_count p1 + 1,
                    mem := (mem p1)(a \<mapsto> Element x)\<rparr>)
      })"

definition deallocate :: "slot_addr option \<Rightarrow> 'a pool \<Rightarrow> 'a pool" where
  "deallocate ptr p =
     (case ptr of
        None \<Rightarrow> p
      | Some a \<Rightarrow> p\<lparr>mem := (mem p)(a \<mapsto> Next (free_list p)), free_list := Some a,
                    allocated_count := allocated_count p - 1\<rparr>)"

definition allocated :: "'a pool \<Rightarrow> u64" where
  "allocated p = allocated_count p"

text \<open>The destructor walks the list of chunks and frees each.\<close>

fun free_chunks :: "nat list \<Rightarrow> 'a slots \<Rightarrow> 'a slots" where
  "free_chunks [] m = m"
| "free_chunks (c # cs) m = free_chunks cs (\<lambda>a. if fst a = c then None else m a)"

definition pool_destroy :: "'a pool \<Rightarrow> 'a slots" where
  "pool_destroy p = free_chunks (chunks p) (mem p)"

subsection \<open>What the pool holds\<close>

definition live :: "'a pool \<Rightarrow> slot_addr \<rightharpoonup> 'a" where
  "live p a = (case mem p a of Some (Element x) \<Rightarrow> Some x | _ \<Rightarrow> None)"

fun path :: "'a slots \<Rightarrow> slot_addr option \<Rightarrow> slot_addr list \<Rightarrow> bool" where
  "path m fl [] \<longleftrightarrow> fl = None"
| "path m fl (a # as) \<longleftrightarrow> fl = Some a \<and> (\<exists>nx. m a = Some (Next nx) \<and> path m nx as)"

definition pool_inv :: "nat \<Rightarrow> 'a pool \<Rightarrow> slot_addr list \<Rightarrow> bool" where
  "pool_inv n p fs \<longleftrightarrow> path (mem p) (free_list p) fs \<and> distinct fs \<and>
     set fs = {a. \<exists>nx. mem p a = Some (Next nx)} \<and>
     dom (mem p) = set (chunks p) \<times> {0..<n} \<and> distinct (chunks p) \<and>
     allocated_count p = of_nat (card (dom (live p)))"

definition pool_ok :: "nat \<Rightarrow> 'a pool \<Rightarrow> bool" where
  "pool_ok n p \<longleftrightarrow> (\<exists>fs. pool_inv n p fs)"

lemma path_upd: "a \<notin> set as \<Longrightarrow> path (m(a \<mapsto> s)) fl as \<longleftrightarrow> path m fl as"
  by (induction as arbitrary: fl) auto

lemma path_cong: "(\<And>a. a \<in> set as \<Longrightarrow> m a = m' a) \<Longrightarrow> path m fl as \<longleftrightarrow> path m' fl as"
  by (induction as arbitrary: fl) auto

lemma link_slots_apply:
  "link_slots c k m a = (if fst a = c \<and> snd a < k then Some (Next (Some (c, snd a + 1))) else m a)"
proof (induction k)
  case (Suc k)
  have "link_slots c (Suc k) m = (link_slots c k m)((c, k) \<mapsto> Next (Some (c, k + 1)))"
    by (simp add: link_slots_def)
  with Suc show ?case by (cases a) auto
qed (simp add: link_slots_def)

lemma path_chunk:
  assumes "\<And>i. i < k \<Longrightarrow> m (c, i) = Some (Next (Some (c, i + 1)))" and "m (c, k) = Some (Next fl)"
    and "path m fl fs" and "j \<le> k"
  shows "path m (Some (c, j)) (map (Pair c) [j..<Suc k] @ fs)"
  using assms(4)
proof (induction j rule: inc_induct)
  case base
  show ?case using assms(2,3) by simp
next
  case (step j)
  then show ?case using assms(1) [of j] by (simp add: upt_conv_Cons del: upt_Suc)
qed

lemma live_dom: "dom (live p) = dom (mem p) - {a. \<exists>nx. mem p a = Some (Next nx)}"
  by (auto simp: live_def dom_def split: option.splits slot.splits)

lemma allocate_chunk_inv:
  assumes "pool_inv n p fs" and "chunk_alloc alloc" and "0 < n"
  shows "pool_inv n (allocate_chunk n alloc p) (map (Pair (alloc (chunks p))) [0..<n] @ fs)"
    and "live (allocate_chunk n alloc p) = live p"
proof -
  let ?c = "alloc (chunks p)" and ?p = "allocate_chunk n alloc p"
  have c: "?c \<notin> set (chunks p)" using assms(2) by (simp add: chunk_alloc_def)
  have dom: "dom (mem p) = set (chunks p) \<times> {0..<n}"
    and fs: "set fs = {a. \<exists>nx. mem p a = Some (Next nx)}" "distinct fs" "path (mem p) (free_list p) fs"
    using assms(1) by (simp_all add: pool_inv_def)
  have new: "mem p (?c, i) = None" for i using c dom by (auto simp: dom_def)
  have m: "mem ?p a = (if fst a = ?c \<and> snd a < n
      then Some (Next (if snd a = n - 1 then free_list p else Some (?c, snd a + 1))) else mem p a)" for a
    using assms(3) by (cases a) (auto simp: allocate_chunk_def Let_def link_slots_apply)
  have fsc: "fst a \<noteq> ?c" if "a \<in> set fs" for a
  proof
    assume "fst a = ?c"
    then have "mem p a = None" using new [of "snd a"] by (cases a) simp
    moreover have "\<exists>nx. mem p a = Some (Next nx)" using that fs(1) by blast
    ultimately show False by simp
  qed
  have "path (mem ?p) (free_list p) fs"
    using fs(3) path_cong [of fs "mem ?p" "mem p"] m fsc by simp
  then have "path (mem ?p) (Some (?c, 0)) (map (Pair ?c) [0..<Suc (n - 1)] @ fs)"
    by (intro path_chunk) (use m assms(3) in auto)
  then have "path (mem ?p) (free_list ?p) (map (Pair ?c) [0..<n] @ fs)"
    using assms(3) by (simp add: allocate_chunk_def Let_def)
  moreover have "distinct (map (Pair ?c) [0..<n] @ fs)"
    using fs(2) by (auto simp: distinct_map inj_on_def dest: fsc)
  moreover have "set (map (Pair ?c) [0..<n] @ fs) = {a. \<exists>nx. mem ?p a = Some (Next nx)}"
    using fs(1) new by (auto simp: m)
  moreover have "dom (mem ?p) = set (chunks ?p) \<times> {0..<n}"
  proof -
    have "dom (mem ?p) = {a. fst a = ?c \<and> snd a < n} \<union> dom (mem p)" using m by (auto simp: dom_def)
    then show ?thesis by (auto simp: dom allocate_chunk_def Let_def)
  qed
  moreover have live: "live ?p = live p"
    using new by (auto simp: live_def m fun_eq_iff)
  ultimately show "pool_inv n ?p (map (Pair ?c) [0..<n] @ fs)"
    using assms(1) c by (simp add: pool_inv_def) (simp add: allocate_chunk_def Let_def)
  show "live ?p = live p" by (rule live)
qed

lemma take_slot:
  assumes "pool_inv n p (a # fs)"
  shows "free_list p = Some a" and "\<exists>nx. read_next (mem p) a = Some nx \<and>
    pool_inv n (p\<lparr>free_list := nx, allocated_count := allocated_count p + 1, mem := (mem p)(a \<mapsto> Element x)\<rparr>) fs"
    and "live p a = None"
proof -
  obtain nx where nx: "mem p a = Some (Next nx)" "path (mem p) nx fs" "free_list p = Some a"
    using assms by (auto simp: pool_inv_def)
  have a: "a \<notin> set fs" "a \<in> dom (mem p)" using assms nx by (auto simp: pool_inv_def)
  let ?p = "p\<lparr>free_list := nx, allocated_count := allocated_count p + 1, mem := (mem p)(a \<mapsto> Element x)\<rparr>"
  show "free_list p = Some a" by (rule nx)
  show none: "live p a = None" by (simp add: live_def nx)
  have "live ?p = (live p)(a \<mapsto> x)" by (auto simp: live_def fun_eq_iff)
  moreover have "finite (dom (live p))"
    using assms by (simp add: live_dom pool_inv_def)
  ultimately have "card (dom (live ?p)) = Suc (card (dom (live p)))"
    using none by (simp add: card_insert_if domIff)
  moreover have "set fs = {b. \<exists>nx. mem ?p b = Some (Next nx)}"
  proof -
    have "set (a # fs) = {b. \<exists>nx. mem p b = Some (Next nx)}" using assms by (simp add: pool_inv_def)
    then show ?thesis using a(1) by (auto split: if_splits)
  qed
  moreover have "dom (mem ?p) = dom (mem p)" using a(2) by auto
  ultimately have "pool_inv n ?p fs"
    using assms nx(2) a(1) by (simp add: pool_inv_def path_upd)
  with nx(1) show "\<exists>nx. read_next (mem p) a = Some nx \<and>
      pool_inv n (p\<lparr>free_list := nx, allocated_count := allocated_count p + 1, mem := (mem p)(a \<mapsto> Element x)\<rparr>) fs"
    by (simp add: read_next_def)
qed

lemma allocate_ok:
  assumes "pool_ok n p" and "chunk_alloc alloc" and "0 < n"
  shows "\<exists>a p'. allocate n alloc x p = Some (a, p') \<and> pool_ok n p' \<and> live p a = None \<and>
    live p' = (live p)(a \<mapsto> x) \<and> a \<in> set (chunks p') \<times> {0..<n} \<and>
    chunks p' = (if dom (live p) = set (chunks p) \<times> {0..<n} then alloc (chunks p) # chunks p else chunks p)"
proof -
  obtain fs where fs: "pool_inv n p fs" using assms(1) by (auto simp: pool_ok_def)
  let ?p1 = "if free_list p = None then allocate_chunk n alloc p else p"
  have empty: "free_list p = None \<longleftrightarrow> fs = []" using fs by (cases fs) (auto simp: pool_inv_def)
  have full: "dom (live p) = set (chunks p) \<times> {0..<n} \<longleftrightarrow> fs = []"
  proof -
    have "set fs \<subseteq> dom (mem p)" "dom (live p) = dom (mem p) - set fs"
      using fs by (auto simp: live_dom pool_inv_def)
    moreover have "dom (mem p) = set (chunks p) \<times> {0..<n}" using fs by (simp add: pool_inv_def)
    ultimately show ?thesis by (metis Diff_empty Diff_disjoint Int_absorb2 inf_commute set_empty)
  qed
  obtain a gs where gs: "pool_inv n ?p1 (a # gs)" and live1: "live ?p1 = live p"
  proof (cases fs)
    case Nil
    obtain i js where i: "[0..<n] = i # js" using assms(3) by (cases "[0..<n]") auto
    show ?thesis
      using allocate_chunk_inv [OF fs assms(2,3)] Nil empty i by (intro that) auto
  next
    case (Cons b bs)
    with fs empty show ?thesis by (intro that) auto
  qed
  note t = take_slot [OF gs]
  obtain nx where nx: "read_next (mem ?p1) a = Some nx" "pool_inv n (?p1\<lparr>free_list := nx,
      allocated_count := allocated_count ?p1 + 1, mem := (mem ?p1)(a \<mapsto> Element x)\<rparr>) gs"
    using t(2) by blast
  let ?p2 = "?p1\<lparr>free_list := nx, allocated_count := allocated_count ?p1 + 1, mem := (mem ?p1)(a \<mapsto> Element x)\<rparr>"
  have eq: "allocate n alloc x p = Some (a, ?p2)"
    unfolding allocate_def Let_def using t(1) nx(1) by simp
  have "live ?p2 = (live ?p1)(a \<mapsto> x)" by (auto simp: live_def fun_eq_iff)
  moreover have "a \<in> dom (mem ?p2)" by simp
  then have "a \<in> set (chunks ?p2) \<times> {0..<n}" using nx(2) unfolding pool_inv_def by (elim conjE) (simp only:)
  moreover have "chunks ?p2 = (if fs = [] then alloc (chunks p) # chunks p else chunks p)"
    using empty by (simp add: allocate_chunk_def Let_def)
  ultimately show ?thesis
    using eq nx(2) t(3) live1 full by (intro exI [of _ a] exI [of _ ?p2]) (auto simp: pool_ok_def)
qed

lemma deallocate_ok:
  assumes "pool_ok n p" and "live p a \<noteq> None"
  shows "pool_ok n (deallocate (Some a) p)" and "live (deallocate (Some a) p) = (live p)(a := None)"
    and "chunks (deallocate (Some a) p) = chunks p"
proof -
  obtain fs where fs: "pool_inv n p fs" using assms(1) by (auto simp: pool_ok_def)
  let ?p = "deallocate (Some a) p"
  obtain x where x: "mem p a = Some (Element x)"
    using assms(2) by (auto simp: live_def split: option.splits slot.splits)
  have m: "mem ?p = (mem p)(a \<mapsto> Next (free_list p))" "free_list ?p = Some a" "chunks ?p = chunks p"
    by (simp_all add: deallocate_def)
  show live: "live ?p = (live p)(a := None)" by (auto simp: live_def m fun_eq_iff)
  show "chunks ?p = chunks p" by (rule m)
  have a: "a \<notin> set fs" using fs x by (auto simp: pool_inv_def)
  have "a \<in> dom (live p)" using assms(2) by auto
  moreover have "finite (dom (live p))" using fs by (simp add: live_dom pool_inv_def)
  ultimately have "card (dom (live p)) = Suc (card (dom (live ?p)))"
    by (simp add: live card_Diff_singleton) (metis Suc_pred card_gt_0_iff empty_iff)
  then have "allocated_count ?p = of_nat (card (dom (live ?p)))"
    using fs by (simp add: deallocate_def [of "Some a"] pool_inv_def algebra_simps)
  moreover have "set (a # fs) = {b. \<exists>nx. mem ?p b = Some (Next nx)}"
    using fs x by (auto simp: pool_inv_def m split: if_splits)
  moreover have "dom (mem ?p) = dom (mem p)" using x by (auto simp: m)
  ultimately have "pool_inv n ?p (a # fs)"
    using fs a unfolding pool_inv_def by (simp add: m path_upd)
  then show "pool_ok n ?p" by (auto simp: pool_ok_def)
qed

lemma pool_new_ok:
  assumes "chunk_alloc alloc" and "0 < n"
  shows "pool_ok n (pool_new n alloc :: 'a pool)" and "live (pool_new n alloc :: 'a pool) = Map.empty"
proof -
  let ?p = "\<lparr>chunks = [], free_list = None, allocated_count = 0, mem = Map.empty\<rparr> :: 'a pool"
  have live: "live ?p = Map.empty" by (simp add: live_def fun_eq_iff)
  then have "pool_inv n ?p []" by (simp add: pool_inv_def)
  from allocate_chunk_inv [OF this assms] live
  show "pool_ok n (pool_new n alloc :: 'a pool)" and "live (pool_new n alloc :: 'a pool) = Map.empty"
    unfolding pool_ok_def pool_new_def by (blast, simp)
qed

subsection \<open>A client's run\<close>

text \<open>
  A client allocates, and frees pointers it holds: \<open>pool_trace\<close> are the states it can reach,
  with the list of what happened. \<open>replay\<close> is what those events mean for the objects alive.
\<close>

datatype 'a pool_event = Allocated slot_addr 'a | Freed slot_addr

inductive pool_trace :: "nat \<Rightarrow> (nat list \<Rightarrow> nat) \<Rightarrow> 'a pool_event list \<Rightarrow> 'a pool \<Rightarrow> bool"
  for n alloc where
  start: "pool_trace n alloc [] (pool_new n alloc)"
| alloc_event: "pool_trace n alloc es p \<Longrightarrow> allocate n alloc x p = Some (a, p') \<Longrightarrow>
    pool_trace n alloc (es @ [Allocated a x]) p'"
| free_event: "pool_trace n alloc es p \<Longrightarrow> live p a \<noteq> None \<Longrightarrow>
    pool_trace n alloc (es @ [Freed a]) (deallocate (Some a) p)"

fun replay :: "'a pool_event list \<Rightarrow> (slot_addr \<rightharpoonup> 'a) \<Rightarrow> (slot_addr \<rightharpoonup> 'a) option" where
  "replay [] h = Some h"
| "replay (Allocated a x # es) h = (if h a = None then replay es (h(a \<mapsto> x)) else None)"
| "replay (Freed a # es) h = (if h a = None then None else replay es (h(a := None)))"

lemma replay_append: "replay (es @ fs) h = Option.bind (replay es h) (replay fs)"
proof (induction es arbitrary: h)
  case (Cons e es)
  then show ?case by (cases e) (simp_all add: fun_upd_def)
qed simp

lemma pool_trace_ok:
  assumes "pool_trace n alloc es p" and "chunk_alloc alloc" and "0 < n"
  shows "pool_ok n p \<and> replay es Map.empty = Some (live p)"
  using assms(1)
proof (induction rule: pool_trace.induct)
  case start
  show ?case using pool_new_ok [OF assms(2,3), where 'a = 'a] by simp
next
  case (alloc_event es p x a p')
  then show ?case
    using allocate_ok [of n p alloc x] assms(2,3) by (auto simp: replay_append)
next
  case (free_event es p a)
  then show ?case using deallocate_ok [of n p a] by (auto simp: replay_append)
qed

lemma allocated_live: "pool_ok n p \<Longrightarrow> allocated p = of_nat (card (dom (live p)))"
  by (auto simp: pool_ok_def pool_inv_def allocated_def)

lemma free_chunks_apply: "free_chunks cs m a = (if fst a \<in> set cs then None else m a)"
  by (induction cs m rule: free_chunks.induct) auto

text \<open>
  C8. The pool is a heap: in every run of a client that frees only what it holds, each
  allocation returns a slot inside a chunk that is not in use, every object keeps its value
  until it is freed (\<open>replay\<close> of the events gives the live objects), \<open>allocated()\<close> counts the
  live objects, the next \<open>allocate\<close> is defined, and the destructor releases every slot.
\<close>
theorem pool_refines_heap:
  assumes "pool_trace n alloc es p" and "chunk_alloc alloc" and "0 < n"
  shows "replay es Map.empty = Some (live p) \<and> allocated p = of_nat (card (dom (live p))) \<and>
    dom (live p) \<subseteq> set (chunks p) \<times> {0..<n} \<and>
    (\<exists>a p'. allocate n alloc x p = Some (a, p') \<and> live p a = None \<and> live p' = (live p)(a \<mapsto> x)) \<and>
    pool_destroy p = Map.empty"
proof -
  note ok = pool_trace_ok [OF assms, THEN conjunct1]
  have "dom (mem p) = set (chunks p) \<times> {0..<n}" using ok by (auto simp: pool_ok_def pool_inv_def)
  moreover have "mem p a = None" if "fst a \<notin> set (chunks p)" for a
  proof -
    have "a \<notin> dom (mem p)" unfolding \<open>dom (mem p) = _\<close> using that by (cases a) auto
    then show ?thesis by (simp add: domIff)
  qed
  ultimately have "dom (live p) \<subseteq> set (chunks p) \<times> {0..<n}" and "pool_destroy p = Map.empty"
    using live_dom [of p] by (auto simp: pool_destroy_def free_chunks_apply fun_eq_iff)
  with allocate_ok [OF ok assms(2,3), of x] pool_trace_ok [OF assms] allocated_live [OF ok] show ?thesis
    by blast
qed

text \<open>
  Slots are reused: a slot that was just freed is the next one handed out, without a new
  chunk; and a chunk is added only when every slot of every chunk holds a live object.
\<close>
theorem pool_reuses_slots:
  assumes "pool_trace n alloc es p" and "chunk_alloc alloc" and "0 < n" and "live p a \<noteq> None"
  shows "\<exists>p'. allocate n alloc y (deallocate (Some a) p) = Some (a, p') \<and>
      live p' = (live p)(a \<mapsto> y) \<and> chunks p' = chunks p \<and> allocated p' = allocated p \<and>
    (\<exists>b q. allocate n alloc x p = Some (b, q) \<and>
      (chunks q = chunks p \<longleftrightarrow> dom (live p) \<noteq> set (chunks p) \<times> {0..<n}))"
proof -
  note ok = pool_trace_ok [OF assms(1-3), THEN conjunct1]
  let ?d = "deallocate (Some a) p"
  have d: "free_list ?d = Some a" "mem ?d a = Some (Next (free_list p))" "chunks ?d = chunks p"
      "allocated_count ?d = allocated_count p - 1"
    by (simp_all add: deallocate_def)
  let ?p = "?d\<lparr>free_list := free_list p, allocated_count := allocated_count ?d + 1, mem := (mem ?d)(a \<mapsto> Element y)\<rparr>"
  have "allocate n alloc y ?d = Some (a, ?p)" by (simp add: allocate_def Let_def d read_next_def)
  moreover have "live ?p = (live ?d)(a \<mapsto> y)" by (auto simp: live_def fun_eq_iff)
  then have "live ?p = (live p)(a \<mapsto> y)" using deallocate_ok(2) [OF ok assms(4)] by simp
  ultimately show ?thesis
    using allocate_ok [OF ok assms(2,3), of x] d
    by (intro exI [of _ ?p]) (auto simp: allocated_def)
qed

subsection \<open>Witnesses\<close>

text \<open>Chunks of two slots, numbered in the order of their allocation.\<close>

lemma sample_alloc: "chunk_alloc (\<lambda>cs. Suc (sum_list cs))"
proof -
  have "Suc (sum_list cs) \<noteq> c" if "c \<in> set cs" for c cs
    using member_le_sum_list [OF that] by simp
  then show ?thesis by (auto simp: chunk_alloc_def)
qed

lemma sample_trace:
  "\<exists>p. pool_trace 2 (\<lambda>cs. Suc (sum_list cs)) [Allocated (1, 0) 7, Allocated (1, 1) 8] p \<and>
     live p (1, 0) = Some (7::nat) \<and> chunks p = [1]"
proof (intro exI conjI)
  let ?al = "\<lambda>cs. Suc (sum_list cs)"
  let ?p1 = "snd (the (allocate 2 ?al (7::nat) (pool_new 2 ?al)))"
  let ?p2 = "snd (the (allocate 2 ?al 8 ?p1))"
  have *: "r = Some (a, snd (the r))" if "map_option fst r = Some a" for r :: "(slot_addr \<times> nat pool) option" and a
    using that by auto
  have "allocate 2 ?al 7 (pool_new 2 ?al) = Some ((1, 0), ?p1)" by (rule *) code_simp
  with pool_trace.alloc_event [OF pool_trace.start] have "pool_trace 2 ?al ([] @ [Allocated (1, 0) 7]) ?p1" .
  moreover have "allocate 2 ?al 8 ?p1 = Some ((1, 1), ?p2)" by (rule *) code_simp
  ultimately show "pool_trace 2 ?al [Allocated (1, 0) 7, Allocated (1, 1) 8] ?p2"
    by (auto dest: pool_trace.alloc_event)
  show "live ?p2 (1, 0) = Some (7::nat)" and "chunks ?p2 = [1]" by code_simp+
qed

theorem pool_refines_heap_witness:
  "\<exists>p. pool_trace 2 (\<lambda>cs. Suc (sum_list cs)) [Allocated (1, 0) 7, Allocated (1, 1) 8] p \<and>
     live p = [(1, 0) \<mapsto> 7, (1, 1) \<mapsto> (8::nat)] \<and>
     (\<exists>a p'. allocate 2 (\<lambda>cs. Suc (sum_list cs)) 9 p = Some (a, p') \<and> live p a = None)"
proof -
  obtain p where p: "pool_trace 2 (\<lambda>cs. Suc (sum_list cs)) [Allocated (1, 0) 7, Allocated (1, 1) (8::nat)] p"
    using sample_trace by blast
  show ?thesis using pool_refines_heap [OF p sample_alloc, of 9] p by (auto split: if_splits)
qed

theorem pool_reuses_slots_witness:
  "\<exists>p p'. live p (1, 0) = Some (7::nat) \<and>
     allocate 2 (\<lambda>cs. Suc (sum_list cs)) 9 (deallocate (Some (1, 0)) p) = Some ((1, 0), p') \<and>
     live p' (1, 0) = Some 9"
proof -
  obtain p where p: "pool_trace 2 (\<lambda>cs. Suc (sum_list cs)) [Allocated (1, 0) 7, Allocated (1, 1) (8::nat)] p"
      "live p (1, 0) = Some 7"
    using sample_trace by blast
  then obtain p' where "allocate 2 (\<lambda>cs. Suc (sum_list cs)) 9 (deallocate (Some (1, 0)) p) = Some ((1, 0), p')"
      "live p' = (live p)((1, 0) \<mapsto> 9)"
    using pool_reuses_slots [OF p(1) sample_alloc, of "(1, 0)" 9 0] by auto
  with p(2) show ?thesis by auto
qed

end
