(* ===== verification/Tick.thy ===== *)
theory Tick
  imports Bytes
begin

text \<open>
  The tick recorder and reader: \<open>include/tick_recorder.hpp\<close> and \<open>src/tick_recorder.cpp\<close> (their
  POSIX branch). The file is a byte list. What the operating system answers is a parameter:
  whether \<open>open\<close> succeeds, and for the \<open>i\<close>-th record whether \<open>ftruncate\<close> and \<open>mmap\<close> succeed
  (\<open>env i\<close>). A store through a pointer that is not mapped, or into mapped memory behind the end
  of the file, is undefined (a fault or a lost write): the result \<open>None\<close>. Sizes are natural
  numbers: no file comes near \<open>2 ^ 64\<close> bytes.
\<close>

record tick_record =
  t_timestamp :: u64
  t_symbol :: "u8 list"
  t_price :: i64
  t_size :: u64
  t_side :: u8
  t_flags :: u8
  t_padding :: u16

text \<open>The struct has 36 bytes of members and an alignment of eight.\<close>

definition sizeof_tick :: nat where
  "sizeof_tick = 40"

definition encode_tick :: "tick_record \<Rightarrow> u8 list" where
  "encode_tick t =
     le_bytes 8 (t_timestamp t) @ t_symbol t @ le_bytes 8 (t_price t) @ le_bytes 8 (t_size t) @
     [t_side t, t_flags t] @ le_bytes 2 (t_padding t) @ replicate 4 0"

definition decode_tick :: "u8 list \<Rightarrow> tick_record" where
  "decode_tick s =
     \<lparr>t_timestamp = le (fld s 0 8), t_symbol = fld s 8 8, t_price = le (fld s 16 8),
      t_size = le (fld s 24 8), t_side = hd (fld s 32 1), t_flags = hd (fld s 33 1),
      t_padding = le (fld s 34 2)\<rparr>"

subsection \<open>The recorder\<close>

text \<open>\<open>Failed\<close> is the pointer value \<open>MAP_FAILED\<close>, which is not null.\<close>

datatype mapping = Null | Failed | Mapped

record recorder =
  rc_count :: nat
  rc_mapping :: mapping
  rc_mapped_size :: nat
  rc_use_mmap :: bool
  rc_file :: "u8 list"
  rc_stream :: "u8 list"
  rc_stream_ok :: bool

text \<open>
  \<open>open_ok\<close> is the outcome of \<open>open\<close>, \<open>stream_ok\<close> that of \<open>ofstream::open\<close>; both truncate the file.
\<close>

definition recorder_new :: "bool \<Rightarrow> bool \<Rightarrow> bool \<Rightarrow> recorder" where
  "recorder_new use_mmap open_ok stream_ok =
     \<lparr>rc_count = 0, rc_mapping = Null, rc_mapped_size = 0, rc_use_mmap = (use_mmap \<and> open_ok),
      rc_file = [], rc_stream = [], rc_stream_ok = stream_ok\<rparr>"

definition resize :: "nat \<Rightarrow> u8 list \<Rightarrow> u8 list" where
  \<comment> \<open>\<open>ftruncate\<close>: cut, or extend with zeros\<close>
  "resize n f = take n f @ replicate (n - length f) 0"

definition remap_if_needed :: "bool \<times> bool \<Rightarrow> recorder \<Rightarrow> recorder" where
  "remap_if_needed outcome s =
     (let needed = (rc_count s + 1) * sizeof_tick
      in if needed \<le> rc_mapped_size s then s
         else
           let new_size = max (needed * 2) (1024 * 1024);
               s1 = (if rc_mapping s = Mapped then s\<lparr>rc_mapping := Null\<rparr> else s)
           in if fst outcome then
                (let s2 = s1\<lparr>rc_file := resize new_size (rc_file s1)\<rparr>
                 in if snd outcome then s2\<lparr>rc_mapping := Mapped, rc_mapped_size := new_size\<rparr>
                    else s2\<lparr>rc_mapping := Failed\<rparr>)
              else s1)"

definition store_at :: "nat \<Rightarrow> u8 list \<Rightarrow> u8 list \<Rightarrow> u8 list option" where
  "store_at off bs f =
     (if off + length bs \<le> length f then Some (take off f @ bs @ drop (off + length bs) f) else None)"

definition write_record :: "bool \<times> bool \<Rightarrow> tick_record \<Rightarrow> recorder \<Rightarrow> recorder option" where
  "write_record outcome t s =
     (if rc_use_mmap s then
        (let s1 = remap_if_needed outcome s
         in case rc_mapping s1 of
              Null \<Rightarrow> Some (s1\<lparr>rc_count := rc_count s1 + 1\<rparr>)
            | Failed \<Rightarrow> None
            | Mapped \<Rightarrow>
                map_option (\<lambda>f. s1\<lparr>rc_file := f, rc_count := rc_count s1 + 1\<rparr>)
                  (store_at (rc_count s1 * sizeof_tick) (encode_tick t) (rc_file s1)))
      else Some (s\<lparr>rc_stream := rc_stream s @ (if rc_stream_ok s then encode_tick t else []),
                   rc_count := rc_count s + 1\<rparr>))"

definition symbol_bytes :: "string \<Rightarrow> u8 list" where
  "symbol_bytes s = take 8 (map ch s) @ replicate (8 - length s) 0"

definition trade_record :: "u64 \<Rightarrow> string \<Rightarrow> i64 \<Rightarrow> u64 \<Rightarrow> u8 \<Rightarrow> tick_record" where
  "trade_record ts nm p sz sd =
     \<lparr>t_timestamp = ts, t_symbol = symbol_bytes nm, t_price = p, t_size = sz, t_side = sd,
      t_flags = 1, t_padding = 0\<rparr>"

definition bid_record :: "u64 \<Rightarrow> string \<Rightarrow> i64 \<Rightarrow> u64 \<Rightarrow> tick_record" where
  "bid_record ts nm p sz =
     \<lparr>t_timestamp = ts, t_symbol = symbol_bytes nm, t_price = p, t_size = sz, t_side = 0,
      t_flags = 2, t_padding = 0\<rparr>"

definition record_trade ::
  "(nat \<Rightarrow> bool \<times> bool) \<Rightarrow> u64 \<Rightarrow> string \<Rightarrow> i64 \<Rightarrow> u64 \<Rightarrow> u8 \<Rightarrow> recorder \<Rightarrow> recorder option" where
  "record_trade env ts nm p sz sd s = write_record (env (rc_count s)) (trade_record ts nm p sz sd) s"

definition record_quote ::
  "(nat \<Rightarrow> bool \<times> bool) \<Rightarrow> u64 \<Rightarrow> string \<Rightarrow> i64 \<Rightarrow> u64 \<Rightarrow> i64 \<Rightarrow> u64 \<Rightarrow> recorder \<Rightarrow> recorder option" where
  "record_quote env ts nm bp bs ap sz s =
     (let bid = bid_record ts nm bp bs;
          ask = bid\<lparr>t_price := ap, t_size := sz, t_side := 1\<rparr>
      in do {
        s1 \<leftarrow> write_record (env (rc_count s)) bid s;
        write_record (env (rc_count s1)) ask s1
      })"

text \<open>The argument of \<open>flush\<close> is the outcome of its \<open>ftruncate\<close>, which the source ignores.\<close>

definition rc_flush :: "bool \<Rightarrow> recorder \<Rightarrow> recorder" where
  "rc_flush trunc_ok s =
     (if rc_use_mmap s then
        (if trunc_ok then s\<lparr>rc_file := resize (rc_count s * sizeof_tick) (rc_file s)\<rparr> else s)
      else s\<lparr>rc_file := rc_file s @ rc_stream s, rc_stream := []\<rparr>)"

text \<open>The destructor flushes, unmaps and closes: what stays is the file.\<close>

definition recorder_close :: "bool \<Rightarrow> recorder \<Rightarrow> u8 list" where
  "recorder_close trunc_ok s = rc_file (rc_flush trunc_ok s)"

subsection \<open>The reader\<close>

record tick_reader =
  tr_file :: "u8 list"
  tr_mapped :: bool
  tr_offset :: nat

text \<open>Mapping an empty file fails.\<close>

definition reader_open :: "bool \<Rightarrow> u8 list \<Rightarrow> tick_reader" where
  "reader_open mmap_ok f = \<lparr>tr_file = f, tr_mapped = (mmap_ok \<and> f \<noteq> []), tr_offset = 0\<rparr>"

definition read_next :: "tick_reader \<Rightarrow> (tick_record option \<times> tick_reader) option" where
  "read_next r =
     (if length (tr_file r) < tr_offset r + sizeof_tick then Some (None, r)
      else if \<not> tr_mapped r then None
      else do {
        s \<leftarrow> rd (tr_file r) (tr_offset r div sizeof_tick * sizeof_tick) sizeof_tick;
        Some (Some (decode_tick s), r\<lparr>tr_offset := tr_offset r + sizeof_tick\<rparr>)
      })"

definition tr_reset :: "tick_reader \<Rightarrow> tick_reader" where
  "tr_reset r = r\<lparr>tr_offset := 0\<rparr>"

definition total_records :: "tick_reader \<Rightarrow> nat" where
  "total_records r = length (tr_file r) div sizeof_tick"

definition tr_has_more :: "tick_reader \<Rightarrow> bool" where
  "tr_has_more r \<longleftrightarrow> tr_offset r < length (tr_file r)"

subsection \<open>Sequences of calls\<close>

datatype tick_op =
    Trade u64 string i64 u64 u8
  | Quote u64 string i64 u64 i64 u64

fun record_op :: "(nat \<Rightarrow> bool \<times> bool) \<Rightarrow> tick_op \<Rightarrow> recorder \<Rightarrow> recorder option" where
  "record_op env (Trade ts nm p sz sd) s = record_trade env ts nm p sz sd s"
| "record_op env (Quote ts nm bp bs ap sz) s = record_quote env ts nm bp bs ap sz s"

fun record_all :: "(nat \<Rightarrow> bool \<times> bool) \<Rightarrow> tick_op list \<Rightarrow> recorder \<Rightarrow> recorder option" where
  "record_all env [] s = Some s"
| "record_all env (op # ops) s = do { s1 \<leftarrow> record_op env op s; record_all env ops s1 }"

fun op_records :: "tick_op \<Rightarrow> tick_record list" where
  "op_records (Trade ts nm p sz sd) = [trade_record ts nm p sz sd]"
| "op_records (Quote ts nm bp bs ap sz) =
     [bid_record ts nm bp bs, (bid_record ts nm ap sz)\<lparr>t_side := 1\<rparr>]"

text \<open>The loop of a client: while there is more, read; stop at a failed read.\<close>

fun read_ticks :: "nat \<Rightarrow> tick_reader \<Rightarrow> (tick_record list \<times> tick_reader) option" where
  "read_ticks 0 r = Some ([], r)"
| "read_ticks (Suc n) r =
     (if tr_has_more r then
        (case read_next r of
           None \<Rightarrow> None
         | Some (None, r') \<Rightarrow> Some ([], r')
         | Some (Some t, r') \<Rightarrow> map_option (\<lambda>(ts, q). (t # ts, q)) (read_ticks n r'))
      else Some ([], r))"

subsection \<open>Records and bytes\<close>

definition tick_ok :: "tick_record \<Rightarrow> bool" where
  "tick_ok t \<longleftrightarrow> length (t_symbol t) = 8"

lemma length_encode_tick [simp]: "tick_ok t \<Longrightarrow> length (encode_tick t) = 40"
  by (simp add: encode_tick_def tick_ok_def)

lemma decode_encode_tick: "tick_ok t \<Longrightarrow> decode_tick (encode_tick t) = t"
  by (cases t) (simp add: decode_tick_def encode_tick_def tick_ok_def fld_def le_le_bytes_full)

lemma op_records_ok: "t \<in> set (op_records op) \<Longrightarrow> tick_ok t"
  by (cases op) (auto simp: tick_ok_def trade_record_def bid_record_def symbol_bytes_def)

definition encode_ticks :: "tick_record list \<Rightarrow> u8 list" where
  "encode_ticks ts = concat (map encode_tick ts)"

lemma length_encode_ticks: "\<forall>t\<in>set ts. tick_ok t \<Longrightarrow> length (encode_ticks ts) = 40 * length ts"
  by (induction ts) (simp_all add: encode_ticks_def)

text \<open>Mapped mode: the file starts with the records written so far.\<close>

definition recorded :: "recorder \<Rightarrow> tick_record list \<Rightarrow> bool" where
  "recorded s ts \<longleftrightarrow> rc_count s = length ts \<and> (\<forall>t\<in>set ts. tick_ok t) \<and>
     (if rc_use_mmap s
      then (if rc_mapping s = Mapped
            then rc_mapped_size s = length (rc_file s) \<and> take (40 * length ts) (rc_file s) = encode_ticks ts
            else rc_mapping s = Null \<and> rc_mapped_size s = 0 \<and> ts = [])
      else rc_stream_ok s \<and> rc_file s @ rc_stream s = encode_ticks ts)"

lemma take_resize:
  "m \<le> n \<Longrightarrow> m \<le> length f \<Longrightarrow> take m (resize n f) = take m f"
  by (simp add: resize_def min_def)

lemma length_resize [simp]: "length (resize n f) = n"
  by (simp add: resize_def)

lemma recorded_remap:
  assumes "recorded s ts" and "rc_use_mmap s"
  defines "s1 \<equiv> remap_if_needed (True, True) s"
  shows "recorded s1 ts" and "rc_mapping s1 = Mapped" and "40 * length ts + 40 \<le> length (rc_file s1)"
    and "rc_count s1 = rc_count s" and "rc_use_mmap s1" and "rc_mapped_size s1 = length (rc_file s1)"
proof -
  have len: "40 * length ts \<le> length (rc_file s)"
  proof (cases "rc_mapping s = Mapped")
    case True
    then have "length (take (40 * length ts) (rc_file s)) = 40 * length ts"
      using assms(1,2) length_encode_ticks [of ts] by (simp add: recorded_def)
    then show ?thesis by simp
  qed (use assms(1,2) in \<open>simp add: recorded_def\<close>)
  have *: "recorded s1 ts \<and> rc_mapping s1 = Mapped \<and> 40 * length ts + 40 \<le> length (rc_file s1) \<and>
      rc_count s1 = rc_count s \<and> rc_use_mmap s1 \<and> rc_mapped_size s1 = length (rc_file s1)"
  proof (cases "(rc_count s + 1) * 40 \<le> rc_mapped_size s")
    case True
    with assms(1,2) show ?thesis
      by (auto simp: s1_def remap_if_needed_def sizeof_tick_def recorded_def split: if_splits)
  next
    case False
    then show ?thesis
      using assms(1,2) len take_resize [of "40 * length ts"]
      by (auto simp: s1_def remap_if_needed_def sizeof_tick_def recorded_def Let_def encode_ticks_def split: if_splits)
  qed
  then show "recorded s1 ts" "rc_mapping s1 = Mapped" "40 * length ts + 40 \<le> length (rc_file s1)"
    "rc_count s1 = rc_count s" "rc_use_mmap s1" "rc_mapped_size s1 = length (rc_file s1)"
    by blast+
qed

lemma recorded_write:
  assumes "recorded s ts" and "tick_ok t"
  shows "\<exists>s'. write_record (True, True) t s = Some s' \<and> recorded s' (ts @ [t]) \<and>
    rc_use_mmap s' = rc_use_mmap s"
proof (cases "rc_use_mmap s")
  case False
  with assms show ?thesis by (simp add: write_record_def recorded_def encode_ticks_def)
next
  case True
  let ?s1 = "remap_if_needed (True, True) s"
  note r = recorded_remap [OF assms(1) True]
  let ?f = "rc_file ?s1" and ?n = "40 * length ts"
  let ?f' = "take ?n ?f @ encode_tick t @ drop (?n + 40) ?f"
  have c: "rc_count ?s1 = length ts" using r(1) by (simp add: recorded_def)
  have w: "write_record (True, True) t s = Some (?s1\<lparr>rc_file := ?f', rc_count := rc_count ?s1 + 1\<rparr>)"
    using True r(2,3) c assms(2) by (simp add: write_record_def Let_def store_at_def sizeof_tick_def mult.commute)
  have "take ?n ?f = encode_ticks ts" using r(1,2,5) by (simp add: recorded_def)
  moreover have "length (encode_ticks ts) = ?n"
    using assms(1) length_encode_ticks [of ts] by (simp add: recorded_def)
  ultimately have "take (40 * length (ts @ [t])) ?f' = encode_ticks (ts @ [t])"
    using assms(2) by (simp add: encode_ticks_def)
  moreover have "length ?f' = length ?f" using r(3) assms(2) by simp
  ultimately have "recorded (?s1\<lparr>rc_file := ?f', rc_count := rc_count ?s1 + 1\<rparr>) (ts @ [t])"
    using r c assms unfolding recorded_def by simp
  with w r(5) True show ?thesis by simp
qed

lemma recorded_op:
  assumes "recorded s ts"
  shows "\<exists>s'. record_op (\<lambda>i. (True, True)) op s = Some s' \<and> recorded s' (ts @ op_records op) \<and>
    rc_use_mmap s' = rc_use_mmap s"
proof (cases op)
  case (Trade tm nm p sz sd)
  then show ?thesis
    using recorded_write [OF assms op_records_ok [of "trade_record tm nm p sz sd" op]]
    by (simp add: record_trade_def)
next
  case (Quote tm nm bp bs ap sz)
  let ?bid = "bid_record tm nm bp bs" and ?ask = "(bid_record tm nm ap sz)\<lparr>t_side := 1\<rparr>"
  have ok: "tick_ok ?bid" "tick_ok ?ask" using op_records_ok [of _ op] Quote by simp_all
  have ask: "?bid\<lparr>t_price := ap, t_size := sz, t_side := 1\<rparr> = ?ask" by (simp add: bid_record_def)
  obtain s1 where s1: "write_record (True, True) ?bid s = Some s1" "recorded s1 (ts @ [?bid])"
      "rc_use_mmap s1 = rc_use_mmap s"
    using recorded_write [OF assms ok(1)] by blast
  with recorded_write [OF s1(2) ok(2)] show ?thesis
    by (auto simp: Quote record_quote_def Let_def ask)
qed

lemma recorded_all:
  assumes "recorded s ts"
  shows "\<exists>s'. record_all (\<lambda>i. (True, True)) ops s = Some s' \<and>
    recorded s' (ts @ concat (map op_records ops))"
  using assms
proof (induction ops arbitrary: s ts)
  case (Cons op ops)
  then show ?case using recorded_op [OF Cons.prems, of op] by fastforce
qed auto

lemma recorded_close:
  assumes "recorded s ts"
  shows "recorder_close True s = encode_ticks ts"
proof (cases "rc_use_mmap s \<and> rc_mapping s = Mapped")
  case True
  then have m: "take (40 * length ts) (rc_file s) = encode_ticks ts" using assms by (simp add: recorded_def)
  moreover have "length (encode_ticks ts) = 40 * length ts"
    using assms length_encode_ticks [of ts] by (simp add: recorded_def)
  ultimately have "40 * length ts \<le> length (rc_file s)" by (metis length_take min.absorb_iff2 min.commute)
  with True m assms show ?thesis
    by (simp add: recorder_close_def rc_flush_def resize_def recorded_def sizeof_tick_def mult.commute)
next
  case False
  with assms show ?thesis
    by (cases "rc_use_mmap s")
      (auto simp: recorded_def recorder_close_def rc_flush_def resize_def sizeof_tick_def encode_ticks_def)
qed

lemma read_next_encoded:
  assumes "tick_ok t" and "tr_file r = pre @ encode_tick t @ post" and "tr_offset r = length pre"
    and "40 dvd length pre" and "tr_mapped r"
  shows "read_next r = Some (Some t, r\<lparr>tr_offset := length pre + 40\<rparr>)"
proof -
  have "length pre div 40 * 40 = length pre" using assms(4) by simp
  then show ?thesis
    using assms by (simp add: read_next_def sizeof_tick_def decode_encode_tick)
qed

lemma read_ticks_encoded:
  assumes "\<forall>t\<in>set ts. tick_ok t" and "tr_file r = pre @ encode_ticks ts" and "tr_offset r = length pre"
    and "40 dvd length pre" and "ts \<noteq> [] \<longrightarrow> tr_mapped r" and "length ts \<le> n"
  shows "read_ticks n r = Some (ts, r\<lparr>tr_offset := length (tr_file r)\<rparr>)"
  using assms
proof (induction ts arbitrary: n pre r)
  case Nil
  then show ?case by (cases n) (simp_all add: tr_has_more_def encode_ticks_def)
next
  case (Cons t ts)
  then obtain m where n: "n = Suc m" by (cases n) auto
  have f: "tr_file r = pre @ encode_tick t @ encode_ticks ts" using Cons.prems(2) by (simp add: encode_ticks_def)
  have 1: "read_next r = Some (Some t, r\<lparr>tr_offset := length pre + 40\<rparr>)"
    using read_next_encoded [OF _ f] Cons.prems by simp
  let ?r = "r\<lparr>tr_offset := length pre + 40\<rparr>"
  have "read_ticks m ?r = Some (ts, ?r\<lparr>tr_offset := length (tr_file ?r)\<rparr>)"
  proof (rule Cons.IH [of ?r "pre @ encode_tick t"])
    show "tr_file ?r = (pre @ encode_tick t) @ encode_ticks ts" using f by simp
  qed (use Cons.prems(1,3-6) n in simp_all)
  then have 2: "read_ticks m ?r = Some (ts, r\<lparr>tr_offset := length (tr_file r)\<rparr>)" by simp
  have 3: "tr_has_more r" using f Cons.prems(1,3) by (simp add: tr_has_more_def)
  show ?case using 1 2 3 by (simp add: n)
qed

lemma encoded_read:
  assumes "\<forall>t\<in>set ts. tick_ok t" and "length ts \<le> n"
  shows "map_option fst (read_ticks n (reader_open True (encode_ticks ts))) = Some ts"
    and "total_records (reader_open True (encode_ticks ts)) = length ts"
proof -
  let ?r = "reader_open True (encode_ticks ts)"
  have f: "tr_file ?r = encode_ticks ts" "tr_offset ?r = 0" by (simp_all add: reader_open_def)
  have "encode_ticks ts \<noteq> []" if "ts \<noteq> []"
    using length_encode_ticks [OF assms(1)] that by (metis length_0_conv mult_eq_0_iff zero_neq_numeral)
  then have "ts \<noteq> [] \<longrightarrow> tr_mapped ?r" using f(1) by (simp add: reader_open_def)
  then have "read_ticks n ?r = Some (ts, ?r\<lparr>tr_offset := length (tr_file ?r)\<rparr>)"
    using read_ticks_encoded [OF assms(1), of ?r "[]" n] f assms(2) by simp
  then show "map_option fst (read_ticks n ?r) = Some ts" by simp
  show "total_records ?r = length ts"
    using length_encode_ticks [OF assms(1)] f(1) by (simp add: total_records_def sizeof_tick_def)
qed

lemma recorded_new: "recorded (recorder_new use_mmap open_ok True) []"
  by (simp add: recorded_def recorder_new_def encode_ticks_def)

lemma recorder_close_flush: "recorder_close True (rc_flush True s) = recorder_close True s"
  by (simp add: recorder_close_def rc_flush_def resize_def min_def)

text \<open>
  C20. Round trip through the file: when the system calls succeed, any sequence of trades and
  quotes, recorded through the memory map or through the stream and closed, is read back by
  \<open>TickReader\<close> as exactly the records of those calls in order, symbols cut to eight characters
  and padded; \<open>total_records\<close> counts them.
\<close>
theorem tick_file_roundtrip:
  assumes "length (concat (map op_records ops)) \<le> n"
  shows "\<exists>s. record_all (\<lambda>i. (True, True)) ops (recorder_new use_mmap open_ok True) = Some s \<and>
    rc_count s = length (concat (map op_records ops)) \<and>
    map_option fst (read_ticks n (reader_open True (recorder_close True s))) = Some (concat (map op_records ops)) \<and>
    total_records (reader_open True (recorder_close True s)) = length (concat (map op_records ops))"
proof -
  let ?ts = "concat (map op_records ops)"
  from recorded_all [OF recorded_new, of ops] obtain s where s:
      "record_all (\<lambda>i. (True, True)) ops (recorder_new use_mmap open_ok True) = Some s" "recorded s ?ts"
    by auto
  have "\<forall>t\<in>set ?ts. tick_ok t" using s(2) by (simp add: recorded_def)
  from encoded_read [OF this assms] s show ?thesis
    by (intro exI [of _ s]) (simp only: recorded_close [OF s(2)] recorded_def simp_thms)
qed

text \<open>
  What goes wrong when the calls do not come as expected. A record written after \<open>flush\<close> goes
  to mapped memory behind the end of the file, which \<open>flush\<close> has cut to the records so far
  (\<open>mapped_size_\<close> still has the old size): undefined. A failed \<open>mmap\<close> leaves \<open>MAP_FAILED\<close>
  in the pointer, and the record is written through it. A failed \<open>ftruncate\<close> drops the
  record, counts it, and leaves a record of zeros in the file.
\<close>
theorem tick_recorder_failures:
  "(\<exists>s1. record_trade (\<lambda>i. (True, True)) ts nm p sz sd (recorder_new True True ok) = Some s1 \<and>
      record_trade (\<lambda>i. (True, True)) ts nm p sz sd (rc_flush True s1) = None) \<and>
   record_trade (\<lambda>i. (True, False)) ts nm p sz sd (recorder_new True True ok) = None \<and>
   (\<exists>s1. record_trade (\<lambda>i. (False, False)) ts nm p sz sd (recorder_new True True ok) = Some s1 \<and>
      rc_count s1 = 1 \<and> recorder_close True s1 = replicate 40 0)"
proof (intro conjI)
  let ?t = "trade_record ts nm p sz sd"
  have t: "length (encode_tick ?t) = 40"
    using op_records_ok [of ?t "Trade ts nm p sz sd"] by simp
  let ?s = "recorder_new True True ok"
  let ?s1 = "?s\<lparr>rc_file := encode_tick ?t @ replicate (1048576 - 40) 0, rc_mapping := Mapped,
    rc_mapped_size := 1048576, rc_count := 1\<rparr>"
  have remap: "remap_if_needed (True, True) ?s =
      ?s\<lparr>rc_file := replicate 1048576 0, rc_mapping := Mapped, rc_mapped_size := 1048576\<rparr>"
    by (simp add: remap_if_needed_def recorder_new_def resize_def sizeof_tick_def)
  have w1: "write_record (True, True) ?t ?s = Some ?s1"
    using t by (simp add: write_record_def remap store_at_def) (simp add: recorder_new_def)
  have "rc_file (rc_flush True ?s1) = encode_tick ?t"
    using t by (simp add: rc_flush_def recorder_new_def resize_def sizeof_tick_def)
  then have "write_record (True, True) ?t (rc_flush True ?s1) = None"
    using t by (simp add: write_record_def rc_flush_def recorder_new_def remap_if_needed_def sizeof_tick_def
        store_at_def)
  with w1 show "\<exists>s1. record_trade (\<lambda>i. (True, True)) ts nm p sz sd ?s = Some s1 \<and>
      record_trade (\<lambda>i. (True, True)) ts nm p sz sd (rc_flush True s1) = None"
    by (auto simp: record_trade_def)
  show "record_trade (\<lambda>i. (True, False)) ts nm p sz sd ?s = None"
    by (simp add: record_trade_def write_record_def remap_if_needed_def recorder_new_def sizeof_tick_def)
  show "\<exists>s1. record_trade (\<lambda>i. (False, False)) ts nm p sz sd ?s = Some s1 \<and>
      rc_count s1 = 1 \<and> recorder_close True s1 = replicate 40 0"
    by (simp add: record_trade_def write_record_def remap_if_needed_def recorder_new_def sizeof_tick_def
        recorder_close_def rc_flush_def resize_def)
qed

subsection \<open>Witnesses\<close>

theorem tick_file_roundtrip_witness:
  "\<exists>s. record_all (\<lambda>i. (True, True)) [Trade 1 ''AAPL'' 1500000 100 1, Quote 2 ''LONGSYMBOL'' 5 6 7 8]
      (recorder_new True True True) = Some s \<and>
    map_option (map t_price \<circ> fst) (read_ticks 3 (reader_open True (recorder_close True s))) =
      Some [1500000, 5, 7] \<and>
    rc_count s = 3"
proof -
  let ?ops = "[Trade 1 ''AAPL'' 1500000 100 1, Quote 2 ''LONGSYMBOL'' 5 6 7 8]"
  obtain s where "record_all (\<lambda>i. (True, True)) ?ops (recorder_new True True True) = Some s"
      "rc_count s = 3"
      "map_option fst (read_ticks 3 (reader_open True (recorder_close True s))) = Some (concat (map op_records ?ops))"
    using tick_file_roundtrip [of ?ops 3 True True] by auto
  then show ?thesis
    by (auto simp: trade_record_def bid_record_def)
qed

end
