(* ===== verification/Replay.thy ===== *)
theory Replay
  imports Tick
begin

text \<open>
  The replay engine: \<open>include/replay_engine.hpp\<close> and \<open>src/replay_engine.cpp\<close>. The replay thread
  and the thread that controls it (\<open>start\<close>, \<open>stop\<close>, \<open>pause\<close>, \<open>resume\<close>) are interleaved; a step of
  the replay thread is one test of a loop condition, one read, or the delivery of one record.
  The file exists and can be mapped. \<open>delivered\<close>, \<open>sleeps\<close> and \<open>stop_called\<close> are ghost: the
  records handed to the callback, the times slept, and whether \<open>stop\<close> was called, since the
  last \<open>start\<close>. \<open>crashed\<close> is \<open>std::terminate\<close>.
\<close>

datatype speed = Real1x | Fast10x | Fast100x | MaxSpeed

datatype rpc = L_Check | L_Pause | L_Read | L_Deliver tick_record

text \<open>
  \<open>Idle_thread\<close> is a \<open>std::thread\<close> that is not joinable, \<open>Done\<close> one whose function has returned
  and that was not joined. The loop has the locals \<open>reader\<close>, \<open>prev_record\<close> and \<open>first\<close>.
\<close>

datatype rthread = Idle_thread | Looping rpc tick_reader tick_record bool | Done

record replay =
  running :: bool
  paused :: bool
  messages_replayed :: u64
  rspeed :: speed
  callback :: bool
  rthread :: rthread
  delivered :: "tick_record list"
  sleeps :: "u64 list"
  stop_called :: bool
  crashed :: bool

definition replay_new :: replay where
  "replay_new =
     \<lparr>running = False, paused = False, messages_replayed = 0, rspeed = Real1x, callback = False,
      rthread = Idle_thread, delivered = [], sleeps = [], stop_called = False, crashed = False\<rparr>"

definition set_callback :: "replay \<Rightarrow> replay" where
  "set_callback r = r\<lparr>callback := True\<rparr>"

definition set_speed :: "speed \<Rightarrow> replay \<Rightarrow> replay" where
  "set_speed v r = r\<lparr>rspeed := v\<rparr>"

definition zero_tick :: tick_record where
  "zero_tick = \<lparr>t_timestamp = 0, t_symbol = replicate 8 0, t_price = 0, t_size = 0, t_side = 0,
     t_flags = 0, t_padding = 0\<rparr>"

text \<open>The time to sleep after a record, if any; the difference of the timestamps wraps.\<close>

definition replay_delay :: "speed \<Rightarrow> bool \<Rightarrow> tick_record \<Rightarrow> tick_record \<Rightarrow> u64 option" where
  "replay_delay v first prev cur =
     (if \<not> first \<and> v \<noteq> MaxSpeed then
        (let time_delta = t_timestamp cur - t_timestamp prev
         in if 0 < time_delta then
              (let sleep_time = (case v of Real1x \<Rightarrow> time_delta | Fast10x \<Rightarrow> time_delta div 10
                                 | Fast100x \<Rightarrow> time_delta div 100 | MaxSpeed \<Rightarrow> 0)
               in if 0 < sleep_time \<and> sleep_time < 1000000000 then Some sleep_time else None)
            else None)
      else None)"

text \<open>The sleeps of a replay of some records: one after each record but the first, if at all.\<close>

fun pacing :: "speed \<Rightarrow> tick_record list \<Rightarrow> u64 list" where
  "pacing v (a # b # ts) =
     (case replay_delay v False a b of None \<Rightarrow> [] | Some d \<Rightarrow> [d]) @ pacing v (b # ts)"
| "pacing v ts = []"

definition deliver :: "tick_record \<Rightarrow> bool \<Rightarrow> tick_record \<Rightarrow> replay \<Rightarrow> replay" where
  "deliver prev first t r =
     r\<lparr>delivered := delivered r @ (if callback r then [t] else []),
       sleeps := sleeps r @ (case replay_delay (rspeed r) first prev t of None \<Rightarrow> [] | Some d \<Rightarrow> [d]),
       messages_replayed := messages_replayed r + 1\<rparr>"

definition start_thread :: "u8 list \<Rightarrow> replay \<Rightarrow> replay" where
  "start_thread fbytes r =
     r\<lparr>running := True, paused := False, messages_replayed := 0,
       rthread := Looping L_Check (reader_open True fbytes) zero_tick True,
       delivered := [], sleeps := [], stop_called := False\<rparr>"

inductive replay_step :: "u8 list \<Rightarrow> replay \<Rightarrow> replay \<Rightarrow> bool" for fbytes where
  start_running: "\<not> crashed r \<Longrightarrow> running r \<Longrightarrow> replay_step fbytes r r"
| start_fresh: "\<not> crashed r \<Longrightarrow> \<not> running r \<Longrightarrow> rthread r = Idle_thread \<Longrightarrow>
    replay_step fbytes r (start_thread fbytes r)"
| start_joinable: "\<not> crashed r \<Longrightarrow> \<not> running r \<Longrightarrow> rthread r \<noteq> Idle_thread \<Longrightarrow>
    replay_step fbytes r (r\<lparr>running := True, paused := False, messages_replayed := 0, crashed := True\<rparr>)"
| stop_request: "\<not> crashed r \<Longrightarrow> replay_step fbytes r (r\<lparr>running := False, stop_called := True\<rparr>)"
| stop_join: "\<not> crashed r \<Longrightarrow> stop_called r \<Longrightarrow> rthread r = Done \<Longrightarrow>
    replay_step fbytes r (r\<lparr>rthread := Idle_thread\<rparr>)"
| pause: "\<not> crashed r \<Longrightarrow> replay_step fbytes r (r\<lparr>paused := True\<rparr>)"
| resume: "\<not> crashed r \<Longrightarrow> replay_step fbytes r (r\<lparr>paused := False\<rparr>)"
| loop_more: "\<not> crashed r \<Longrightarrow> rthread r = Looping L_Check tr prev first \<Longrightarrow> running r \<and> tr_has_more tr \<Longrightarrow>
    replay_step fbytes r (r\<lparr>rthread := Looping L_Pause tr prev first\<rparr>)"
| loop_end: "\<not> crashed r \<Longrightarrow> rthread r = Looping L_Check tr prev first \<Longrightarrow> \<not> (running r \<and> tr_has_more tr) \<Longrightarrow>
    replay_step fbytes r (r\<lparr>running := False, rthread := Done\<rparr>)"
| pause_wait: "\<not> crashed r \<Longrightarrow> rthread r = Looping L_Pause tr prev first \<Longrightarrow> paused r \<and> running r \<Longrightarrow>
    replay_step fbytes r r"
| pause_over: "\<not> crashed r \<Longrightarrow> rthread r = Looping L_Pause tr prev first \<Longrightarrow> \<not> paused r \<Longrightarrow> running r \<Longrightarrow>
    replay_step fbytes r (r\<lparr>rthread := Looping L_Read tr prev first\<rparr>)"
| pause_stop: "\<not> crashed r \<Longrightarrow> rthread r = Looping L_Pause tr prev first \<Longrightarrow> \<not> running r \<Longrightarrow>
    replay_step fbytes r (r\<lparr>running := False, rthread := Done\<rparr>)"
| read_fail: "\<not> crashed r \<Longrightarrow> rthread r = Looping L_Read tr prev first \<Longrightarrow> read_next tr = Some (None, tr') \<Longrightarrow>
    replay_step fbytes r (r\<lparr>running := False, rthread := Done\<rparr>)"
| read_ok: "\<not> crashed r \<Longrightarrow> rthread r = Looping L_Read tr prev first \<Longrightarrow> read_next tr = Some (Some t, tr') \<Longrightarrow>
    replay_step fbytes r (r\<lparr>rthread := Looping (L_Deliver t) tr' prev first\<rparr>)"
| deliver_record: "\<not> crashed r \<Longrightarrow> rthread r = Looping (L_Deliver t) tr prev first \<Longrightarrow>
    replay_step fbytes r ((deliver prev first t r)\<lparr>rthread := Looping L_Check tr t False\<rparr>)"

subsection \<open>What is delivered\<close>

text \<open>\<open>at_record ts k r\<close>: \<open>k\<close> records of the file have been replayed; the loop stands before the next.\<close>

definition reader_at :: "tick_record list \<Rightarrow> nat \<Rightarrow> tick_reader" where
  "reader_at ts k = (reader_open True (encode_ticks ts))\<lparr>tr_offset := 40 * k\<rparr>"

definition prev_ok :: "tick_record list \<Rightarrow> nat \<Rightarrow> tick_record \<Rightarrow> bool \<Rightarrow> bool" where
  "prev_ok ts k prev first \<longleftrightarrow> (first \<longleftrightarrow> k = 0) \<and> (0 < k \<longrightarrow> prev = ts ! (k - 1))"

definition thread_at :: "tick_record list \<Rightarrow> nat \<Rightarrow> replay \<Rightarrow> bool" where
  "thread_at ts k r \<longleftrightarrow>
     (case rthread r of
        Idle_thread \<Rightarrow> True
      | Done \<Rightarrow> stop_called r \<or> k = length ts
      | Looping pc tr prev first \<Rightarrow>
          prev_ok ts k prev first \<and> (running r \<or> stop_called r) \<and>
          (case pc of
             L_Check \<Rightarrow> tr = reader_at ts k
           | L_Deliver t \<Rightarrow> tr = reader_at ts (Suc k) \<and> k < length ts \<and> t = ts ! k
           | _ \<Rightarrow> tr = reader_at ts k \<and> k < length ts))"

definition replay_at :: "speed \<Rightarrow> tick_record list \<Rightarrow> nat \<Rightarrow> replay \<Rightarrow> bool" where
  "replay_at v ts k r \<longleftrightarrow> callback r \<and> rspeed r = v \<and> k \<le> length ts \<and> delivered r = take k ts \<and>
     messages_replayed r = of_nat k \<and> sleeps r = pacing v (take k ts) \<and> thread_at ts k r"

lemma pacing_snoc:
  "pacing v (xs @ [a, b]) = pacing v (xs @ [a]) @ (case replay_delay v False a b of None \<Rightarrow> [] | Some d \<Rightarrow> [d])"
proof (induction xs)
  case (Cons x xs)
  then show ?case by (cases xs) simp_all
qed simp

lemma pacing_take_Suc:
  assumes "k < length ts" and "prev_ok ts k prev first"
  shows "pacing v (take (Suc k) ts) =
    pacing v (take k ts) @ (case replay_delay v first prev (ts ! k) of None \<Rightarrow> [] | Some d \<Rightarrow> [d])"
proof (cases k)
  case 0
  then show ?thesis using assms by (cases ts) (simp_all add: prev_ok_def replay_delay_def)
next
  case (Suc j)
  then have "take (Suc k) ts = take j ts @ [ts ! j, ts ! k]" "take k ts = take j ts @ [ts ! j]"
    using assms(1) by (simp_all add: take_Suc_conv_app_nth)
  moreover have "prev = ts ! j" "\<not> first" using assms(2) Suc by (simp_all add: prev_ok_def)
  ultimately show ?thesis by (simp add: pacing_snoc)
qed

lemma reader_at_more:
  assumes "\<forall>t\<in>set ts. tick_ok t"
  shows "tr_has_more (reader_at ts k) \<longleftrightarrow> k < length ts"
  using length_encode_ticks [OF assms] by (simp add: tr_has_more_def reader_at_def reader_open_def)

lemma reader_at_read:
  assumes "\<forall>t\<in>set ts. tick_ok t" and "k < length ts"
  shows "read_next (reader_at ts k) = Some (Some (ts ! k), reader_at ts (Suc k))"
proof -
  have split: "ts = take k ts @ ts ! k # drop (Suc k) ts" using assms(2) by (rule id_take_nth_drop)
  have "encode_ticks ts = encode_ticks (take k ts @ ts ! k # drop (Suc k) ts)"
    by (rule arg_cong [OF split])
  also have "\<dots> = encode_ticks (take k ts) @ encode_tick (ts ! k) @ encode_ticks (drop (Suc k) ts)"
    by (simp only: encode_ticks_def map_append concat_append list.map concat.simps)
  finally have e: "encode_ticks ts = encode_ticks (take k ts) @ encode_tick (ts ! k) @ encode_ticks (drop (Suc k) ts)" .
  have "\<forall>t\<in>set (take k ts). tick_ok t" using assms(1) by (auto dest: in_set_takeD)
  from length_encode_ticks [OF this] have l: "length (encode_ticks (take k ts)) = 40 * k"
    using assms(2) by simp
  have "encode_ticks ts \<noteq> []"
    using length_encode_ticks [OF assms(1)] assms(2) by auto
  then show ?thesis
    using read_next_encoded [of "ts ! k" "reader_at ts k" "encode_ticks (take k ts)"] assms l e
    by (simp add: reader_at_def reader_open_def add.commute)
qed

lemma replay_delay_bound: "replay_delay v first prev t = Some d \<Longrightarrow> d < 1000000000"
  by (auto simp: replay_delay_def Let_def split: if_splits)

lemma pacing_bounds: "(\<forall>d\<in>set (pacing v ts). d < 1000000000) \<and> length (pacing v ts) \<le> length ts - 1"
  by (induction v ts rule: pacing.induct) (auto dest: replay_delay_bound split: option.splits)

lemma thread_at_controls:
  "thread_at ts k (r\<lparr>paused := b\<rparr>) \<longleftrightarrow> thread_at ts k r"
  "thread_at ts k r \<Longrightarrow> thread_at ts k (r\<lparr>running := False, stop_called := True\<rparr>)"
  "thread_at ts k (r\<lparr>rthread := Idle_thread\<rparr>)"
  by (auto simp: thread_at_def split: rthread.splits rpc.splits)

lemma replay_step_at:
  assumes "replay_step (encode_ticks ts) r r'" and "\<forall>t\<in>set ts. tick_ok t"
    and "\<not> crashed r \<longrightarrow> (\<exists>k. replay_at v ts k r)"
  shows "\<not> crashed r' \<longrightarrow> (\<exists>k. replay_at v ts k r')"
  using assms(1)
proof (cases rule: replay_step.cases)
  case start_fresh
  then have "replay_at v ts 0 r'"
    using assms(3) by (auto simp: replay_at_def thread_at_def start_thread_def reader_at_def reader_open_def prev_ok_def)
  then show ?thesis by blast
next
  case (read_fail tr prev first tr')
  then obtain k where "tr = reader_at ts k" "k < length ts"
    using assms(3) by (auto simp: replay_at_def thread_at_def)
  then show ?thesis using read_fail reader_at_read [OF assms(2)] by simp
next
  case (read_ok tr prev first t tr')
  then obtain k where k: "replay_at v ts k r" "tr = reader_at ts k" "k < length ts"
    using assms(3) by (auto simp: replay_at_def thread_at_def)
  then have "t = ts ! k" "tr' = reader_at ts (Suc k)" using read_ok reader_at_read [OF assms(2)] by auto
  with k read_ok have "replay_at v ts k r'" by (simp add: replay_at_def thread_at_def)
  then show ?thesis by blast
next
  case (deliver_record t tr prev first)
  then obtain k where k: "replay_at v ts k r" "tr = reader_at ts (Suc k)" "k < length ts" "t = ts ! k"
      "running r \<or> stop_called r" "prev_ok ts k prev first"
    using assms(3) by (auto simp: replay_at_def thread_at_def)
  have "prev_ok ts (Suc k) t False" using k(4) by (simp add: prev_ok_def)
  then have "replay_at v ts (Suc k) r'"
    using deliver_record(1) k pacing_take_Suc [OF k(3,6), of v]
    by (auto simp: replay_at_def thread_at_def deliver_def take_Suc_conv_app_nth)
  then show ?thesis by blast
next
  case (loop_more tr prev first)
  then obtain k where "replay_at v ts k r" "tr = reader_at ts k"
    using assms(3) by (auto simp: replay_at_def thread_at_def)
  with loop_more have "replay_at v ts k r'"
    using reader_at_more [OF assms(2)] by (auto simp: replay_at_def thread_at_def)
  then show ?thesis by blast
next
  case (loop_end tr prev first)
  then obtain k where k: "replay_at v ts k r" "tr = reader_at ts k" "running r \<or> stop_called r"
    using assms(3) by (auto simp: replay_at_def thread_at_def)
  have "k \<le> length ts" using k(1) by (simp add: replay_at_def)
  then have "stop_called r \<or> k = length ts"
    using k(2,3) loop_end(4) reader_at_more [OF assms(2), of k] by auto
  with k(1) have "replay_at v ts k r'" by (simp add: loop_end(1) replay_at_def thread_at_def)
  then show ?thesis by blast
next
  case (pause_over tr prev first)
  then show ?thesis using assms(3) by (auto simp: replay_at_def thread_at_def)
next
  case (pause_stop tr prev first)
  then show ?thesis using assms(3) by (auto simp: replay_at_def thread_at_def)
qed (use assms(3) in \<open>auto simp: replay_at_def thread_at_controls(1,3) intro: thread_at_controls(2)\<close>)

lemma replay_reach:
  assumes "(replay_step (encode_ticks ts))\<^sup>*\<^sup>* (set_speed v (set_callback replay_new)) r"
    and "\<forall>t\<in>set ts. tick_ok t"
  shows "\<not> crashed r \<longrightarrow> (\<exists>k. replay_at v ts k r)"
  using assms(1)
proof (induction rule: rtranclp_induct)
  case base
  have "replay_at v ts 0 (set_speed v (set_callback replay_new))"
    by (simp add: replay_at_def thread_at_def set_speed_def set_callback_def replay_new_def)
  then show ?case by blast
next
  case (step r r')
  then show ?case using replay_step_at [OF _ assms(2)] by blast
qed


text \<open>
  An engine that has played its file to the end cannot be started again: \<open>running_\<close> is false,
  so \<open>start\<close> goes on and assigns to a \<open>std::thread\<close> that was never joined, which terminates
  the program; and this is reachable from a new engine with one call of \<open>start\<close>, for any file.
\<close>
theorem replay_restart_terminates:
  "\<exists>r r'. (replay_step [])\<^sup>*\<^sup>* (set_speed v (set_callback replay_new)) r \<and> \<not> running r \<and> \<not> stop_called r \<and>
     rthread r = Done \<and> replay_step [] r r' \<and> crashed r'"
proof -
  let ?r0 = "set_speed v (set_callback replay_new)"
  let ?r1 = "start_thread [] ?r0"
  let ?r2 = "?r1\<lparr>running := False, rthread := Done\<rparr>"
  have "replay_step [] ?r0 ?r1"
    by (rule start_fresh) (simp_all add: set_speed_def set_callback_def replay_new_def)
  moreover have "replay_step [] ?r1 ?r2"
    by (rule loop_end [where tr = "reader_open True []" and prev = zero_tick and first = True])
      (simp_all add: start_thread_def set_speed_def set_callback_def replay_new_def tr_has_more_def reader_open_def)
  ultimately have "(replay_step [])\<^sup>*\<^sup>* ?r0 ?r2" by simp
  moreover have "replay_step [] ?r2 (?r2\<lparr>running := True, paused := False, messages_replayed := 0, crashed := True\<rparr>)"
    by (rule start_joinable) (simp_all add: start_thread_def set_speed_def set_callback_def replay_new_def)
  ultimately show ?thesis
    by (intro exI conjI) (assumption | simp add: start_thread_def)+
qed

subsection \<open>Undisturbed, the replay ends\<close>

text \<open>A running loop that nothing disturbs, with \<open>k\<close> records replayed.\<close>

definition loop_at :: "tick_record list \<Rightarrow> nat \<Rightarrow> replay \<Rightarrow> bool" where
  "loop_at ts k r \<longleftrightarrow> running r \<and> \<not> paused r \<and> \<not> crashed r \<and> \<not> stop_called r \<and>
     (\<exists>prev first. rthread r = Looping L_Check (reader_at ts k) prev first)"

lemma loop_read:
  assumes "\<forall>t\<in>set ts. tick_ok t" and "loop_at ts k r" and "k < length ts"
  shows "\<exists>prev first. (replay_step (encode_ticks ts))\<^sup>*\<^sup>* r
    (r\<lparr>rthread := Looping (L_Deliver (ts ! k)) (reader_at ts (Suc k)) prev first\<rparr>)"
proof -
  obtain prev first where r: "running r" "\<not> paused r" "\<not> crashed r"
      "rthread r = Looping L_Check (reader_at ts k) prev first"
    using assms(2) by (auto simp: loop_at_def)
  let ?step = "replay_step (encode_ticks ts)" and ?tr = "reader_at ts k" and ?tr' = "reader_at ts (Suc k)"
  let ?r1 = "r\<lparr>rthread := Looping L_Pause ?tr prev first\<rparr>"
  let ?r2 = "?r1\<lparr>rthread := Looping L_Read ?tr prev first\<rparr>"
  let ?r3 = "?r2\<lparr>rthread := Looping (L_Deliver (ts ! k)) ?tr' prev first\<rparr>"
  have "?step r ?r1" by (rule loop_more) (use r reader_at_more [OF assms(1), of k] assms(3) in simp_all)
  moreover have "?step ?r1 ?r2" by (rule pause_over) (use r in simp_all)
  moreover have "?step ?r2 ?r3" by (rule read_ok) (use r reader_at_read [OF assms(1,3)] in simp_all)
  ultimately have "?step\<^sup>*\<^sup>* r ?r3" by (meson converse_rtranclp_into_rtranclp rtranclp.rtrancl_refl)
  then show ?thesis by auto
qed

lemma loop_record:
  assumes "\<forall>t\<in>set ts. tick_ok t" and "loop_at ts k r" and "k < length ts"
  shows "\<exists>r'. (replay_step (encode_ticks ts))\<^sup>*\<^sup>* r r' \<and> loop_at ts (Suc k) r'"
proof -
  let ?step = "replay_step (encode_ticks ts)" and ?tr' = "reader_at ts (Suc k)"
  obtain prev first where
      read: "?step\<^sup>*\<^sup>* r (r\<lparr>rthread := Looping (L_Deliver (ts ! k)) ?tr' prev first\<rparr>)"
    using loop_read [OF assms] by blast
  let ?r3 = "r\<lparr>rthread := Looping (L_Deliver (ts ! k)) ?tr' prev first\<rparr>"
  let ?r4 = "(deliver prev first (ts ! k) ?r3)\<lparr>rthread := Looping L_Check ?tr' (ts ! k) False\<rparr>"
  have "?step ?r3 ?r4" by (rule deliver_record) (use assms(2) in \<open>auto simp: loop_at_def\<close>)
  with read have "?step\<^sup>*\<^sup>* r ?r4" by (rule rtranclp.rtrancl_into_rtrancl)
  moreover have "loop_at ts (Suc k) ?r4" using assms(2) by (auto simp: loop_at_def deliver_def)
  ultimately show ?thesis by blast
qed

lemma loop_reaches:
  assumes "\<forall>t\<in>set ts. tick_ok t" and "k \<le> length ts"
  shows "\<exists>r. (replay_step (encode_ticks ts))\<^sup>*\<^sup>* (set_speed v (set_callback replay_new)) r \<and> loop_at ts k r"
  using assms(2)
proof (induction k)
  case 0
  let ?r0 = "set_speed v (set_callback replay_new)"
  have "replay_step (encode_ticks ts) ?r0 (start_thread (encode_ticks ts) ?r0)"
    by (rule start_fresh) (simp_all add: set_speed_def set_callback_def replay_new_def)
  moreover have "loop_at ts 0 (start_thread (encode_ticks ts) ?r0)"
    by (auto simp: loop_at_def start_thread_def set_speed_def set_callback_def replay_new_def reader_at_def reader_open_def)
  ultimately show ?case by blast
next
  case (Suc k)
  then show ?case using loop_record [OF assms(1)] by (meson Suc_le_lessD less_imp_le_nat rtranclp_trans)
qed

lemma replay_completes:
  assumes "\<forall>t\<in>set ts. tick_ok t"
  shows "\<exists>r. (replay_step (encode_ticks ts))\<^sup>*\<^sup>* (set_speed v (set_callback replay_new)) r \<and>
    \<not> crashed r \<and> rthread r = Done \<and> \<not> stop_called r"
proof -
  obtain r where r: "(replay_step (encode_ticks ts))\<^sup>*\<^sup>* (set_speed v (set_callback replay_new)) r" "loop_at ts (length ts) r"
    using loop_reaches [OF assms order_refl] by blast
  have "replay_step (encode_ticks ts) r (r\<lparr>running := False, rthread := Done\<rparr>)"
    using r(2) reader_at_more [OF assms, of "length ts"] by (auto simp: loop_at_def intro: loop_end)
  with r(1) have "(replay_step (encode_ticks ts))\<^sup>*\<^sup>* (set_speed v (set_callback replay_new)) (r\<lparr>running := False, rthread := Done\<rparr>)"
    by (rule rtranclp.rtrancl_into_rtrancl)
  then show ?thesis using r(2) by (intro exI [of _ "r\<lparr>running := False, rthread := Done\<rparr>"]) (simp add: loop_at_def)
qed

subsection \<open>Witnesses\<close>

definition sample_tick :: tick_record where
  "sample_tick = trade_record 5 ''AAPL'' 1500000 100 1"

lemma sample_replay:
  "\<exists>r. (replay_step (encode_ticks [sample_tick]))\<^sup>*\<^sup>* (set_speed Fast10x (set_callback replay_new)) r \<and>
     \<not> crashed r \<and> rthread r = Done \<and> \<not> stop_called r"
proof -
  have "\<forall>t\<in>set [sample_tick]. tick_ok t"
    using op_records_ok [of sample_tick "Trade 5 ''AAPL'' 1500000 100 1"] by (simp add: sample_tick_def)
  from replay_completes [OF this, of Fast10x] show ?thesis by blast
qed


end
