(* ===== verification/Base64.thy ===== *)
theory Base64
  imports Bytes
begin

text \<open>
  \<open>base64_encode\<close> of \<open>src/websocket_server.cpp\<close>, with the decoder of RFC 4648 as its
  specification.
\<close>

definition base64_chars :: string where
  "base64_chars = ''ABCDEFGHIJKLMNOPQRSTUVWXYZabcdefghijklmnopqrstuvwxyz0123456789+/''"

text \<open>The four six-bit values that the source computes from three bytes.\<close>

definition sextet0 :: "u8 \<Rightarrow> u8" where
  "sextet0 a = drop_bit 2 (a AND 0xfc)"

definition sextet1 :: "u8 \<Rightarrow> u8 \<Rightarrow> u8" where
  "sextet1 a b = push_bit 4 (a AND 0x03) + drop_bit 4 (b AND 0xf0)"

definition sextet2 :: "u8 \<Rightarrow> u8 \<Rightarrow> u8" where
  "sextet2 b c = push_bit 2 (b AND 0x0f) + drop_bit 6 (c AND 0xc0)"

definition sextet3 :: "u8 \<Rightarrow> u8" where
  "sextet3 c = c AND 0x3f"

definition b64_char :: "u8 \<Rightarrow> char" where
  "b64_char v = base64_chars ! unat v"

text \<open>
  The loop: \<open>cs\<close> is \<open>char_array_3\<close> up to \<open>i\<close>. After the loop a group of one or two bytes is filled
  with zeros, \<open>i + 1\<close> characters of it are written, and \<open>'='\<close> up to four.
\<close>

definition b64_rest :: "u8 list \<Rightarrow> string" where
  "b64_rest cs =
     (if cs = [] then []
      else let ds = cs @ replicate (3 - length cs) 0;
               qs = [sextet0 (ds ! 0), sextet1 (ds ! 0) (ds ! 1), sextet2 (ds ! 1) (ds ! 2)]
           in map b64_char (take (length cs + 1) qs) @ replicate (3 - length cs) CHR ''='')"

fun b64_loop :: "u8 list \<Rightarrow> u8 list \<Rightarrow> string" where
  "b64_loop cs [] = b64_rest cs"
| "b64_loop cs (x # xs) =
     (let ds = cs @ [x]
      in if length ds = 3
         then map b64_char [sextet0 (ds ! 0), sextet1 (ds ! 0) (ds ! 1), sextet2 (ds ! 1) (ds ! 2),
                            sextet3 (ds ! 2)] @ b64_loop [] xs
         else b64_loop ds xs)"

definition base64_encode :: "u8 list \<Rightarrow> string" where
  "base64_encode bs = b64_loop [] bs"

subsection \<open>The decoder\<close>

fun index_of :: "'a \<Rightarrow> 'a list \<Rightarrow> nat option" where
  "index_of x [] = None"
| "index_of x (y # ys) = (if x = y then Some 0 else map_option Suc (index_of x ys))"

definition b64_value :: "char \<Rightarrow> u8 option" where
  "b64_value c = map_option of_nat (index_of c base64_chars)"

definition octet0 :: "u8 \<Rightarrow> u8 \<Rightarrow> u8" where
  "octet0 v w = push_bit 2 v OR drop_bit 4 w"

definition octet1 :: "u8 \<Rightarrow> u8 \<Rightarrow> u8" where
  "octet1 v w = push_bit 4 v OR drop_bit 2 w"

definition octet2 :: "u8 \<Rightarrow> u8 \<Rightarrow> u8" where
  "octet2 v w = push_bit 6 v OR w"

fun base64_decode :: "string \<Rightarrow> u8 list option" where
  "base64_decode [] = Some []"
| "base64_decode (c0 # c1 # c2 # c3 # cs) =
     do {
       v0 \<leftarrow> b64_value c0;
       v1 \<leftarrow> b64_value c1;
       if c2 = CHR ''='' then (if c3 = CHR ''='' \<and> cs = [] then Some [octet0 v0 v1] else None)
       else do {
         v2 \<leftarrow> b64_value c2;
         if c3 = CHR ''='' then (if cs = [] then Some [octet0 v0 v1, octet1 v1 v2] else None)
         else do {
           v3 \<leftarrow> b64_value c3;
           bs \<leftarrow> base64_decode cs;
           Some ([octet0 v0 v1, octet1 v1 v2, octet2 v2 v3] @ bs)
         }
       }
     }"
| "base64_decode cs = None"

subsection \<open>Six-bit groups\<close>

lemma bit_u8_cases: "bit (w :: u8) n \<Longrightarrow> n \<in> {0, 1, 2, 3, 4, 5, 6, 7}"
  by (auto dest!: bit_imp_le_length simp: less_Suc_eq numeral_eq_Suc)

lemma u8_eqI:
  assumes "\<And>n. n \<in> {0, 1, 2, 3, 4, 5, 6, 7} \<Longrightarrow> bit v n = bit (w :: u8) n"
  shows "v = w"
  using assms bit_u8_cases by (intro bit_word_eqI) blast

lemma sextet1_or: "sextet1 a b = push_bit 4 (a AND 0x03) OR drop_bit 4 (b AND 0xf0)"
  unfolding sextet1_def
  by (rule disjunctive_add) (auto simp: bit_simps dest: bit_imp_le_length)

lemma sextet2_or: "sextet2 b c = push_bit 2 (b AND 0x0f) OR drop_bit 6 (c AND 0xc0)"
  unfolding sextet2_def
  by (rule disjunctive_add) (auto simp: bit_simps dest: bit_imp_le_length)

lemmas sextet_defs = sextet0_def sextet1_or sextet2_or sextet3_def

lemma octets:
  "octet0 (sextet0 a) (sextet1 a b) = a"
  "octet1 (sextet1 a b) (sextet2 b c) = b"
  "octet2 (sextet2 b c) (sextet3 c) = c"
  by (rule u8_eqI; simp only: insert_iff empty_iff simp_thms; elim disjE;
      simp add: octet0_def octet1_def octet2_def sextet_defs bit_simps)+

lemma sextet_masked:
  "sextet0 a AND 0x3f = sextet0 a" "sextet1 a b AND 0x3f = sextet1 a b"
  "sextet2 b c AND 0x3f = sextet2 b c" "sextet3 c AND 0x3f = sextet3 c"
  by (rule u8_eqI; simp only: insert_iff empty_iff simp_thms; elim disjE;
      simp add: sextet_defs bit_simps)+

lemma masked_less_64:
  assumes "v AND 0x3f = (v :: u8)"
  shows "unat v < 64"
proof -
  have "v AND mask 6 = v" using assms by (simp add: mask_eq_exp_minus_1)
  then have "v = take_bit 6 v" by (simp add: take_bit_eq_mask)
  then have "unat v = take_bit 6 (unat v)" by (metis unsigned_take_bit_eq)
  moreover have "take_bit 6 (unat v) < 2 ^ 6" by (rule take_bit_nat_less_exp)
  ultimately show ?thesis by simp
qed

lemmas sextet_less = sextet_masked [THEN masked_less_64]

lemma index_of_nth: "distinct xs \<Longrightarrow> i < length xs \<Longrightarrow> index_of (xs ! i) xs = Some i"
  by (induction xs arbitrary: i) (auto simp: nth_Cons split: nat.split)

lemma base64_chars_facts: "distinct base64_chars" "length base64_chars = 64" "CHR ''='' \<notin> set base64_chars"
  by (simp_all add: base64_chars_def)

lemma b64_value_char:
  assumes "unat v < 64"
  shows "b64_value (b64_char v) = Some v" and "b64_char v \<noteq> CHR ''=''" and "b64_char v \<in> set base64_chars"
proof -
  have i: "unat v < length base64_chars" using assms base64_chars_facts(2) by simp
  show "b64_value (b64_char v) = Some v"
    using index_of_nth [OF base64_chars_facts(1) i] by (simp add: b64_value_def b64_char_def)
  show "b64_char v \<in> set base64_chars" using i by (simp add: b64_char_def)
  then show "b64_char v \<noteq> CHR ''=''" using base64_chars_facts(3) by metis
qed

lemmas b64_sextets = sextet_less [THEN b64_value_char(1)] sextet_less [THEN b64_value_char(2)]

lemma b64_loop_simps:
  "b64_loop [] (a # b # c # bs) =
     map b64_char [sextet0 a, sextet1 a b, sextet2 b c, sextet3 c] @ b64_loop [] bs"
  "b64_loop [] [] = []"
  "b64_loop [] [a] = map b64_char [sextet0 a, sextet1 a 0] @ ''==''"
  "b64_loop [] [a, b] = map b64_char [sextet0 a, sextet1 a b, sextet2 b 0] @ ''=''"
  by (simp_all add: Let_def b64_rest_def numeral_eq_Suc)

lemma bytes_by_three:
  obtains (none) "bs = []" | (one) a where "bs = [a]" | (two) a b where "bs = [a, b]"
    | (three) a b c cs where "bs = a # b # c # cs"
  by (cases bs; cases "tl bs"; cases "tl (tl bs)") auto

text \<open>
  \<open>base64_encode\<close> is standard base64: the RFC 4648 decoder recovers exactly the bytes, the
  text has four characters for every three bytes begun, and every character is in the
  alphabet or is padding; the table is never indexed outside its 64 entries.
\<close>
theorem base64_roundtrip:
  "base64_decode (base64_encode bs) = Some bs \<and> length (base64_encode bs) = 4 * ((length bs + 2) div 3) \<and>
   set (base64_encode bs) \<subseteq> set base64_chars \<union> {CHR ''=''}"
proof (induction "length bs" arbitrary: bs rule: less_induct)
  case less
  show ?case
  proof (cases bs rule: bytes_by_three)
    case (three a b c cs)
    have "(5 + length cs) div 3 = Suc (Suc (Suc (length cs)) div 3)" by presburger
    with three show ?thesis
      using less [of cs] b64_value_char(3) [OF sextet_less(1)] b64_value_char(3) [OF sextet_less(2)]
        b64_value_char(3) [OF sextet_less(3)] b64_value_char(3) [OF sextet_less(4)]
      by (simp add: base64_encode_def b64_loop_simps b64_sextets octets del: b64_loop.simps)
  qed (use b64_value_char(3) [OF sextet_less(1)] b64_value_char(3) [OF sextet_less(2)]
        b64_value_char(3) [OF sextet_less(3)]
      in \<open>simp_all add: base64_encode_def b64_loop_simps b64_sextets octets del: b64_loop.simps\<close>)
qed

end
