(* ===== verification/Sha1.thy ===== *)
theory Sha1
  imports Bytes
begin

text \<open>
  \<open>simple_sha1\<close> of \<open>src/websocket_server.cpp\<close>, loop by loop, with SHA-1 of FIPS 180-4 as its
  specification.
\<close>

type_synonym sha = "u32 \<times> u32 \<times> u32 \<times> u32 \<times> u32"

definition sha1_init :: sha where
  "sha1_init = (0x67452301, 0xEFCDAB89, 0x98BADCFE, 0x10325476, 0xC3D2E1F0)"

subsection \<open>Padding\<close>

lemma pad_mod:
  assumes "c < (64::nat)" and "r < 64"
  shows "(c + 64 - r) mod 64 = (if r \<le> c then c - r else c + 64 - r)"
proof (cases "r \<le> c")
  case True
  then have "(c + 64 - r) mod 64 = ((c - r) + 64) mod 64" by simp
  also have "\<dots> = c - r" using assms(1) by (simp only: mod_add_self2) simp
  finally show ?thesis using True by simp
qed (use assms in simp)

lemma pad_measure: "r < 64 \<Longrightarrow> (120 - r) mod 64 = (if r \<le> 56 then 56 - r else 120 - (r::nat))"
  using pad_mod [of 56 r] by simp

text \<open>\<open>while ((padded.size() % 64) != 56) padded.push_back(0)\<close>\<close>

function pad_loop :: "u8 list \<Rightarrow> u8 list" where
  "pad_loop p = (if length p mod 64 = 56 then p else pad_loop (p @ [0]))"
  by auto
termination
proof (relation "measure (\<lambda>p. (120 - length p mod 64) mod 64)")
  fix p :: "u8 list"
  assume "length p mod 64 \<noteq> 56"
  moreover have "length p mod 64 < 64" and "Suc (length p) mod 64 < 64" by simp_all
  moreover have "Suc (length p) mod 64 = (if length p mod 64 = 63 then 0 else Suc (length p mod 64))"
    by (simp add: mod_Suc)
  ultimately have "(120 - Suc (length p) mod 64) mod 64 < (120 - length p mod 64) mod 64"
    by (auto simp: pad_measure)
  then show "(p @ [0], p) \<in> measure (\<lambda>p. (120 - length p mod 64) mod 64)" by simp
qed simp

declare pad_loop.simps [simp del]

text \<open>The length of the message in bits, 64 bits wide, most significant byte first.\<close>

definition sha1_pad :: "string \<Rightarrow> u8 list" where
  "sha1_pad input =
     (let bit_len = of_nat (length input) * 8 :: u64
      in pad_loop (map ch input @ [0x80]) @
         map (\<lambda>i. ucast (drop_bit (i * 8) bit_len AND 0xFF)) (rev [0..<8]))"

subsection \<open>One block\<close>

definition rotate_left :: "u32 \<Rightarrow> nat \<Rightarrow> u32" where
  "rotate_left v n = push_bit n v OR drop_bit (32 - n) v"

text \<open>The two loops that fill \<open>w\<close>; the bytes are read at \<open>chunk + i * 4\<close> and the next three.\<close>

definition load_word :: "u8 list \<Rightarrow> nat \<Rightarrow> u32" where
  "load_word p j =
     push_bit 24 (ucast (p ! j)) OR push_bit 16 (ucast (p ! (j + 1))) OR
     push_bit 8 (ucast (p ! (j + 2))) OR ucast (p ! (j + 3))"

definition schedule :: "u8 list \<Rightarrow> nat \<Rightarrow> u32 list" where
  "schedule p chunk =
     fold (\<lambda>i w. w @ [rotate_left (w ! (i - 3) XOR w ! (i - 8) XOR w ! (i - 14) XOR w ! (i - 16)) 1])
       [16..<80] (map (\<lambda>i. load_word p (chunk + i * 4)) [0..<16])"

definition sha1_fk :: "nat \<Rightarrow> u32 \<Rightarrow> u32 \<Rightarrow> u32 \<Rightarrow> u32 \<times> u32" where
  "sha1_fk i b c d =
     (if i < 20 then (b AND c OR NOT b AND d, 0x5A827999)
      else if i < 40 then (b XOR c XOR d, 0x6ED9EBA1)
      else if i < 60 then (b AND c OR b AND d OR c AND d, 0x8F1BBCDC)
      else (b XOR c XOR d, 0xCA62C1D6))"

definition sha1_round :: "u32 list \<Rightarrow> nat \<Rightarrow> sha \<Rightarrow> sha" where
  "sha1_round w i h =
     (case h of (a, b, c, d, e) \<Rightarrow>
        (let (f, k) = sha1_fk i b c d;
             temp = rotate_left a 5 + f + e + k + w ! i
         in (temp, a, rotate_left b 30, c, d)))"

definition add_sha :: "sha \<Rightarrow> sha \<Rightarrow> sha" where
  "add_sha h g =
     (case (h, g) of ((h0, h1, h2, h3, h4), (a, b, c, d, e)) \<Rightarrow>
        (h0 + a, h1 + b, h2 + c, h3 + d, h4 + e))"

definition sha1_block :: "u8 list \<Rightarrow> nat \<Rightarrow> sha \<Rightarrow> sha" where
  "sha1_block p chunk h =
     (let w = schedule p chunk in add_sha h (fold (sha1_round w) [0..<80] h))"

subsection \<open>The whole function\<close>

definition word_out :: "u32 \<Rightarrow> u8 list" where
  "word_out h =
     [ucast (drop_bit 24 h AND 0xFF), ucast (drop_bit 16 h AND 0xFF), ucast (drop_bit 8 h AND 0xFF),
      ucast (h AND 0xFF)]"

text \<open>\<open>for (chunk = 0; chunk < padded.size(); chunk += 64)\<close>\<close>

definition simple_sha1 :: "string \<Rightarrow> u8 list" where
  "simple_sha1 input =
     (let padded = sha1_pad input;
          (h0, h1, h2, h3, h4) =
            fold (\<lambda>n. sha1_block padded (64 * n)) [0..<(length padded + 63) div 64] sha1_init
      in word_out h0 @ word_out h1 @ word_out h2 @ word_out h3 @ word_out h4)"

subsection \<open>FIPS 180-4\<close>

text \<open>
  Padding: a one bit, the fewest zeros that leave room for the length, the length. The words of
  a block are big-endian; \<open>fips_w\<close> is the message schedule, \<open>fips_f\<close> the functions Ch, Parity
  and Maj.
\<close>

definition fips_pad :: "u8 list \<Rightarrow> u8 list" where
  "fips_pad m =
     m @ [0x80] @ replicate ((119 - length m mod 64) mod 64) 0 @ be_bytes 8 (of_nat (8 * length m) :: u64)"

definition fips_word :: "u8 list \<Rightarrow> nat \<Rightarrow> u32" where
  "fips_word blk t = be (take 4 (drop (4 * t) blk))"

function fips_w :: "u8 list \<Rightarrow> nat \<Rightarrow> u32" where
  "fips_w blk t =
     (if t < 16 then fips_word blk t
      else rotate_left (fips_w blk (t - 3) XOR fips_w blk (t - 8) XOR fips_w blk (t - 14) XOR fips_w blk (t - 16)) 1)"
  by auto
termination by (relation "measure snd") auto

declare fips_w.simps [simp del]

definition fips_f :: "nat \<Rightarrow> u32 \<Rightarrow> u32 \<Rightarrow> u32 \<Rightarrow> u32" where
  "fips_f t x y z =
     (if t \<le> 19 then (x AND y) XOR (NOT x AND z)
      else if 40 \<le> t \<and> t \<le> 59 then (x AND y) XOR (x AND z) XOR (y AND z)
      else x XOR y XOR z)"

definition fips_k :: "nat \<Rightarrow> u32" where
  "fips_k t =
     (if t \<le> 19 then 0x5a827999 else if t \<le> 39 then 0x6ed9eba1 else if t \<le> 59 then 0x8f1bbcdc
      else 0xca62c1d6)"

primrec fips_rounds :: "u8 list \<Rightarrow> nat \<Rightarrow> sha \<Rightarrow> sha" where
  "fips_rounds blk 0 h = h"
| "fips_rounds blk (Suc t) h =
     (case fips_rounds blk t h of (a, b, c, d, e) \<Rightarrow>
        (rotate_left a 5 + fips_f t b c d + e + fips_k t + fips_w blk t, a, rotate_left b 30, c, d))"

primrec fips_hash :: "u8 list \<Rightarrow> nat \<Rightarrow> sha" where
  "fips_hash m 0 = sha1_init"
| "fips_hash m (Suc n) =
     add_sha (fips_hash m n) (fips_rounds (take 64 (drop (64 * n) m)) 80 (fips_hash m n))"

definition fips_sha1 :: "u8 list \<Rightarrow> u8 list" where
  "fips_sha1 m =
     (case fips_hash (fips_pad m) (length (fips_pad m) div 64) of (h0, h1, h2, h3, h4) \<Rightarrow>
        be_bytes 4 h0 @ be_bytes 4 h1 @ be_bytes 4 h2 @ be_bytes 4 h3 @ be_bytes 4 h4)"

subsection \<open>The loops compute the standard\<close>

lemma pad_loop_eq: "pad_loop p = p @ replicate ((120 - length p mod 64) mod 64) 0"
proof (induction p rule: pad_loop.induct)
  case (1 p)
  show ?case
  proof (cases "length p mod 64 = 56")
    case True
    then show ?thesis by (subst pad_loop.simps) simp
  next
    case False
    have "length p mod 64 < 64" and "Suc (length p) mod 64 < 64" by simp_all
    moreover have "Suc (length p) mod 64 = (if length p mod 64 = 63 then 0 else Suc (length p mod 64))"
      by (simp add: mod_Suc)
    ultimately have "(120 - length p mod 64) mod 64 = Suc ((120 - Suc (length p) mod 64) mod 64)"
      using False by (auto simp: pad_measure)
    with False 1 show ?thesis by (subst pad_loop.simps) simp
  qed
qed

lemma pad_zeros_eq: "(120 - Suc n mod 64) mod 64 = (119 - n mod 64) mod (64::nat)"
proof -
  have "n mod 64 < 64" by simp
  moreover have "Suc n mod 64 = (if n mod 64 = 63 then 0 else Suc (n mod 64))" by (simp add: mod_Suc)
  ultimately show ?thesis by auto
qed

lemma byte_masked: "ucast (drop_bit k (w :: 'n::len word) AND 0xFF) = (ucast (drop_bit k w) :: u8)"
proof -
  have "(0xFF :: 'n word) = mask 8" by (simp add: mask_eq_exp_minus_1)
  show ?thesis unfolding \<open>0xFF = mask 8\<close>
    by (intro bit_word_eqI) (auto simp: bit_simps dest: bit_imp_le_length)
qed

lemma be_bytes_8: "map (\<lambda>i. ucast (drop_bit (i * 8) (w :: u64) AND 0xFF)) (rev [0..<8]) = be_bytes 8 w"
  by (simp add: byte_masked be_bytes_def upt_rec numeral_eq_Suc)

lemma word_out_be: "word_out w = be_bytes 4 w"
  using byte_masked [of 0 w] by (simp add: word_out_def byte_masked be_bytes_def numeral_eq_Suc)

lemma sha1_pad_fips: "sha1_pad input = fips_pad (map ch input)"
  by (simp add: sha1_pad_def Let_def be_bytes_8 pad_loop_eq pad_zeros_eq fips_pad_def mult.commute)

lemma length_fips_pad: "length (fips_pad m) mod 64 = 0"
proof -
  let ?r = "length m mod 64"
  have m: "?r < 64" by simp
  have "(length m + ((119 - ?r) mod 64 + 9)) mod 64 = (?r + ((119 - ?r) mod 64 + 9)) mod 64"
    by (simp only: mod_add_left_eq)
  also have "\<dots> = 0"
    using pad_mod [of 55 ?r] m by (cases "?r \<le> 55") simp_all
  finally show ?thesis by (simp add: fips_pad_def ac_simps)
qed

lemma load_word_be: "load_word p j = be [p ! j, p ! (j + 1), p ! (j + 2), p ! (j + 3)]"
  by (simp add: load_word_def be_def push_bit_or ac_simps)

lemma take_4: "j + 4 \<le> length p \<Longrightarrow> take 4 (drop j p) = [p ! j, p ! (j + 1), p ! (j + 2), p ! (j + 3)]"
  by (rule nth_equalityI) (auto simp: nth_Cons less_Suc_eq numeral_eq_Suc split: nat.split)

lemma load_block_word:
  assumes "chunk + 64 \<le> length p" and "i < 16"
  shows "load_word p (chunk + i * 4) = fips_word (take 64 (drop chunk p)) i"
proof -
  have "take 4 (drop (4 * i) (take 64 (drop chunk p))) = take 4 (drop (chunk + i * 4) p)"
    using assms by (simp add: drop_take min_def mult.commute add.commute)
  with assms show ?thesis
    by (simp add: fips_word_def load_word_be take_4)
qed

lemma schedule_fips:
  assumes "chunk + 64 \<le> length p"
  shows "schedule p chunk = map (fips_w (take 64 (drop chunk p))) [0..<80]"
proof -
  let ?W = "fips_w (take 64 (drop chunk p))"
  let ?step = "\<lambda>i w. w @ [rotate_left (w ! (i - 3) XOR w ! (i - 8) XOR w ! (i - 14) XOR w ! (i - 16)) 1]"
  have start: "map (\<lambda>i. load_word p (chunk + i * 4)) [0..<16] = map ?W [0..<16]"
    by (rule map_cong) (simp_all add: load_block_word [OF assms] fips_w.simps)
  have steps: "fold ?step [16..<16 + k] (map ?W [0..<16]) = map ?W [0..<16 + k]" for k
  proof (induction k)
    case (Suc k)
    have u: "[16..<16 + Suc k] = [16..<16 + k] @ [16 + k]" "[0..<16 + Suc k] = [0..<16 + k] @ [16 + k]"
      by (simp_all only: add_Suc_right upt_Suc_append le_add1 zero_le)
    have nth: "map ?W [0..<16 + k] ! (16 + k - j) = ?W (16 + k - j)" if "0 < j" for j
      using that by simp
    have "?W (16 + k) = rotate_left (?W (16 + k - 3) XOR ?W (16 + k - 8) XOR ?W (16 + k - 14) XOR ?W (16 + k - 16)) 1"
      by (subst fips_w.simps) simp
    then show ?case unfolding u fold_append comp_apply Suc
      by (simp only: fold_simps map_append list.map id_apply o_apply nth zero_less_numeral)
  qed simp
  have "(16 :: nat) + 64 = 80" by simp
  from steps [of 64, unfolded this] show ?thesis unfolding schedule_def start .
qed

lemma sha1_fk_fips: "sha1_fk i b c d = (fips_f i b c d, fips_k i)"
proof -
  have "b AND c OR NOT b AND d = (b AND c) XOR (NOT b AND d)"
    and "b AND c OR b AND d OR c AND d = (b AND c) XOR (b AND d) XOR (c AND d)"
    by (rule bit_word_eqI; auto simp: bit_simps)+
  then show ?thesis by (auto simp: sha1_fk_def fips_f_def fips_k_def)
qed

lemma rounds_fips:
  assumes "w = map (fips_w blk) [0..<80]" and "t \<le> 80"
  shows "fold (sha1_round w) [0..<t] h = fips_rounds blk t h"
  using assms(2)
proof (induction t)
  case (Suc t)
  then show ?case
    using assms(1) by (simp add: sha1_round_def sha1_fk_fips split: prod.splits)
qed simp

lemma hash_fips:
  assumes "length p mod 64 = 0" and "n \<le> length p div 64"
  shows "fold (\<lambda>i. sha1_block p (64 * i)) [0..<n] sha1_init = fips_hash p n"
  using assms(2)
proof (induction n)
  case (Suc n)
  then have "64 * Suc n \<le> 64 * (length p div 64)" by simp
  also have "\<dots> \<le> length p" by simp
  finally have len: "64 * n + 64 \<le> length p" by simp
  have "sha1_block p (64 * n) h = add_sha h (fips_rounds (take 64 (drop (64 * n) p)) 80 h)" for h
    unfolding sha1_block_def Let_def rounds_fips [OF schedule_fips [OF len] order_refl] ..
  with Suc show ?case by simp
qed simp

lemma simple_sha1_eq_fips: "simple_sha1 input = fips_sha1 (map ch input)"
proof -
  let ?p = "fips_pad (map ch input)"
  have m: "length ?p mod 64 = 0" by (rule length_fips_pad)
  obtain n where n: "length ?p = 64 * n" using m by (metis mod_0_imp_dvd dvdE)
  then have "(length ?p + 63) div 64 = length ?p div 64" by simp
  then show ?thesis
    unfolding simple_sha1_def fips_sha1_def sha1_pad_fips word_out_be Let_def
    by (simp only: hash_fips [OF m order_refl])
qed


end
