(* ===== verification/WebSocket.thy ===== *)
theory WebSocket
  imports Base64 Sha1
begin

text \<open>
  \<open>src/websocket_server.hpp\<close> and \<open>src/websocket_server.cpp\<close>: the opening handshake, the frames
  that \<open>broadcast\<close> and \<open>broadcast_binary\<close> send, and the life cycle of the server with its accept
  thread. What the socket calls return is a parameter of the operations; the calls the server
  makes are their output. \<open>base64_encode\<close> and \<open>simple_sha1\<close> are in \<open>Base64\<close> and \<open>Sha1\<close>.
\<close>

subsection \<open>Searching a string\<close>

text \<open>\<open>std::string::find\<close>: the first position at or after \<open>pos\<close>, \<open>None\<close> for \<open>npos\<close>.\<close>

fun find_at :: "string \<Rightarrow> string \<Rightarrow> nat \<Rightarrow> nat option" where
  "find_at pat s i =
     (if take (length pat) s = pat then Some i
      else case s of [] \<Rightarrow> None | c # cs \<Rightarrow> find_at pat cs (i + 1))"

declare find_at.simps [simp del]

definition str_find :: "string \<Rightarrow> string \<Rightarrow> nat \<Rightarrow> nat option" where
  "str_find s pat pos = (if pos \<le> length s then find_at pat (drop pos s) pos else None)"

text \<open>\<open>while (key_pos < request.size() && request[key_pos] == ' ') key_pos++\<close>\<close>

function skip_spaces :: "string \<Rightarrow> nat \<Rightarrow> nat" where
  "skip_spaces s pos =
     (if pos < length s \<and> s ! pos = CHR '' '' then skip_spaces s (pos + 1) else pos)"
  by auto
termination by (relation "measure (\<lambda>(s, pos). length s - pos)") auto

declare skip_spaces.simps [simp del]

subsection \<open>The handshake\<close>

definition magic :: string where
  "magic = ''258EAFA5-E914-47DA-95CA-C5AB0DC85B11''"

definition generate_accept_key :: "string \<Rightarrow> string" where
  "generate_accept_key key = base64_encode (simple_sha1 (key @ magic))"

definition crlf :: string where
  "crlf = [CHR 0x0D, CHR 0x0A]"

definition key_header :: string where
  "key_header = ''Sec-WebSocket-Key:''"

definition response :: "string \<Rightarrow> string" where
  "response accept =
     ''HTTP/1.1 101 Switching Protocols'' @ crlf @
     ''Upgrade: websocket'' @ crlf @
     ''Connection: Upgrade'' @ crlf @
     ''Sec-WebSocket-Accept: '' @ accept @ crlf @
     crlf"

text \<open>
  \<open>buffer\<close> holds what \<open>recv\<close> returned, at most 4095 bytes, and a NUL; the \<open>std::string\<close> made
  from it ends at the first NUL.
\<close>

definition request_of :: "string \<Rightarrow> string" where
  "request_of received = takeWhile (\<lambda>c. c \<noteq> CHR 0x00) (take 4095 received)"

text \<open>
  The argument is what \<open>recv\<close> returned: \<open>None\<close> on an error, the empty string at the end of the
  stream. The result is the response that is sent, \<open>None\<close> for \<open>return false\<close>.
\<close>

definition handle_handshake :: "string option \<Rightarrow> string option" where
  "handle_handshake received =
     (case received of
        None \<Rightarrow> None
      | Some data \<Rightarrow>
          if data = [] then None
          else
            let request = request_of data
            in case str_find request key_header 0 of
                 None \<Rightarrow> None
               | Some p \<Rightarrow>
                   let key_pos = skip_spaces request (p + 18)
                   in case str_find request crlf key_pos of
                        None \<Rightarrow> None
                      | Some key_end \<Rightarrow>
                          let key = take (key_end - key_pos) (drop key_pos request)
                          in Some (response (generate_accept_key key)))"

subsection \<open>Frames\<close>

text \<open>
  The first bytes of a frame of \<open>len\<close> payload bytes; \<open>size_t\<close> is a 64-bit word. The same code
  stands in \<open>broadcast\<close> (\<open>0x81\<close>, text) and \<open>broadcast_binary\<close> (\<open>0x82\<close>).
\<close>

definition frame_header :: "u8 \<Rightarrow> nat \<Rightarrow> u8 list" where
  "frame_header op n =
     (let len = of_nat n :: u64
      in if len \<le> 125 then [op, ucast len]
         else if len \<le> 65535 then [op, 126, ucast (drop_bit 8 len AND 0xFF), ucast (len AND 0xFF)]
         else [op, 127] @ map (\<lambda>i. ucast (drop_bit (i * 8) len AND 0xFF)) (rev [0..<8]))"

definition text_frame :: "string \<Rightarrow> u8 list" where
  "text_frame message = frame_header 0x81 (length message) @ map ch message"

definition binary_frame :: "u8 list \<Rightarrow> u8 list" where
  "binary_frame data = frame_header 0x82 (length data) @ data"

text \<open>
  The receiver of RFC 6455, section 5.2, for an unmasked, unfragmented frame: opcode byte,
  payload and the bytes after the frame. It insists on the shortest form of the length and on
  a clear top bit of the 64-bit form, as the RFC does.
\<close>

definition take_payload :: "u8 \<Rightarrow> nat \<Rightarrow> u8 list \<Rightarrow> (u8 \<times> u8 list \<times> u8 list) option" where
  "take_payload op n bs = (if n \<le> length bs then Some (op, take n bs, drop n bs) else None)"

definition decode_frame :: "u8 list \<Rightarrow> (u8 \<times> u8 list \<times> u8 list) option" where
  "decode_frame s =
     (case s of
        op # l # bs \<Rightarrow>
          if l \<le> 125 then take_payload op (unat l) bs
          else if l = 126 then
            let n = unat (be (take 2 bs) :: u64)
            in if 2 \<le> length bs \<and> 126 \<le> n then take_payload op n (drop 2 bs) else None
          else if l = 127 then
            let n = unat (be (take 8 bs) :: u64)
            in if 8 \<le> length bs \<and> 65536 \<le> n \<and> n < 2 ^ 63 then take_payload op n (drop 8 bs) else None
          else None
      | _ \<Rightarrow> None)"

fun decode_frames :: "nat \<Rightarrow> u8 list \<Rightarrow> (u8 \<times> u8 list) list option" where
  "decode_frames 0 s = (if s = [] then Some [] else None)"
| "decode_frames (Suc k) s =
     (if s = [] then Some []
      else case decode_frame s of
             None \<Rightarrow> None
           | Some (op, payload, rest) \<Rightarrow> map_option ((#) (op, payload)) (decode_frames k rest))"

subsection \<open>First occurrences\<close>

definition occurs :: "string \<Rightarrow> string \<Rightarrow> bool" where
  "occurs pat s \<longleftrightarrow> (\<exists>u v. s = u @ pat @ v)"

text \<open>\<open>first_split pat u s v\<close>: \<open>s\<close> is \<open>u\<close>, \<open>pat\<close>, \<open>v\<close>, and \<open>pat\<close> does not begin earlier.\<close>

definition first_split :: "string \<Rightarrow> string \<Rightarrow> string \<Rightarrow> string \<Rightarrow> bool" where
  "first_split pat u s v \<longleftrightarrow> s = u @ pat @ v \<and> \<not> occurs pat (u @ butlast pat)"

lemma occurs_Cons:
  "occurs pat (c # s) \<longleftrightarrow> take (length pat) (c # s) = pat \<or> occurs pat s"
proof
  assume "occurs pat (c # s)"
  then obtain u v where e: "c # s = u @ pat @ v" by (auto simp: occurs_def)
  show "take (length pat) (c # s) = pat \<or> occurs pat s"
  proof (cases u)
    case (Cons d u')
    with e show ?thesis by (auto simp: occurs_def)
  qed (simp add: e)
next
  assume "take (length pat) (c # s) = pat \<or> occurs pat s"
  then show "occurs pat (c # s)"
    unfolding occurs_def by (metis append_Cons append_Nil append_take_drop_id)
qed

lemma first_split_Nil: "pat \<noteq> [] \<Longrightarrow> first_split pat [] s v \<longleftrightarrow> s = pat @ v"
proof -
  assume "pat \<noteq> []"
  then have "length (butlast pat) < length pat" by (cases pat) simp_all
  moreover have "length pat \<le> length s" if "occurs pat s" for s using that by (auto simp: occurs_def)
  ultimately have "\<not> occurs pat (butlast pat)" using not_le by blast
  then show ?thesis by (auto simp: first_split_def)
qed

lemma first_split_Cons:
  assumes "pat \<noteq> []"
  shows "first_split pat (c # u) (d # s) v \<longleftrightarrow>
    d = c \<and> take (length pat) (d # s) \<noteq> pat \<and> first_split pat u s v"
proof -
  have "take (length pat) (c # u @ pat @ v) = take (length pat) (c # u @ butlast pat)"
  proof -
    have "pat = butlast pat @ [last pat]" using assms by simp
    then have e: "c # u @ pat @ v = (c # u @ butlast pat) @ last pat # v"
      by (metis append_Cons append_assoc append_Nil)
    have "length pat - length (c # u @ butlast pat) = 0" using assms by (cases pat) simp_all
    then show ?thesis unfolding e take_append by (simp only: take_0 append_Nil2)
  qed
  then show ?thesis by (auto simp: first_split_def occurs_Cons)
qed

text \<open>\<open>find\<close> returns the first occurrence, and \<open>npos\<close> when there is none.\<close>

lemma find_at_Some_iff:
  assumes "pat \<noteq> []"
  shows "find_at pat s i = Some k \<longleftrightarrow> (\<exists>u v. first_split pat u s v \<and> k = i + length u)"
proof (induction s arbitrary: i)
  case Nil
  then show ?case using assms by (auto simp: find_at.simps [of pat "[]"] first_split_def)
next
  case (Cons d s)
  show ?case
  proof (cases "take (length pat) (d # s) = pat")
    case True
    then have d: "d # s = pat @ drop (length pat) (d # s)" by (metis append_take_drop_id)
    then have "first_split pat [] (d # s) (drop (length pat) (d # s))"
      using first_split_Nil [OF assms] by blast
    moreover have "u = []" if "first_split pat u (d # s) v" for u v
      using that True first_split_Cons [OF assms, of _ _ d s v] by (cases u) auto
    ultimately show ?thesis using True by (auto simp: find_at.simps [of pat "d # s"])
  next
    case False
    have "(\<exists>u v. first_split pat u (d # s) v \<and> k = i + length u) \<longleftrightarrow>
        (\<exists>u v. first_split pat u s v \<and> k = i + 1 + length u)" (is "?L \<longleftrightarrow> ?R")
    proof
      assume ?L
      then obtain u v where u: "first_split pat u (d # s) v" "k = i + length u" by blast
      then obtain c u' where "u = c # u'"
        using False first_split_Nil [OF assms, of "d # s" v] by (cases u) auto
      with u show ?R using first_split_Cons [OF assms, of c u' d s v] by auto
    next
      assume ?R
      then obtain u v where "first_split pat u s v" "k = i + 1 + length u" by blast
      then have "first_split pat (d # u) (d # s) v" and "k = i + length (d # u)"
        using False first_split_Cons [OF assms] by auto
      then show ?L by blast
    qed
    with False Cons show ?thesis by (simp add: find_at.simps [of pat "d # s"])
  qed
qed

lemma find_at_None_iff: "pat \<noteq> [] \<Longrightarrow> find_at pat s i = None \<longleftrightarrow> \<not> occurs pat s"
proof (induction s arbitrary: i)
  case Nil
  then show ?case by (simp add: find_at.simps [of pat "[]"] occurs_def)
qed (simp add: find_at.simps [of _ "_ # _"] occurs_Cons)

lemma skip_spaces_eq:
  assumes "b = [] \<or> hd b \<noteq> CHR '' ''"
  shows "skip_spaces (a @ replicate n (CHR '' '') @ b) (length a) = length a + n"
  using assms
proof (induction n arbitrary: a)
  case 0
  then show ?case by (subst skip_spaces.simps) (auto simp: nth_append hd_conv_nth)
next
  case (Suc n)
  have "skip_spaces ((a @ '' '') @ replicate n (CHR '' '') @ b) (length (a @ '' '')) = length (a @ '' '') + n"
    by (rule Suc.IH [OF Suc.prems])
  then show ?case by (subst skip_spaces.simps) (simp add: nth_append)
qed

lemma split_spaces:
  obtains n b where "s = replicate n (CHR '' '') @ b" and "b = [] \<or> hd b \<noteq> CHR '' ''"
proof -
  let ?P = "\<lambda>c. c = CHR '' ''"
  have "takeWhile ?P s = replicate (length (takeWhile ?P s)) (CHR '' '')"
    by (rule replicate_length_same [symmetric]) (auto dest: set_takeWhileD)
  then have "s = replicate (length (takeWhile ?P s)) (CHR '' '') @ dropWhile ?P s"
    by (metis takeWhile_dropWhile_id)
  moreover have "dropWhile ?P s = [] \<or> hd (dropWhile ?P s) \<noteq> CHR '' ''"
    using hd_dropWhile [of ?P s] by blast
  ultimately show thesis by (rule that)
qed

subsection \<open>The handshake answers with the key of the request\<close>

lemma needles [simp]: "key_header \<noteq> []" "crlf \<noteq> []" "length key_header = 18"
  by (simp_all add: key_header_def crlf_def)

lemma length_first_split:
  "first_split pat u s v \<Longrightarrow> length s = length u + length pat + length v"
  by (auto simp: first_split_def)

text \<open>A request whose first key header is followed by spaces and \<open>rest\<close>.\<close>

lemma find_at_shift:
  assumes "pat \<noteq> []"
  shows "find_at pat s i = map_option ((+) i) (find_at pat s 0)"
proof (cases "find_at pat s 0")
  case None
  then have "find_at pat s i = None" using find_at_None_iff [OF assms] by simp
  with None show ?thesis by simp
next
  case (Some n)
  then obtain u v where "first_split pat u s v" and "n = length u"
    by (auto simp: find_at_Some_iff [OF assms])
  then have "find_at pat s i = Some (i + n)" by (auto simp: find_at_Some_iff [OF assms])
  with Some show ?thesis by simp
qed

lemma handshake_eval:
  assumes "first_split key_header pre (request_of data) (replicate k (CHR '' '') @ rest)"
    and "take 1 rest \<noteq> '' ''"
  shows "handle_handshake (Some data) =
    map_option (\<lambda>n. response (generate_accept_key (take n rest))) (find_at crlf rest 0)"
proof -
  define r where "r = request_of data"
  define a where "a = pre @ key_header"
  have r: "r = a @ replicate k (CHR '' '') @ rest" and a: "length pre + 18 = length a"
    using assms(1) by (simp_all add: first_split_def r_def a_def)
  have "r \<noteq> []" by (simp add: r a_def)
  then have data: "data \<noteq> []" by (auto simp: r_def request_of_def)
  have "find_at key_header r 0 = Some (length pre)"
    using find_at_Some_iff [of key_header r 0] assms(1) by (auto simp: r_def)
  then have key: "str_find r key_header 0 = Some (length pre)" by (simp add: str_find_def)
  have "rest = [] \<or> hd rest \<noteq> CHR '' ''" using assms(2) by (cases rest) auto
  then have skip: "skip_spaces r (length a) = length a + k"
    unfolding r by (rule skip_spaces_eq)
  have dropped: "drop (length a + k) r = rest" by (simp add: r)
  have len: "length a + k \<le> length r" by (simp add: r)
  have crlf: "str_find r crlf (length a + k) = map_option ((+) (length a + k)) (find_at crlf rest 0)"
    using len unfolding str_find_def dropped by (simp add: find_at_shift [of crlf rest "length a + k"])
  show ?thesis
    using data unfolding handle_handshake_def option.case Let_def r_def [symmetric]
    by (cases "find_at crlf rest 0") (simp_all add: key a skip crlf dropped)
qed


subsection \<open>Frames are read back\<close>

lemma frame_header_be:
  assumes "n < 2 ^ 64"
  shows "frame_header op n =
    (if n \<le> 125 then [op, of_nat n]
     else if n \<le> 65535 then [op, 126] @ be_bytes 2 (of_nat n :: u64)
     else [op, 127] @ be_bytes 8 (of_nat n :: u64))"
proof -
  have le: "of_nat n \<le> (of_nat k :: u64) \<longleftrightarrow> n \<le> k" if "k < 2 ^ 64" for k
    using assms that by (simp add: word_le_nat_alt unat_of_nat_small)
  have two: "be_bytes 2 w = [ucast (drop_bit 8 w AND 0xFF), ucast (w AND 0xFF)]" for w :: u64
    using byte_masked [of 0 w] by (simp add: byte_masked be_bytes_def numeral_eq_Suc)
  have "of_nat n \<le> (125 :: u64) \<longleftrightarrow> n \<le> 125" and "of_nat n \<le> (65535 :: u64) \<longleftrightarrow> n \<le> 65535"
    using le [of 125] le [of 65535] by simp_all
  moreover have "ucast (of_nat n :: u64) = (of_nat n :: u8)"
    using assms by (simp add: unsigned_of_nat take_bit_nat_eq_self)
  ultimately show ?thesis
    by (simp add: frame_header_def be_bytes_8 two Let_def)
qed

lemma unat_be_bytes:
  assumes "n < 2 ^ (8 * k)" and "k \<le> 8"
  shows "unat (be (be_bytes k (of_nat n :: u64)) :: u64) = n"
proof -
  have "n < 2 ^ 64" using assms power_increasing [of "8 * k" 64 "2 :: nat"] by simp
  moreover have "take_bit (8 * k) (of_nat n :: u64) = of_nat n"
    using assms by (simp add: take_bit_of_nat take_bit_nat_eq_self)
  ultimately show ?thesis
    by (simp add: be_def be_bytes_def le_le_bytes unat_of_nat_small)
qed

lemma decode_frame_header:
  assumes "length payload < 2 ^ 63"
  shows "decode_frame (frame_header op (length payload) @ payload @ rest) = Some (op, payload, rest)"
proof -
  let ?n = "length payload"
  have n: "?n < 2 ^ 64" using assms by simp
  consider "?n \<le> 125" | "125 < ?n" "?n \<le> 65535" | "65535 < ?n" by linarith
  then show ?thesis
  proof cases
    case 1
    then have "unat (of_nat ?n :: u8) = ?n" by (simp add: unat_of_nat_small)
    moreover from this 1 have "(of_nat ?n :: u8) \<le> 125" by (simp add: word_le_nat_alt)
    ultimately show ?thesis using 1 by (simp add: frame_header_be [OF n] decode_frame_def take_payload_def)
  next
    case 2
    then have "unat (be (be_bytes 2 (of_nat ?n :: u64)) :: u64) = ?n" by (intro unat_be_bytes) simp_all
    with 2 show ?thesis by (simp add: frame_header_be [OF n] decode_frame_def take_payload_def Let_def)
  next
    case 3
    have "unat (be (be_bytes 8 (of_nat ?n :: u64)) :: u64) = ?n" using n by (intro unat_be_bytes) simp_all
    with 3 assms show ?thesis by (simp add: frame_header_be [OF n] decode_frame_def take_payload_def Let_def)
  qed
qed

datatype message = Text string | Binary "u8 list"

fun frame_of :: "message \<Rightarrow> u8 list" where
  "frame_of (Text message) = text_frame message"
| "frame_of (Binary data) = binary_frame data"

fun content :: "message \<Rightarrow> u8 \<times> u8 list" where
  "content (Text message) = (0x81, map ch message)"
| "content (Binary data) = (0x82, data)"

lemma frame_of_content:
  "frame_of m = frame_header (fst (content m)) (length (snd (content m))) @ snd (content m)"
  by (cases m) (simp_all add: text_frame_def binary_frame_def)

lemma frame_not_Nil: "frame_header op n \<noteq> []"
  by (simp add: frame_header_def Let_def)

text \<open>
  C22. A client that receives the frames of any sequence of broadcasts back to back reads
  exactly the messages, text and binary, in order: the three forms of the length are written
  as RFC 6455 demands (payloads below \<open>2 ^ 63\<close> bytes, all a vector can hold).
\<close>
theorem ws_frames_roundtrip:
  assumes "\<forall>m\<in>set ms. length (snd (content m)) < 2 ^ 63"
  shows "decode_frames (length ms) (concat (map frame_of ms)) = Some (map content ms)"
  using assms
proof (induction ms)
  case (Cons m ms)
  then show ?case
    by (simp add: frame_of_content [of m] decode_frame_header frame_not_Nil)
qed simp

theorem ws_frames_roundtrip_witness:
  "decode_frames (Suc (Suc 0)) (concat (map frame_of [Text ''tick'', Binary (replicate 130 7)])) =
     Some [(0x81, map ch ''tick''), (0x82, replicate 130 7)]"
  using ws_frames_roundtrip [of "[Text ''tick'', Binary (replicate 130 7)]"]
  by (simp del: decode_frames.simps)

subsection \<open>The server\<close>

definition INVALID_SOCKET :: int where
  "INVALID_SOCKET = - 1"

record ws_client =
  cl_socket :: int
  cl_active :: bool

text \<open>Where the accept thread stands; \<open>Exited\<close> is a finished thread that is still joinable.\<close>

datatype acceptor = No_Thread | Loop_Test | In_Accept | Exited

text \<open>
  Where the thread that owns the server stands: outside the class, in \<open>stop\<close> before the join,
  or in the loop of a broadcast at client \<open>i\<close> of the \<open>n\<close> that the loop saw when it began.
\<close>

datatype owner = Idle | Stopping | Sending nat nat "u8 list"

text \<open>
  The members of the class, the two threads, and what the operating system sees: the open
  descriptors and the bytes sent. \<open>undef\<close> marks the data race on \<open>clients_\<close>, after which the
  program has no defined behaviour.
\<close>

record ws_server =
  server_socket :: int
  ws_port :: u16
  running :: bool
  accept_thread :: acceptor
  clients :: "ws_client list"
  owner :: owner
  open_fds :: "int set"
  sent :: "(int \<times> u8 list) list"
  undef :: bool

definition ws_new :: "u16 \<Rightarrow> ws_server" where
  "ws_new port =
     \<lparr>server_socket = INVALID_SOCKET, ws_port = port, running = False, accept_thread = No_Thread,
      clients = [], owner = Idle, open_fds = {}, sent = [], undef = False\<rparr>"

definition close_fd :: "int \<Rightarrow> ws_server \<Rightarrow> ws_server" where
  "close_fd fd s = s\<lparr>open_fds := open_fds s - {fd}\<rparr>"

definition open_fd :: "int \<Rightarrow> ws_server \<Rightarrow> ws_server" where
  "open_fd fd s = s\<lparr>open_fds := insert fd (open_fds s)\<rparr>"

definition close_server :: "ws_server \<Rightarrow> ws_server" where
  "close_server s = (close_fd (server_socket s) s)\<lparr>server_socket := INVALID_SOCKET\<rparr>"

text \<open>
  \<open>start\<close>, given what \<open>socket\<close>, \<open>bind\<close> and \<open>listen\<close> return; \<open>None\<close> is the call of
  \<open>std::terminate\<close> by the assignment to a joinable thread.
\<close>

definition ws_start :: "int \<Rightarrow> bool \<Rightarrow> bool \<Rightarrow> ws_server \<Rightarrow> ws_server option" where
  "ws_start fd bound listening s =
     (let s = s\<lparr>server_socket := fd\<rparr>
      in if fd = INVALID_SOCKET then Some s
         else
           let s = open_fd fd s
           in if \<not> bound then Some (close_server s)
              else if \<not> listening then Some (close_server s)
              else if accept_thread s \<noteq> No_Thread then None
              else Some (s\<lparr>running := True, accept_thread := Loop_Test\<rparr>))"

text \<open>\<open>stop\<close> up to the join of the accept thread, and after it.\<close>

definition stop_begin :: "ws_server \<Rightarrow> ws_server" where
  "stop_begin s =
     (let s = s\<lparr>running := False, owner := Stopping\<rparr>
      in if server_socket s \<noteq> INVALID_SOCKET then close_server s else s)"

definition stop_end :: "ws_server \<Rightarrow> ws_server" where
  "stop_end s =
     (fold (\<lambda>c s. if cl_socket c \<noteq> INVALID_SOCKET then close_fd (cl_socket c) s else s) (clients s) s)
       \<lparr>accept_thread := No_Thread, clients := [], owner := Idle\<rparr>"

text \<open>
  One turn of \<open>accept_loop\<close>: the test of \<open>running_\<close>, then the body with what \<open>accept\<close> and
  \<open>recv\<close> return. Appending to \<open>clients_\<close> while a broadcast walks over it is the race.
\<close>

definition loop_test :: "ws_server \<Rightarrow> ws_server" where
  "loop_test s = s\<lparr>accept_thread := (if running s then In_Accept else Exited)\<rparr>"

definition sending_now :: "ws_server \<Rightarrow> bool" where
  "sending_now s = (case owner s of Sending _ _ _ \<Rightarrow> True | _ \<Rightarrow> False)"

definition accept_body :: "int \<Rightarrow> string option \<Rightarrow> ws_server \<Rightarrow> ws_server" where
  "accept_body fd received s =
     (let s = s\<lparr>accept_thread := Loop_Test\<rparr>
      in if fd = INVALID_SOCKET then s
         else
           let s = open_fd fd s
           in case handle_handshake received of
                Some answer \<Rightarrow>
                  s\<lparr>sent := sent s @ [(fd, map ch answer)],
                    clients := clients s @ [\<lparr>cl_socket = fd, cl_active = True\<rparr>],
                    undef := undef s \<or> sending_now s\<rparr>
              | None \<Rightarrow> close_fd fd s)"

text \<open>\<open>broadcast\<close> and \<open>broadcast_binary\<close> after the frame is built: the loop over \<open>clients_\<close>.\<close>

definition broadcast_begin :: "u8 list \<Rightarrow> ws_server \<Rightarrow> ws_server" where
  "broadcast_begin frame s = s\<lparr>owner := Sending 0 (length (clients s)) frame\<rparr>"

definition broadcast_next :: "ws_server \<Rightarrow> ws_server" where
  "broadcast_next s =
     (case owner s of
        Sending i n frame \<Rightarrow>
          if i < n then
            let c = clients s ! i;
                s' = s\<lparr>owner := Sending (i + 1) n frame\<rparr>
            in if cl_active c \<and> cl_socket c \<noteq> INVALID_SOCKET
               then s'\<lparr>sent := sent s @ [(cl_socket c, frame)]\<rparr> else s'
          else s\<lparr>owner := Idle\<rparr>
      | _ \<Rightarrow> s)"

definition client_count :: "ws_server \<Rightarrow> nat" where
  "client_count s = length (filter cl_active (clients s))"

text \<open>
  The steps of the two threads. The owner starts the server only when it is not started; the
  system hands out descriptors that are not open.
\<close>

inductive ws_step :: "ws_server \<Rightarrow> ws_server \<Rightarrow> bool" where
  start: "\<lbrakk>\<not> undef s; owner s = Idle; accept_thread s = No_Thread; fd \<notin> open_fds s;
           ws_start fd bound listening s = Some t\<rbrakk> \<Longrightarrow> ws_step s t"
| stop: "\<lbrakk>\<not> undef s; owner s = Idle\<rbrakk> \<Longrightarrow> ws_step s (stop_begin s)"
| joined: "\<lbrakk>\<not> undef s; owner s = Stopping; accept_thread s = Exited \<or> accept_thread s = No_Thread\<rbrakk>
           \<Longrightarrow> ws_step s (stop_end s)"
| test: "\<lbrakk>\<not> undef s; accept_thread s = Loop_Test\<rbrakk> \<Longrightarrow> ws_step s (loop_test s)"
| accept: "\<lbrakk>\<not> undef s; accept_thread s = In_Accept; fd \<notin> open_fds s\<rbrakk>
           \<Longrightarrow> ws_step s (accept_body fd received s)"
| send_begin: "\<lbrakk>\<not> undef s; owner s = Idle\<rbrakk> \<Longrightarrow> ws_step s (broadcast_begin (frame_of m) s)"
| send_next: "\<lbrakk>\<not> undef s; owner s = Sending i n frame\<rbrakk> \<Longrightarrow> ws_step s (broadcast_next s)"

inductive ws_reachable :: "u16 \<Rightarrow> ws_server \<Rightarrow> bool" for port where
  init: "ws_reachable port (ws_new port)"
| step: "ws_reachable port s \<Longrightarrow> ws_step s t \<Longrightarrow> ws_reachable port t"

inductive_cases ws_step_cases: "ws_step s t"

subsection \<open>The invariant of the server\<close>

definition server_fds :: "ws_server \<Rightarrow> int set" where
  "server_fds s = (if server_socket s = INVALID_SOCKET then {} else {server_socket s})"

definition clients_ok :: "ws_server \<Rightarrow> bool" where
  "clients_ok s \<longleftrightarrow>
     list_all (\<lambda>c. cl_active c \<and> cl_socket c \<noteq> INVALID_SOCKET \<and> cl_socket c \<noteq> server_socket s) (clients s) \<and>
     distinct (map cl_socket (clients s)) \<and>
     open_fds s = server_fds s \<union> cl_socket ` set (clients s)"

definition threads_ok :: "ws_server \<Rightarrow> bool" where
  "threads_ok s \<longleftrightarrow>
     (case accept_thread s of
        No_Thread \<Rightarrow> clients s = [] \<and> \<not> running s \<and> server_socket s = INVALID_SOCKET
      | Exited \<Rightarrow> owner s = Stopping
      | _ \<Rightarrow> running s \<or> owner s = Stopping) \<and>
     (running s \<longrightarrow> server_socket s \<noteq> INVALID_SOCKET) \<and>
     (case owner s of
        Idle \<Rightarrow> True
      | Stopping \<Rightarrow> \<not> running s \<and> server_socket s = INVALID_SOCKET
      | Sending i n frame \<Rightarrow> i \<le> n \<and> n \<le> length (clients s) \<and> (undef s \<or> n = length (clients s)))"

definition ws_wf :: "ws_server \<Rightarrow> bool" where
  "ws_wf s \<longleftrightarrow> clients_ok s \<and> threads_ok s"

lemmas ws_wf_defs = ws_wf_def clients_ok_def threads_ok_def server_fds_def

lemma ws_wf_new: "ws_wf (ws_new port)"
  by (simp add: ws_wf_defs ws_new_def)

lemma wf_start [wf_intro]:
  assumes "ws_wf s" and "owner s = Idle" and "accept_thread s = No_Thread" and "fd \<notin> open_fds s"
    and "ws_start fd bound listening s = Some t"
  shows "ws_wf t"
  using assms
  by (auto simp: ws_wf_defs ws_start_def Let_def close_server_def close_fd_def open_fd_def split: if_splits)

lemma wf_stop_begin [wf_intro]:
  assumes "ws_wf s" and "owner s = Idle"
  shows "ws_wf (stop_begin s)"
  using assms
  by (auto simp: ws_wf_defs stop_begin_def Let_def close_server_def close_fd_def list_all_iff
      split: if_splits acceptor.splits)

lemma close_all:
  "fold (\<lambda>c s. if cl_socket c \<noteq> INVALID_SOCKET then close_fd (cl_socket c) s else s) cs s =
   s\<lparr>open_fds := open_fds s - (cl_socket ` set cs - {INVALID_SOCKET})\<rparr>"
  by (induction cs arbitrary: s) (auto simp: close_fd_def intro!: arg_cong [where f = "\<lambda>x. s\<lparr>open_fds := x\<rparr>" for s])

lemma stop_end_eq:
  "stop_end s = s\<lparr>open_fds := open_fds s - (cl_socket ` set (clients s) - {INVALID_SOCKET}),
     accept_thread := No_Thread, clients := [], owner := Idle\<rparr>"
  by (simp add: stop_end_def close_all)

lemma stop_end_closes:
  assumes "ws_wf s" and "owner s = Stopping"
  shows "open_fds (stop_end s) = {}"
  using assms by (auto simp: stop_end_eq ws_wf_defs list_all_iff)

lemma wf_stop_end [wf_intro]:
  assumes "ws_wf s" and "owner s = Stopping"
  shows "ws_wf (stop_end s)"
proof -
  have "open_fds (stop_end s) = {}" using assms by (rule stop_end_closes)
  then show ?thesis using assms by (auto simp: ws_wf_defs stop_end_eq)
qed

lemma wf_loop_test [wf_intro]:
  assumes "ws_wf s" and "accept_thread s = Loop_Test"
  shows "ws_wf (loop_test s)"
  using assms by (auto simp: ws_wf_defs loop_test_def split: owner.splits)

lemma accept_refused:
  assumes "fd = INVALID_SOCKET \<or> handle_handshake received = None" and "fd \<notin> open_fds s"
  shows "accept_body fd received s = s\<lparr>accept_thread := Loop_Test\<rparr>"
  using assms by (auto simp: accept_body_def Let_def open_fd_def close_fd_def)

lemma wf_accept_body [wf_intro]:
  assumes "ws_wf s" and "accept_thread s = In_Accept" and "fd \<notin> open_fds s"
  shows "ws_wf (accept_body fd received s)"
proof (cases "fd = INVALID_SOCKET \<or> handle_handshake received = None")
  case True
  then show ?thesis using assms
    by (auto simp: accept_refused ws_wf_defs split: owner.splits)
next
  case False
  then obtain answer where "fd \<noteq> INVALID_SOCKET" and "handle_handshake received = Some answer" by auto
  then show ?thesis using assms
    by (auto simp: ws_wf_defs accept_body_def Let_def open_fd_def list_all_iff sending_now_def
        split: owner.splits)
qed

lemma wf_broadcast [wf_intro]:
  "ws_wf s \<Longrightarrow> owner s = Idle \<Longrightarrow> ws_wf (broadcast_begin frame s)"
  "ws_wf s \<Longrightarrow> owner s = Sending i n frame \<Longrightarrow> ws_wf (broadcast_next s)"
  by (auto simp: ws_wf_defs broadcast_begin_def broadcast_next_def Let_def split: acceptor.splits)

lemma wf_step: "ws_step s t \<Longrightarrow> ws_wf s \<Longrightarrow> ws_wf t"
  by (erule ws_step_cases) (auto intro: wf_intro)

lemma reachable_wf: "ws_reachable port s \<Longrightarrow> ws_wf s"
  by (induction rule: ws_reachable.induct) (auto intro: ws_wf_new wf_step)

lemma wf_count: "ws_wf s \<Longrightarrow> client_count s = length (clients s)"
  by (simp add: ws_wf_defs client_count_def list_all_iff)

text \<open>Clients leave \<open>clients_\<close> only in \<open>stop\<close>.\<close>

lemma clients_grow:
  assumes "ws_step s t" and "owner s \<noteq> Stopping"
  shows "\<exists>new. clients t = clients s @ new \<and> length new \<le> 1"
  using assms
  by (cases rule: ws_step.cases)
    (auto simp: ws_start_def stop_begin_def loop_test_def accept_body_def broadcast_begin_def
       broadcast_next_def Let_def close_server_def close_fd_def open_fd_def
       split: if_splits option.splits owner.splits)


text \<open>A server on descriptor 3 that has accepted one client on descriptor 4.\<close>

definition sample_request :: string where
  "sample_request = key_header @ '' k'' @ crlf"

definition ws_started :: ws_server where
  "ws_started = loop_test ((open_fd 3 (ws_new 8080 \<lparr>server_socket := 3\<rparr>))
     \<lparr>running := True, accept_thread := Loop_Test\<rparr>)"

definition ws_one_client :: ws_server where
  "ws_one_client = accept_body 4 (Some sample_request) ws_started"

lemma sample_handshake: "handle_handshake (Some sample_request) = Some (response (generate_accept_key ''k''))"
proof -
  have "first_split key_header [] (request_of sample_request) (replicate 1 (CHR '' '') @ ''k'' @ crlf)"
    by (simp add: first_split_Nil request_of_def sample_request_def key_header_def crlf_def)
  moreover have "find_at crlf (''k'' @ crlf) 0 = Some 1"
    by (simp add: find_at.simps crlf_def)
  moreover have "take 1 (''k'' @ crlf) \<noteq> '' ''" by simp
  ultimately show ?thesis using handshake_eval [of "[]" sample_request 1 "''k'' @ crlf"] by simp
qed

lemma ws_started_reachable: "ws_reachable 8080 ws_started"
proof -
  let ?s = "(open_fd 3 (ws_new 8080 \<lparr>server_socket := 3\<rparr>))\<lparr>running := True, accept_thread := Loop_Test\<rparr>"
  have "ws_start 3 True True (ws_new 8080) = Some ?s"
    by (simp add: ws_start_def ws_new_def open_fd_def INVALID_SOCKET_def)
  then have "ws_step (ws_new 8080) ?s"
    by (intro ws_step.start) (simp_all add: ws_new_def)
  then have "ws_reachable 8080 ?s" by (rule ws_reachable.step [OF ws_reachable.init])
  moreover have "ws_step ?s (loop_test ?s)"
    by (rule ws_step.test) (simp_all add: ws_new_def open_fd_def)
  ultimately show ?thesis unfolding ws_started_def by (rule ws_reachable.step)
qed

lemmas ws_started_simps = ws_started_def loop_test_def open_fd_def ws_new_def INVALID_SOCKET_def

lemma ws_one_client_eq:
  "ws_one_client = ws_started
     \<lparr>accept_thread := Loop_Test, open_fds := {3, 4},
      sent := [(4, map ch (response (generate_accept_key ''k'')))],
      clients := [\<lparr>cl_socket = 4, cl_active = True\<rparr>], undef := False\<rparr>"
  by (auto simp: ws_one_client_def accept_body_def sample_handshake Let_def sending_now_def ws_started_simps)

lemma ws_one_client_reachable: "ws_reachable 8080 ws_one_client"
  unfolding ws_one_client_def
  by (rule ws_reachable.step [OF ws_started_reachable], rule ws_step.accept) (simp_all add: ws_started_simps)






text \<open>
  A second \<open>start\<close> while the server runs: when its \<open>bind\<close> fails, the descriptor of the
  listening socket is overwritten and stays open without an owner.
\<close>

lemma restart_leaks:
  "\<exists>s. ws_start 5 False False ws_started = Some s \<and> 3 \<in> open_fds s \<and> 3 \<notin> server_fds s \<and> clients s = []"
  by (simp add: ws_start_def close_server_def close_fd_def server_fds_def ws_started_simps)

end
