(* ===== verification/Strategy.thy ===== *)
theory Strategy
  imports Order_Book
begin

text \<open>
  \<open>include/strategy.hpp\<close> and \<open>src/strategy.cpp\<close>: the trading strategy, which turns book
  snapshots into order signals and keeps a position per symbol. A signal is what the callback
  is called with. \<open>int64_t += uint64_t\<close> is addition modulo \<open>2 ^ 64\<close>. The decimal constants are
  the nearest doubles.
\<close>

record position =
  pos_quantity :: i64
  avg_price :: double

record order_signal =
  sg_symbol :: string
  sg_price :: double
  sg_size :: u64
  sg_buy :: bool

record strategy =
  signal_callback :: bool
  spread_threshold :: double
  imbalance_threshold :: double
  positions :: "(string, position) omap"

definition strategy_new :: strategy where
  "strategy_new =
     \<lparr>signal_callback = False, spread_threshold = fl (1 / 100), imbalance_threshold = fl (3 / 10),
      positions = []\<rparr>"

definition set_signal_callback :: "strategy \<Rightarrow> strategy" where
  "set_signal_callback s = s\<lparr>signal_callback := True\<rparr>"

definition set_spread_threshold :: "double \<Rightarrow> strategy \<Rightarrow> strategy" where
  "set_spread_threshold t s = s\<lparr>spread_threshold := t\<rparr>"

definition set_imbalance_threshold :: "double \<Rightarrow> strategy \<Rightarrow> strategy" where
  "set_imbalance_threshold t s = s\<lparr>imbalance_threshold := t\<rparr>"

text \<open>\<open>positions_[symbol]\<close>: a missing entry is value-initialised.\<close>

definition position_of :: "string \<Rightarrow> strategy \<Rightarrow> position" where
  "position_of name s =
     (case om_find string_before name (positions s) of
        None \<Rightarrow> \<lparr>pos_quantity = 0, avg_price = 0\<rparr>
      | Some p \<Rightarrow> p)"

text \<open>The update of the position at the end of \<open>on_quote_update\<close>.\<close>

definition fill :: "double \<Rightarrow> u64 \<Rightarrow> bool \<Rightarrow> position \<Rightarrow> position" where
  "fill px qty buy pos =
     (if buy then
        let total_cost = fl (fl (avg_price pos * of_i64 (pos_quantity pos)) + fl (px * of_u64 qty));
            pos' = pos\<lparr>pos_quantity := pos_quantity pos + qty\<rparr>
        in if 0 <s pos_quantity pos'
           then pos'\<lparr>avg_price := fl (total_cost / of_i64 (pos_quantity pos'))\<rparr> else pos'
      else
        let pos' = pos\<lparr>pos_quantity := pos_quantity pos - qty\<rparr>
        in if pos_quantity pos' = 0 then pos'\<lparr>avg_price := 0\<rparr> else pos')"

definition on_quote_update ::
  "book_snapshot \<Rightarrow> strategy \<Rightarrow> order_signal option \<times> strategy" where
  "on_quote_update snap s =
     (if snap_best_bid snap = 0 \<or> snap_best_ask snap = 0 then (None, s)
      else if snap_spread snap < spread_threshold s then (None, s)
      else if imbalance_threshold s < \<bar>snap_imbalance snap\<bar> then
        let buy = 0 < snap_imbalance snap;
            px = fl (of_i64 (if buy then snap_best_ask snap else snap_best_bid snap) / 10000);
            qty = min (if buy then snap_best_ask_size snap else snap_best_bid_size snap) 100;
            sig = (if signal_callback s
                   then Some \<lparr>sg_symbol = snap_symbol snap, sg_price = px, sg_size = qty, sg_buy = buy\<rparr>
                   else None);
            pos = fill px qty buy (position_of (snap_symbol snap) s)
        in (sig, s\<lparr>positions := om_put string_before (snap_symbol snap) pos (positions s)\<rparr>)
      else (None, s))"

text \<open>\<open>on_trade\<close> discards its arguments.\<close>

definition on_trade :: "string \<Rightarrow> i64 \<Rightarrow> u64 \<Rightarrow> strategy \<Rightarrow> strategy" where
  "on_trade name px qty s = s"

subsection \<open>A run of the strategy\<close>

fun strategy_run :: "book_snapshot list \<Rightarrow> strategy \<Rightarrow> order_signal list \<times> strategy" where
  "strategy_run [] s = ([], s)"
| "strategy_run (snap # snaps) s =
     (case on_quote_update snap s of (sig, s1) \<Rightarrow>
        (case strategy_run snaps s1 of (sigs, s2) \<Rightarrow>
           ((case sig of None \<Rightarrow> sigs | Some x \<Rightarrow> x # sigs), s2)))"

definition configured :: "double \<Rightarrow> double \<Rightarrow> strategy" where
  "configured ts ti =
     set_signal_callback (set_imbalance_threshold ti (set_spread_threshold ts strategy_new))"

text \<open>
  The specification: which snapshots make a signal, and which, given the two thresholds; the
  signed size of a signal; the net size over a list of signals.
\<close>

definition tradable :: "double \<Rightarrow> double \<Rightarrow> book_snapshot \<Rightarrow> bool" where
  "tradable ts ti snap \<longleftrightarrow>
     snap_best_bid snap \<noteq> 0 \<and> snap_best_ask snap \<noteq> 0 \<and> ts \<le> snap_spread snap \<and>
     (ti < snap_imbalance snap \<or> snap_imbalance snap < - ti)"

definition signal_of :: "book_snapshot \<Rightarrow> order_signal" where
  "signal_of snap =
     (if 0 < snap_imbalance snap
      then \<lparr>sg_symbol = snap_symbol snap, sg_price = fl (of_i64 (snap_best_ask snap) / 10000),
            sg_size = min (snap_best_ask_size snap) 100, sg_buy = True\<rparr>
      else \<lparr>sg_symbol = snap_symbol snap, sg_price = fl (of_i64 (snap_best_bid snap) / 10000),
            sg_size = min (snap_best_bid_size snap) 100, sg_buy = False\<rparr>)"

definition signed_size :: "order_signal \<Rightarrow> i64" where
  "signed_size x = (if sg_buy x then sg_size x else - sg_size x)"

definition net_size :: "string \<Rightarrow> order_signal list \<Rightarrow> i64" where
  "net_size name sigs = sum_list (map signed_size (filter (\<lambda>x. sg_symbol x = name) sigs))"

lemma fill_quantity:
  "pos_quantity (fill px qty buy pos) = pos_quantity pos + (if buy then qty else - qty)"
  by (simp add: fill_def Let_def)

lemma quote_update_signal:
  assumes "signal_callback s"
  shows "fst (on_quote_update snap s) =
    (if tradable (spread_threshold s) (imbalance_threshold s) snap then Some (signal_of snap) else None)"
  using assms by (auto simp: on_quote_update_def tradable_def signal_of_def Let_def)

lemma quote_update_frame:
  "signal_callback (snd (on_quote_update snap s)) = signal_callback s"
  "spread_threshold (snd (on_quote_update snap s)) = spread_threshold s"
  "imbalance_threshold (snd (on_quote_update snap s)) = imbalance_threshold s"
  "om_wf string_before (positions s) \<Longrightarrow> om_wf string_before (positions (snd (on_quote_update snap s)))"
  by (simp_all add: on_quote_update_def Let_def string_map.om_wf_put)

lemma quote_update_position:
  assumes "om_wf string_before (positions s)"
  shows "pos_quantity (position_of name (snd (on_quote_update snap s))) =
    pos_quantity (position_of name s) +
    (if tradable (spread_threshold s) (imbalance_threshold s) snap
     then net_size name [signal_of snap] else 0)"
  using assms
  by (auto simp: on_quote_update_def tradable_def signal_of_def Let_def position_of_def fill_quantity
      net_size_def signed_size_def string_map.om_find_put split: option.splits)

lemma strategy_run_spec:
  assumes "signal_callback s" and "om_wf string_before (positions s)"
  shows "fst (strategy_run snaps s) =
      map signal_of (filter (tradable (spread_threshold s) (imbalance_threshold s)) snaps) \<and>
    pos_quantity (position_of name (snd (strategy_run snaps s))) =
      pos_quantity (position_of name s) + net_size name (fst (strategy_run snaps s))"
  using assms
proof (induction snaps arbitrary: s)
  case Nil
  show ?case by (simp add: net_size_def)
next
  case (Cons snap snaps)
  obtain sig s1 where u: "on_quote_update snap s = (sig, s1)" by force
  obtain sigs s2 where r: "strategy_run snaps s1 = (sigs, s2)" by force
  have s1: "signal_callback s1 = signal_callback s" "spread_threshold s1 = spread_threshold s"
    "imbalance_threshold s1 = imbalance_threshold s" "om_wf string_before (positions s1)"
    using quote_update_frame(1-3) [of snap s] quote_update_frame(4) [of s snap] Cons.prems
    by (simp_all add: u)
  with Cons.IH [of s1] Cons.prems quote_update_signal [of s snap] quote_update_position [of s name snap]
  show ?case by (simp add: u r net_size_def ac_simps)
qed

text \<open>
  C28. Over any sequence of snapshots a configured strategy calls its callback exactly for the
  tradable ones (both sides quoted, spread at least the threshold, imbalance beyond the
  threshold), in order, for at most 100 shares each; the position it books for every symbol
  is the net of the signed sizes of that symbol's signals.
\<close>
theorem strategy_positions_are_signals:
  "fst (strategy_run snaps (configured ts ti)) = map signal_of (filter (tradable ts ti) snaps) \<and>
   list_all (\<lambda>x. sg_size x \<le> 100) (fst (strategy_run snaps (configured ts ti))) \<and>
   pos_quantity (position_of name (snd (strategy_run snaps (configured ts ti)))) =
     net_size name (fst (strategy_run snaps (configured ts ti)))"
proof -
  let ?s = "configured ts ti"
  have c: "signal_callback ?s" "positions ?s = []" "spread_threshold ?s = ts" "imbalance_threshold ?s = ti"
    by (simp_all add: configured_def set_signal_callback_def set_imbalance_threshold_def
        set_spread_threshold_def strategy_new_def)
  have "om_wf string_before (positions ?s)" by (simp add: c)
  then have "fst (strategy_run snaps ?s) = map signal_of (filter (tradable ts ti) snaps) \<and>
      pos_quantity (position_of name (snd (strategy_run snaps ?s))) =
        pos_quantity (position_of name ?s) + net_size name (fst (strategy_run snaps ?s))"
    using strategy_run_spec [of ?s snaps name] c by simp
  moreover have "pos_quantity (position_of name ?s) = 0" by (simp add: position_of_def c)
  moreover have "sg_size (signal_of snap) \<le> 100" for snap by (simp add: signal_of_def)
  ultimately show ?thesis by (simp add: list_all_iff)
qed

text \<open>
  The average price is wrong after a short position is covered: selling 50 and buying 100
  shares, all at 20, leaves 50 shares at an average of 40, because the shares that only
  cover the short are paid for by the remaining ones.
\<close>

lemma short_cover_average:
  "fill 20 100 True (fill 20 50 False \<lparr>pos_quantity = 0, avg_price = 0\<rparr>) =
   \<lparr>pos_quantity = 50, avg_price = 40\<rparr>"
proof -
  have i: "fl 2000 = 2000" "fl 100 = 100" "fl 50 = 50" "fl 40 = 40"
    using fl_of_int [of 2000] fl_of_int [of 100] fl_of_int [of 50] fl_of_int [of 40] by simp_all
  have "of_i64 50 = 50" and "of_u64 100 = 100" by (simp_all add: of_i64_def of_u64_def i)
  then show ?thesis by (simp add: fill_def Let_def word_sless_alt i)
qed

end
