(* ===== verification/Latency.thy ===== *)
theory Latency
  imports Binary64 "HOL-Library.Multiset"
begin

text \<open>
  The three collectors of latencies and the clock conversions: \<open>perf::LatencyHistogram\<close>
  (\<open>include/latency_tracker.hpp\<close>, 1024 buckets of one cycle), \<open>marketdata::LatencyHistogram\<close>
  (\<open>include/latency_histogram.hpp\<close>, all samples, sorted in place), \<open>LatencyStats\<close>
  (\<open>src/benchmark.cpp\<close>, all samples, sorted in a copy) and \<open>Timer\<close> (\<open>include/timer.hpp\<close>). The
  time stamp counter and the sleep are outside: their readings are arguments.
\<close>

text \<open>\<open>static_cast<uint64_t>\<close> of a \<open>double\<close> truncates; out of range it is undefined (\<open>None\<close>).\<close>

definition to_u64 :: "double \<Rightarrow> u64 option" where
  "to_u64 x =
     (if - 1 < x \<and> x < 2 ^ 64 then Some (if x < 0 then 0 else of_int \<lfloor>x\<rfloor>) else None)"

subsection \<open>The bucket histogram\<close>

definition NUM_BUCKETS :: nat where
  "NUM_BUCKETS = 1024"

record lat_hist =
  buckets :: "u64 list"
  lh_count :: u64
  lh_min :: u64
  lh_max :: u64
  lh_sum :: u64

definition lh_new :: lat_hist where
  "lh_new =
     \<lparr>buckets = replicate NUM_BUCKETS 0, lh_count = 0, lh_min = - 1, lh_max = 0, lh_sum = 0\<rparr>"

definition bucket_of :: "u64 \<Rightarrow> nat" where
  "bucket_of cycles = (if cycles < of_nat NUM_BUCKETS then unat cycles else NUM_BUCKETS - 1)"

definition lh_record :: "u64 \<Rightarrow> lat_hist \<Rightarrow> lat_hist" where
  "lh_record cycles h =
     h\<lparr>lh_count := lh_count h + 1, lh_sum := lh_sum h + cycles,
       lh_min := (if cycles < lh_min h then cycles else lh_min h),
       lh_max := (if lh_max h < cycles then cycles else lh_max h),
       buckets := (buckets h)[bucket_of cycles := buckets h ! bucket_of cycles + 1]\<rparr>"

definition lh_average :: "lat_hist \<Rightarrow> double" where
  "lh_average h = (if 0 < lh_count h then fl (of_u64 (lh_sum h) / of_u64 (lh_count h)) else 0)"

text \<open>The loop of \<open>percentile\<close>: the first bucket at which the count reaches the target.\<close>

fun pct_loop :: "u64 list \<Rightarrow> nat \<Rightarrow> u64 \<Rightarrow> u64 \<Rightarrow> nat" where
  "pct_loop [] i accumulated target = NUM_BUCKETS - 1"
| "pct_loop (b # bs) i accumulated target =
     (if target \<le> accumulated + b then i else pct_loop bs (i + 1) (accumulated + b) target)"

definition lh_percentile :: "double \<Rightarrow> lat_hist \<Rightarrow> nat option" where
  "lh_percentile p h =
     (if lh_count h = 0 then Some 0
      else case to_u64 (fl (of_u64 (lh_count h) * p)) of
             None \<Rightarrow> None
           | Some target \<Rightarrow> Some (pct_loop (buckets h) 0 0 target))"

definition lh_reset :: "lat_hist \<Rightarrow> lat_hist" where
  "lh_reset h =
     h\<lparr>lh_count := 0, lh_min := - 1, lh_max := 0, lh_sum := 0, buckets := replicate NUM_BUCKETS 0\<rparr>"

definition cycles_to_ns :: "u64 \<Rightarrow> double \<Rightarrow> double" where
  "cycles_to_ns cycles ghz = fl (of_u64 cycles / ghz)"

definition cycles_to_us :: "u64 \<Rightarrow> double \<Rightarrow> double" where
  "cycles_to_us cycles ghz = fl (of_u64 cycles / fl (ghz * 1000))"

subsection \<open>The sample histogram\<close>

definition smallest :: "'a::linorder list \<Rightarrow> 'a" where
  "smallest xs = fold min (tl xs) (hd xs)"

definition largest :: "'a::linorder list \<Rightarrow> 'a" where
  "largest xs = fold max (tl xs) (hd xs)"

type_synonym md_hist = "double list"

definition md_record :: "double \<Rightarrow> md_hist \<Rightarrow> md_hist" where
  "md_record x h = h @ [x]"

definition md_clear :: "md_hist \<Rightarrow> md_hist" where
  "md_clear h = []"

definition md_count :: "md_hist \<Rightarrow> nat" where
  "md_count h = length h"

definition md_min :: "md_hist \<Rightarrow> double" where
  "md_min h = (if h = [] then 0 else smallest h)"

definition md_max :: "md_hist \<Rightarrow> double" where
  "md_max h = (if h = [] then 0 else largest h)"

definition md_mean :: "md_hist \<Rightarrow> double" where
  "md_mean h =
     (if h = [] then 0 else fl (fold (\<lambda>s total. fl (total + s)) h 0 / of_u64 (of_nat (length h))))"

text \<open>
  \<open>percentile\<close> sorts \<open>samples_\<close> itself; the read is undefined (\<open>None\<close>) outside of it.
\<close>

definition md_percentile :: "double \<Rightarrow> md_hist \<Rightarrow> double option \<times> md_hist" where
  "md_percentile p h =
     (if h = [] then (Some 0, h)
      else
        let samples = sort h
        in (case to_u64 (fl (fl (p / 100) * of_u64 (of_nat (length samples - 1)))) of
              None \<Rightarrow> None
            | Some idx \<Rightarrow> if unat idx < length samples then Some (samples ! unat idx) else None,
            samples))"

definition p50 :: "md_hist \<Rightarrow> double option \<times> md_hist" where "p50 h = md_percentile 50 h"
definition p90 :: "md_hist \<Rightarrow> double option \<times> md_hist" where "p90 h = md_percentile 90 h"
definition p99 :: "md_hist \<Rightarrow> double option \<times> md_hist" where "p99 h = md_percentile 99 h"
definition p999 :: "md_hist \<Rightarrow> double option \<times> md_hist" where "p999 h = md_percentile (fl (999 / 10)) h"

subsection \<open>The statistics of the benchmark\<close>

record lat_stats =
  ls_min :: u64
  ls_max :: u64
  ls_sum :: u64
  ls_count :: u64
  ls_samples :: "u64 list"

definition ls_new :: lat_stats where
  "ls_new = \<lparr>ls_min = - 1, ls_max = 0, ls_sum = 0, ls_count = 0, ls_samples = []\<rparr>"

definition ls_record :: "u64 \<Rightarrow> lat_stats \<Rightarrow> lat_stats" where
  "ls_record latency s =
     s\<lparr>ls_min := min (ls_min s) latency, ls_max := max (ls_max s) latency,
       ls_sum := ls_sum s + latency, ls_count := ls_count s + 1,
       ls_samples := ls_samples s @ [latency]\<rparr>"

definition ls_average :: "lat_stats \<Rightarrow> double" where
  "ls_average s = (if 0 < ls_count s then fl (of_u64 (ls_sum s) / of_u64 (ls_count s)) else 0)"

definition ls_percentile :: "double \<Rightarrow> lat_stats \<Rightarrow> u64 option" where
  "ls_percentile p s =
     (if ls_samples s = [] then Some 0
      else
        let sorted = sort (ls_samples s)
        in case to_u64 (fl (p * of_u64 (of_nat (length sorted)))) of
             None \<Rightarrow> None
           | Some i \<Rightarrow>
               let idx = (if length sorted \<le> unat i then length sorted - 1 else unat i)
               in Some (sorted ! idx))"

subsection \<open>The timer\<close>

record timer =
  freq_mhz :: double

definition timer_new :: timer where
  "timer_new = \<lparr>freq_mhz = 0\<rparr>"

text \<open>
  The POSIX branch: the counter is read around a sleep of 100 ms. Dividing by the frequency
  zero of a timer that was never calibrated gives no number (\<open>None\<close>).
\<close>

definition calibrate :: "u64 \<Rightarrow> u64 \<Rightarrow> timer \<Rightarrow> timer" where
  "calibrate tsc_start tsc_end t = t\<lparr>freq_mhz := fl (of_u64 (tsc_end - tsc_start) / 100000)\<rparr>"

definition timer_cycles_to_ns :: "u64 \<Rightarrow> timer \<Rightarrow> double option" where
  "timer_cycles_to_ns cycles t =
     (if freq_mhz t = 0 then None else Some (fl (fl (of_u64 cycles / freq_mhz t) * 1000)))"

definition get_freq_mhz :: "timer \<Rightarrow> double" where
  "get_freq_mhz t = freq_mhz t"

subsection \<open>Quantiles\<close>

text \<open>
  What the three percentile functions have in common: a rank into the sorted samples, inside
  the list and monotone in the fraction \<open>p\<close>, for as many samples as a double counts exactly.
\<close>

locale quantile =
  fixes rank :: "nat \<Rightarrow> rat \<Rightarrow> nat"
  assumes rank_less: "0 < n \<Longrightarrow> n \<le> 2 ^ 53 \<Longrightarrow> 0 \<le> p \<Longrightarrow> p \<le> 1 \<Longrightarrow> rank n p < n"
    and rank_mono: "p \<le> q \<Longrightarrow> rank n p \<le> rank n q"
begin

lemma quantile_mem:
  assumes "xs \<noteq> []" and "length xs \<le> 2 ^ 53" and "0 \<le> p" and "p \<le> 1"
  shows "sort xs ! rank (length xs) p \<in> set xs"
proof -
  have "rank (length xs) p < length (sort xs)" using assms by (simp add: rank_less)
  then have "sort xs ! rank (length xs) p \<in> set (sort xs)" by (rule nth_mem)
  then show ?thesis by simp
qed

lemma quantile_mono:
  assumes "xs \<noteq> []" and "length xs \<le> 2 ^ 53" and "0 \<le> p" and "p \<le> q" and "q \<le> 1"
  shows "sort xs ! rank (length xs) p \<le> sort xs ! rank (length xs) q"
proof (rule sorted_nth_mono)
  show "rank (length xs) p \<le> rank (length xs) q" using assms(4) by (rule rank_mono)
  show "rank (length xs) q < length (sort xs)" using assms by (simp add: rank_less)
qed simp

end

text \<open>Counts up to \<open>2 ^ 53\<close> are exact, and a fraction of them truncates below them.\<close>

lemma of_u64_nat: "n \<le> 2 ^ 53 \<Longrightarrow> of_u64 (of_nat n) = of_nat n"
  using fl_of_int [of "int n"] by (simp add: of_u64_def unsigned_of_nat take_bit_nat_eq_self)

lemma fraction_bounds:
  assumes "n \<le> 2 ^ 53" and "0 \<le> p" and "p \<le> 1"
  shows "0 \<le> fl (of_nat n * p)" and "fl (of_nat n * p) \<le> of_nat n"
proof -
  show "0 \<le> fl (of_nat n * p)" using assms by (intro fl_nonneg) simp
  have "of_nat n * p \<le> of_nat n * 1" using assms by (intro mult_left_mono) simp_all
  then have "fl (of_nat n * p) \<le> fl (of_nat n)" using fl_mono by simp
  also have "\<dots> = of_nat n" using fl_of_int [of "int n"] assms(1) by simp
  finally show "fl (of_nat n * p) \<le> of_nat n" .
qed

lemma to_u64_small:
  assumes "0 \<le> x" and "x \<le> of_nat n" and "n \<le> 2 ^ 53"
  shows "\<exists>w. to_u64 x = Some w \<and> unat w = nat \<lfloor>x\<rfloor> \<and> w = of_nat (nat \<lfloor>x\<rfloor>)" and "nat \<lfloor>x\<rfloor> \<le> n"
proof -
  have n: "(of_nat n :: rat) \<le> 2 ^ 53" using assms(3) by (metis of_nat_le_iff of_nat_numeral of_nat_power)
  show "nat \<lfloor>x\<rfloor> \<le> n" using assms floor_mono [of x "of_nat n"] by simp
  then have "nat \<lfloor>x\<rfloor> < 2 ^ LENGTH(64)" using assms(3) by simp
  then have "unat (of_nat (nat \<lfloor>x\<rfloor>) :: u64) = nat \<lfloor>x\<rfloor>" by (rule unat_of_nat_small)
  moreover have "of_int \<lfloor>x\<rfloor> = (of_nat (nat \<lfloor>x\<rfloor>) :: u64)" using assms(1) by simp
  then have "to_u64 x = Some (of_nat (nat \<lfloor>x\<rfloor>))"
    using assms n unfolding to_u64_def by (simp del: of_nat_nat)
  ultimately show "\<exists>w. to_u64 x = Some w \<and> unat w = nat \<lfloor>x\<rfloor> \<and> w = of_nat (nat \<lfloor>x\<rfloor>)"
    by blast
qed

definition floor_rank :: "nat \<Rightarrow> rat \<Rightarrow> nat" where
  "floor_rank n p = nat \<lfloor>fl (of_nat n * p)\<rfloor>"

definition ls_rank :: "nat \<Rightarrow> rat \<Rightarrow> nat" where
  "ls_rank n p = min (floor_rank n p) (n - 1)"

definition md_rank :: "nat \<Rightarrow> rat \<Rightarrow> nat" where
  "md_rank n p = floor_rank (n - 1) (fl p)"

definition lh_rank :: "nat \<Rightarrow> rat \<Rightarrow> nat" where
  "lh_rank n p = floor_rank n p - 1"

lemma floor_rank_mono: "p \<le> q \<Longrightarrow> floor_rank n p \<le> floor_rank n q"
  unfolding floor_rank_def by (intro nat_mono floor_mono fl_mono mult_left_mono) simp_all

lemma floor_rank_le: "n \<le> 2 ^ 53 \<Longrightarrow> 0 \<le> p \<Longrightarrow> p \<le> 1 \<Longrightarrow> floor_rank n p \<le> n"
  unfolding floor_rank_def using fraction_bounds to_u64_small(2) by blast

lemma fl_unit: "0 \<le> p \<Longrightarrow> p \<le> 1 \<Longrightarrow> 0 \<le> fl p \<and> fl p \<le> 1"
  using fl_nonneg [of p] fl_mono [of p 1] fl_of_int [of 1] by simp

interpretation ls: quantile ls_rank
  by unfold_locales (auto simp: ls_rank_def intro: floor_rank_mono min.coboundedI1)

interpretation md: quantile md_rank
proof
  show "md_rank n p < n" if "0 < n" "n \<le> 2 ^ 53" "0 \<le> p" "p \<le> 1" for n p
  proof -
    have "floor_rank (n - 1) (fl p) \<le> n - 1"
      using that fl_unit [of p] by (intro floor_rank_le) auto
    then show ?thesis using that by (simp add: md_rank_def)
  qed
qed (simp add: md_rank_def floor_rank_mono fl_mono)

interpretation lh: quantile lh_rank
proof
  show "lh_rank n p < n" if "0 < n" "n \<le> 2 ^ 53" "0 \<le> p" "p \<le> 1" for n p
    using that floor_rank_le [of n p] by (simp add: lh_rank_def)
qed (simp add: lh_rank_def floor_rank_mono diff_le_mono)

text \<open>The percentile functions read the sorted samples at their rank.\<close>

lemma ls_percentile_rank:
  assumes "ls_samples s \<noteq> []" and "length (ls_samples s) \<le> 2 ^ 53" and "0 \<le> p" and "p \<le> 1"
  shows "ls_percentile p s = Some (sort (ls_samples s) ! ls_rank (length (ls_samples s)) p)"
proof -
  let ?n = "length (ls_samples s)"
  obtain w where "to_u64 (fl (of_nat ?n * p)) = Some w" and "unat w = floor_rank ?n p"
    using to_u64_small(1) fraction_bounds assms unfolding floor_rank_def by blast
  moreover have "ls_rank ?n p = (if ?n \<le> floor_rank ?n p then ?n - 1 else floor_rank ?n p)"
    using assms(1) unfolding ls_rank_def min_def by (cases "ls_samples s") auto
  ultimately show ?thesis
    using assms by (simp add: ls_percentile_def Let_def of_u64_nat mult.commute)
qed

lemma md_percentile_rank:
  assumes "h \<noteq> []" and "length h \<le> 2 ^ 53" and "0 \<le> p" and "p \<le> 100"
  shows "md_percentile p h = (Some (sort h ! md_rank (length h) (p / 100)), sort h)"
proof -
  define n where "n = length h - 1"
  let ?f = "fl (p / 100)"
  have f: "0 \<le> ?f" "?f \<le> 1" using fl_unit [of "p / 100"] assms by auto
  have n: "n \<le> 2 ^ 53" using assms by (simp add: n_def)
  obtain w where w: "to_u64 (fl (of_nat n * ?f)) = Some w" "unat w = floor_rank n ?f"
    using to_u64_small(1) fraction_bounds [OF n f] n unfolding floor_rank_def by blast
  have "floor_rank n ?f < length h"
    using floor_rank_le [OF n f] assms(1) by (cases h) (auto simp: n_def)
  then show ?thesis
    using assms(1) w
    unfolding md_percentile_def Let_def length_sort n_def [symmetric] of_u64_nat [OF n] md_rank_def
    by (simp add: mult.commute)
qed

subsection \<open>The buckets count the samples\<close>

definition lh_run :: "u64 list \<Rightarrow> lat_hist" where
  "lh_run xs = fold lh_record xs lh_new"

lemma bucket_of_less: "bucket_of x < NUM_BUCKETS"
  by (auto simp: bucket_of_def NUM_BUCKETS_def word_less_nat_alt)

lemma lh_run_snoc: "lh_run (xs @ [x]) = lh_record x (lh_run xs)"
  by (simp add: lh_run_def)

lemma lh_run_buckets:
  "buckets (lh_run xs) = map (\<lambda>i. of_nat (count_list (map bucket_of xs) i)) [0..<NUM_BUCKETS]"
proof (induction xs rule: rev_induct)
  case (snoc x xs)
  show ?case
    using bucket_of_less [of x]
    by (intro nth_equalityI)
      (auto simp: lh_run_snoc lh_record_def snoc nth_list_update count_list_append)
qed (simp add: lh_run_def lh_new_def map_replicate_const)

lemma min_if: "min x m = (if x < m then x else m)" and max_if: "max x m = (if m < x then x else m)"
  for x :: "'a::linorder"
  by (auto simp: min_def max_def)

lemma lh_run_totals:
  "lh_count (lh_run xs) = of_nat (length xs)" "lh_sum (lh_run xs) = sum_list xs"
  "lh_min (lh_run xs) = Min (insert (- 1) (set xs))" "lh_max (lh_run xs) = Max (insert 0 (set xs))"
proof (induction xs rule: rev_induct)
  case (snoc x xs)
  { case 1 show ?case using snoc(1) by (simp add: lh_run_snoc lh_record_def) }
  { case 2 show ?case using snoc(2) by (simp add: lh_run_snoc lh_record_def) }
  { case 3
    have "insert (- 1) (set (xs @ [x])) = insert x (insert (- 1) (set xs))" by auto
    moreover have "Min (insert x (insert (- 1) (set xs))) = min x (Min (insert (- 1) (set xs)))"
      by (rule Min_insert) auto
    ultimately have "Min (insert (- 1) (set (xs @ [x]))) = (if x < lh_min (lh_run xs) then x else lh_min (lh_run xs))"
      unfolding snoc(3) by (simp only: min_if)
    then show ?case by (simp add: lh_run_snoc lh_record_def) }
  { case 4
    have "insert 0 (set (xs @ [x])) = insert x (insert 0 (set xs))" by auto
    moreover have "Max (insert x (insert 0 (set xs))) = max x (Max (insert 0 (set xs)))"
      by (rule Max_insert) auto
    ultimately have "Max (insert 0 (set (xs @ [x]))) = (if lh_max (lh_run xs) < x then x else lh_max (lh_run xs))"
      unfolding snoc(4) by (simp only: max_if)
    then show ?case by (simp add: lh_run_snoc lh_record_def) }
qed (simp_all add: lh_run_def lh_new_def)

text \<open>The number of samples below bucket \<open>n\<close>; the loop finds where it crosses the target.\<close>

definition below :: "nat list \<Rightarrow> nat \<Rightarrow> nat" where
  "below ys n = length (filter (\<lambda>y. y < n) ys)"

lemma below_Suc: "below ys (Suc n) = below ys n + count_list ys n"
  by (induction ys) (auto simp: below_def less_Suc_eq)

lemma below_le: "below ys n \<le> length ys"
  by (simp add: below_def)

lemma pct_loop_finds:
  assumes "length ys < 2 ^ 64" and "k \<le> below ys (i + m)" and "0 < m" and "i = 0 \<or> below ys i < k"
  shows "let r = pct_loop (map (\<lambda>j. of_nat (count_list ys j)) [i..<i + m]) i (of_nat (below ys i)) (of_nat k)
    in k \<le> below ys (Suc r) \<and> (r = 0 \<or> below ys r < k) \<and> r < i + m"
  using assms(2-4)
proof (induction m arbitrary: i)
  case (Suc m)
  have u: "map f [i..<i + Suc m] = f i # map f [Suc i..<Suc i + m]" for f :: "nat \<Rightarrow> u64"
    using upt_conv_Cons [of i "i + Suc m"] by (simp del: upt_Suc)
  have acc: "of_nat (below ys i) + of_nat (count_list ys i) = (of_nat (below ys (Suc i)) :: u64)"
    by (simp add: below_Suc)
  have k: "k < 2 ^ LENGTH(64)" and b: "below ys (Suc i) < 2 ^ LENGTH(64)"
    using below_le [of ys "i + Suc m"] below_le [of ys "Suc i"] Suc.prems(1) assms(1) by simp_all
  have le: "of_nat k \<le> (of_nat (below ys (Suc i)) :: u64) \<longleftrightarrow> k \<le> below ys (Suc i)"
    by (simp add: word_le_nat_alt unat_of_nat_small [OF k] unat_of_nat_small [OF b])
  show ?case
  proof (cases "k \<le> below ys (Suc i)")
    case True
    then show ?thesis using Suc.prems(3) unfolding u pct_loop.simps acc by (simp add: le)
  next
    case False
    then have "0 < m" using Suc.prems(1) by (cases m) auto
    then have "let r = pct_loop (map (\<lambda>j. of_nat (count_list ys j)) [Suc i..<Suc i + m]) (Suc i)
        (of_nat (below ys (Suc i))) (of_nat k)
      in k \<le> below ys (Suc r) \<and> (r = 0 \<or> below ys r < k) \<and> r < Suc i + m"
      using False Suc.prems by (intro Suc.IH) auto
    with False show ?thesis unfolding u pct_loop.simps acc by (simp add: le Let_def del: upt_Suc)
  qed
qed simp

lemma sorted_nth_le_iff:
  fixes ys :: "nat list"
  assumes "sorted ys" and "j < length ys"
  shows "ys ! j < n \<longleftrightarrow> j < below ys n"
  using assms
proof (induction ys arbitrary: j)
  case (Cons y ys)
  show ?case
  proof (cases "y < n")
    case True
    with Cons show ?thesis by (cases j) (auto simp: below_def)
  next
    case False
    with Cons.prems have "filter (\<lambda>z. z < n) (y # ys) = []" by (auto simp: filter_empty_conv)
    moreover have "y \<le> (y # ys) ! j"
      using Cons.prems sorted_nth_mono [of "y # ys" 0 j] by simp
    then have "n \<le> (y # ys) ! j" using False by simp
    ultimately show ?thesis by (simp add: below_def)
  qed
qed simp

lemma below_sort: "below (sort ys) n = below ys n"
  by (simp add: below_def filter_sort)

lemma crossing_is_nth:
  assumes "k \<le> below ys (Suc r)" and "r = 0 \<or> below ys r < k" and "0 < k" and "k \<le> length ys"
  shows "sort ys ! (k - 1) = r"
proof -
  have j: "k - 1 < length (sort ys)" using assms by simp
  have lo: "k - 1 < below ys (Suc r)" using assms by simp
  have hi: "\<not> k - 1 < below ys r" if "r \<noteq> 0" using assms that by simp
  have "sort ys ! (k - 1) < Suc r"
    using lo sorted_nth_le_iff [OF sorted_sort j, of "Suc r"] by (simp only: below_sort)
  moreover have "\<not> sort ys ! (k - 1) < r" if "r \<noteq> 0"
    using hi [OF that] sorted_nth_le_iff [OF sorted_sort j, of r] unfolding below_sort by blast
  ultimately show ?thesis by (cases "r = 0") auto
qed

lemma lh_percentile_run:
  assumes "xs \<noteq> []" and "length xs \<le> 2 ^ 53" and "0 \<le> p" and "p \<le> 1"
  shows "lh_percentile p (lh_run xs) =
    Some (if floor_rank (length xs) p = 0 then 0
          else sort (map bucket_of xs) ! lh_rank (length xs) p)"
proof -
  let ?n = "length xs" and ?ys = "map bucket_of xs" and ?k = "floor_rank (length xs) p"
  have k: "?k \<le> ?n" using assms by (intro floor_rank_le)
  have "?n < 2 ^ LENGTH(64)" using assms(2) by simp
  then have c: "lh_count (lh_run xs) \<noteq> 0"
    using assms(1) of_nat_eq_0_iff_small [of ?n, where 'n = 64] by (simp add: lh_run_totals)
  obtain w where w: "to_u64 (fl (of_nat ?n * p)) = Some w" "w = of_nat ?k"
    using to_u64_small(1) fraction_bounds assms unfolding floor_rank_def by blast
  have all: "below ?ys (0 + NUM_BUCKETS) = ?n" and start: "below ?ys 0 = 0"
    using bucket_of_less by (simp_all add: below_def comp_def)
  define r where "r = pct_loop (buckets (lh_run xs)) 0 0 (of_nat ?k)"
  have r: "?k \<le> below ?ys (Suc r)" "r = 0 \<or> below ?ys r < ?k"
    using pct_loop_finds [of ?ys ?k 0 NUM_BUCKETS] assms(2) k all start
    by (simp_all add: r_def lh_run_buckets Let_def NUM_BUCKETS_def)
  have "r = (if ?k = 0 then 0 else sort ?ys ! lh_rank ?n p)"
    using crossing_is_nth [OF r] k r by (auto simp: lh_rank_def)
  then show ?thesis
    using c w unfolding r_def lh_percentile_def lh_run_totals of_u64_nat [OF assms(2)] by simp
qed

lemma lh_run_extremes:
  "xs \<noteq> [] \<Longrightarrow> lh_min (lh_run xs) = Min (set xs)" "xs \<noteq> [] \<Longrightarrow> lh_max (lh_run xs) = Max (set xs)"
proof -
  assume "xs \<noteq> []"
  then have "lh_min (lh_run xs) = min (- 1) (Min (set xs))" and "lh_max (lh_run xs) = max 0 (Max (set xs))"
    unfolding lh_run_totals by (intro Min_insert Max_insert; simp)+
  then show "lh_min (lh_run xs) = Min (set xs)" and "lh_max (lh_run xs) = Max (set xs)"
    by (simp_all add: min_absorb2 max_absorb2)
qed

text \<open>
  C29. \<open>percentile\<close> of the bucket histogram is the order statistic of the samples cut to 1023
  cycles: after recording at most \<open>2 ^ 53\<close> samples the loop over the buckets stops at entry
  \<open>k - 1\<close> of the sorted cut samples, \<open>k\<close> being the truncation of \<open>count * p\<close>, and at bucket 0 when
  \<open>k = 0\<close>. It therefore never exceeds 1023, whatever the latencies; minimum, maximum and count
  are exact.
\<close>
theorem lh_percentile_exact:
  assumes "xs \<noteq> []" and "length xs \<le> 2 ^ 53" and "0 \<le> p" and "p \<le> 1"
  shows "lh_percentile p (lh_run xs) =
      Some (if floor_rank (length xs) p = 0 then 0
            else sort (map bucket_of xs) ! (floor_rank (length xs) p - 1)) \<and>
    the (lh_percentile p (lh_run xs)) \<le> 1023 \<and> unat (lh_count (lh_run xs)) = length xs \<and>
    lh_min (lh_run xs) = Min (set xs) \<and> lh_max (lh_run xs) = Max (set xs)"
proof -
  let ?ys = "map bucket_of xs"
  have r: "lh_percentile p (lh_run xs) =
      Some (if floor_rank (length xs) p = 0 then 0 else sort ?ys ! lh_rank (length xs) p)"
    using assms by (rule lh_percentile_run)
  have "sort ?ys ! lh_rank (length ?ys) p \<in> set ?ys"
    using assms by (intro lh.quantile_mem) simp_all
  then have "sort ?ys ! lh_rank (length xs) p < NUM_BUCKETS"
    using bucket_of_less by auto
  moreover have "unat (of_nat (length xs) :: u64) = length xs"
    using assms(2) by (intro unat_of_nat_small) simp
  ultimately show ?thesis
    using r lh_run_extremes assms(1) by (simp add: lh_run_totals NUM_BUCKETS_def lh_rank_def)
qed

theorem lh_percentile_exact_witness:
  "lh_percentile 1 (lh_run [5000, 5, 7]) = Some 1023"
proof -
  have "fl 3 = 3" using fl_of_int [of 3] by simp
  then have "floor_rank (Suc (Suc (Suc 0))) 1 = 3" by (simp add: floor_rank_def)
  moreover have "map bucket_of [5000, 5, 7] = [1023, 5, 7]"
    by (simp add: bucket_of_def NUM_BUCKETS_def)
  ultimately show ?thesis
    using lh_percentile_exact [of "[5000, 5, 7]" 1] by (simp add: insort_key.simps)
qed

lemma extremes_eq: "smallest (x # xs) = Min (set (x # xs))" "largest (x # xs) = Max (set (x # xs))"
  by (simp_all only: smallest_def largest_def Min.set_eq_fold Max.set_eq_fold list.sel)

lemma md_extremes:
  assumes "h \<noteq> []"
  shows "md_min h = Min (set h)" and "md_max h = Max (set h)"
proof -
  obtain x xs where "h = x # xs" using assms by (cases h) auto
  then show "md_min h = Min (set h)" and "md_max h = Max (set h)"
    by (simp_all only: md_min_def md_max_def extremes_eq list.distinct if_False)
qed

text \<open>
  The percentiles of the benchmark statistics and of the sample histogram are samples,
  grow with \<open>p\<close>, lie between \<open>min\<close> and \<open>max\<close>, never index outside the sorted samples for
  \<open>p\<close> between 0 and 1 (0 and 100), and sorting in place keeps the samples.
\<close>
theorem percentiles_ordered:
  assumes "ls_samples s \<noteq> []" and "length (ls_samples s) \<le> 2 ^ 53"
    and "h \<noteq> []" and "length h \<le> 2 ^ 53" and "0 \<le> p" and "p \<le> q" and "q \<le> 1"
  shows "(\<exists>u v. ls_percentile p s = Some u \<and> ls_percentile q s = Some v \<and> u \<le> v \<and>
      {u, v} \<subseteq> set (ls_samples s)) \<and>
    (\<exists>u v. fst (md_percentile (100 * p) h) = Some u \<and> fst (md_percentile (100 * q) h) = Some v \<and>
      md_min h \<le> u \<and> u \<le> v \<and> v \<le> md_max h) \<and>
    mset (snd (md_percentile (100 * p) h)) = mset h"
proof -
  let ?xs = "ls_samples s"
  have p: "0 \<le> q" "p \<le> 1" using assms by simp_all
  have ls: "ls_percentile p s = Some (sort ?xs ! ls_rank (length ?xs) p)"
    "ls_percentile q s = Some (sort ?xs ! ls_rank (length ?xs) q)"
    using ls_percentile_rank assms p by blast+
  have md: "md_percentile (100 * p) h = (Some (sort h ! md_rank (length h) p), sort h)"
    "md_percentile (100 * q) h = (Some (sort h ! md_rank (length h) q), sort h)"
    using md_percentile_rank [of h "100 * p"] md_percentile_rank [of h "100 * q"] assms p by simp_all
  have mem: "sort h ! md_rank (length h) p \<in> set h" "sort h ! md_rank (length h) q \<in> set h"
    using assms p by (intro md.quantile_mem; simp)+
  have "md_min h = Min (set h)" and "md_max h = Max (set h)" by (rule md_extremes [OF assms(3)])+
  with mem have "md_min h \<le> sort h ! md_rank (length h) p" and "sort h ! md_rank (length h) q \<le> md_max h"
    by simp_all
  moreover have "sort h ! md_rank (length h) p \<le> sort h ! md_rank (length h) q"
    using assms by (intro md.quantile_mono)
  moreover have "sort ?xs ! ls_rank (length ?xs) p \<le> sort ?xs ! ls_rank (length ?xs) q"
    using assms by (intro ls.quantile_mono)
  moreover have "sort ?xs ! ls_rank (length ?xs) p \<in> set ?xs" and "sort ?xs ! ls_rank (length ?xs) q \<in> set ?xs"
    using assms p by (intro ls.quantile_mem; simp)+
  ultimately show ?thesis unfolding ls md by simp
qed

theorem percentiles_ordered_witness:
  "mset (snd (md_percentile 0 [2, 1])) = {#1, 2#} \<and>
   (\<exists>u v. ls_percentile 0 (ls_record 3 (ls_record 9 ls_new)) = Some u \<and>
      ls_percentile 1 (ls_record 3 (ls_record 9 ls_new)) = Some v \<and> u \<le> v)"
  using percentiles_ordered [of "ls_record 3 (ls_record 9 ls_new)" "[2, 1]" 0 1]
  by (auto simp: ls_record_def ls_new_def)

end
