(* ===== verification/Bench.thy ===== *)
theory Bench
  imports Spsc Memory_Pool Iex Order_Book Latency
begin

text \<open>
  The workloads of \<open>src/benchmark.cpp\<close>: what its functions do to the queue, the pool, the
  parser, the books and the statistics. The random draws are arguments; the clock readings only
  feed \<open>LatencyStats\<close> (theory \<open>Latency\<close>); the printed report is in \<open>Bench_Report\<close>.
\<close>

subsection \<open>Spinning on a queue\<close>

text \<open>
  \<open>while (!queue.try_push(i)) {}\<close> and \<open>while (!queue.try_pop()) {}\<close>, over any queue; a loop that
  never ends has the value \<open>None\<close>.
\<close>

partial_function (option) spin_push :: "('a \<Rightarrow> 'q \<Rightarrow> (bool \<times> 'q) option) \<Rightarrow> 'a \<Rightarrow> 'q \<Rightarrow> 'q option" where
  "spin_push enq x q =
     (case enq x q of
        None \<Rightarrow> None
      | Some (taken, q') \<Rightarrow> if taken then Some q' else spin_push enq x q')"

partial_function (option) spin_pop :: "('q \<Rightarrow> ('a option \<times> 'q) option) \<Rightarrow> 'q \<Rightarrow> ('a \<times> 'q) option" where
  "spin_pop deq q =
     (case deq q of
        None \<Rightarrow> None
      | Some (r, q') \<Rightarrow> (case r of Some x \<Rightarrow> Some (x, q') | None \<Rightarrow> spin_pop deq q'))"

fun push_all :: "('a \<Rightarrow> 'q \<Rightarrow> (bool \<times> 'q) option) \<Rightarrow> 'a list \<Rightarrow> 'q \<Rightarrow> 'q option" where
  "push_all enq [] q = Some q"
| "push_all enq (x # xs) q = Option.bind (spin_push enq x q) (push_all enq xs)"

fun pop_all :: "('q \<Rightarrow> ('a option \<times> 'q) option) \<Rightarrow> nat \<Rightarrow> 'q \<Rightarrow> ('a list \<times> 'q) option" where
  "pop_all deq 0 q = Some ([], q)"
| "pop_all deq (Suc n) q =
     (case spin_pop deq q of
        None \<Rightarrow> None
      | Some (x, q1) \<Rightarrow> map_option (\<lambda>(xs, q2). (x # xs, q2)) (pop_all deq n q1))"

text \<open>A refused push that leaves the queue as it is is refused for ever.\<close>

lemma spin_push_returns:
  fixes enq :: "'a \<Rightarrow> 'q \<Rightarrow> (bool \<times> 'q) option"
  assumes "spin_push enq x q = Some r"
  shows "enq x q \<noteq> Some (False, q)"
proof -
  let ?P = "\<lambda>(enq :: 'a \<Rightarrow> 'q \<Rightarrow> (bool \<times> 'q) option) (x :: 'a) (q :: 'q) (r :: 'q). enq x q \<noteq> Some (False, q)"
  have "(case ((enq, x), q) of (y, p) \<Rightarrow> (case y of (e, x) \<Rightarrow> ?P e x) p) r"
  proof (rule spin_push.raw_induct [where P = ?P and xa = "((enq, x), q)" and y = r])
    fix D e y p s
    assume IH: "\<And>e x q r. D e x q = Some r \<Longrightarrow> ?P e x q r"
      and eq: "(case e y p of None \<Rightarrow> None
        | Some (taken, q') \<Rightarrow> if taken then Some q' else D e y q') = Some s"
    show "?P e y p s"
    proof
      assume stuck: "e y p = Some (False, p)"
      with eq have "D e y p = Some s" by simp
      from IH [OF this] stuck show False by simp
    qed
  qed (simp add: assms)
  then show ?thesis by simp
qed

lemma spin_push_stuck: "enq x q = Some (False, q) \<Longrightarrow> spin_push enq x q = None"
  using spin_push_returns [of enq x q] by (cases "spin_push enq x q") auto

context fifo
begin

lemma spin_push_room:
  assumes "ok q" and "room_in bound (contents q)"
  shows "\<exists>r. spin_push enq x q = Some r \<and> ok r \<and> contents r = contents q @ [x]"
  using enq_room [OF assms, of x] by (auto simp: spin_push.simps)

lemma spin_push_full: "ok q \<Longrightarrow> \<not> room_in bound (contents q) \<Longrightarrow> spin_push enq x q = None"
  by (simp add: enq_full spin_push_stuck)

lemma push_all_room:
  assumes "ok q" and "bound = Some n" and "length (contents q) + length xs \<le> n"
  shows "\<exists>r. push_all enq xs q = Some r \<and> ok r \<and> contents r = contents q @ xs"
  using assms(1,3)
proof (induction xs arbitrary: q)
  case (Cons x xs)
  have "room_in bound (contents q)" using Cons.prems(2) assms(2) by (simp add: room_in_def)
  then obtain q1 where q1: "spin_push enq x q = Some q1" "ok q1" "contents q1 = contents q @ [x]"
    using spin_push_room [OF Cons.prems(1), of x] by blast
  with Cons.IH [of q1] Cons.prems(2) show ?case by auto
qed simp

lemma push_all_full:
  assumes "ok q" and "bound = Some n" and "length (contents q) \<le> n" and "n < length (contents q) + length xs"
  shows "push_all enq xs q = None"
  using assms(1,3,4)
proof (induction xs arbitrary: q)
  case (Cons x xs)
  show ?case
  proof (cases "room_in bound (contents q)")
    case True
    then obtain q1 where q1: "spin_push enq x q = Some q1" "ok q1" "contents q1 = contents q @ [x]"
      using spin_push_room [OF Cons.prems(1), of x] by blast
    then show ?thesis using Cons.IH [of q1] Cons.prems(3) True assms(2) by (simp add: room_in_def)
  qed (use Cons.prems(1) spin_push_full in simp)
qed simp

lemma pop_all_contents:
  assumes "ok q" and "n = length (contents q)"
  shows "\<exists>r. pop_all deq n q = Some (contents q, r) \<and> ok r \<and> contents r = []"
  using assms
proof (induction n arbitrary: q)
  case (Suc n)
  then obtain x xs where xs: "contents q = x # xs" by (cases "contents q") auto
  obtain q1 where q1: "deq q = Some (Some x, q1)" "ok q1" "contents q1 = xs"
    using deq_cons [OF Suc.prems(1) xs] by blast
  have "spin_pop deq q = Some (x, q1)" using q1(1) by (simp add: spin_pop.simps)
  with Suc.IH [of q1] Suc.prems xs q1 show ?case by auto
qed auto

end

subsection \<open>\<open>benchmark_queue\<close>\<close>

text \<open>All pushes, then all pops, by one thread; the result are the values popped.\<close>

definition benchmark_queue :: "nat \<Rightarrow> u64 \<Rightarrow> u64 list option" where
  "benchmark_queue iterations cap =
     (case spsc_new 0 cap of
        Inl _ \<Rightarrow> None
      | Inr q \<Rightarrow>
          Option.bind (push_all try_push (map of_nat [0..<iterations]) q)
            (\<lambda>q1. map_option fst (pop_all try_pop iterations q1)))"

lemma benchmark_queue_start:
  assumes "1 \<le> k" and "k < 64"
  obtains q where "spsc_new 0 (2 ^ k) = Inr q" "spsc_ok k q" "spsc_contents k q = ([] :: u64 list)"
  using spsc_new_ok [OF assms, of "0 :: u64"] by auto

lemma benchmark_queue_ends:
  assumes "1 \<le> k" and "k < 64" and "n \<le> 2 ^ k"
  shows "benchmark_queue n (2 ^ k) = Some (map of_nat [0..<n])"
proof -
  obtain q where q: "spsc_new 0 (2 ^ k) = Inr q" "spsc_ok k q" "spsc_contents k q = ([] :: u64 list)"
    using benchmark_queue_start [OF assms(1,2)] .
  let ?xs = "map of_nat [0..<n] :: u64 list"
  obtain r where r: "push_all try_push ?xs q = Some r" "spsc_ok k r" "spsc_contents k r = ?xs"
    using spsc.push_all_room [OF q(2) refl, of ?xs] q(3) assms(3) by auto
  with spsc.pop_all_contents [OF r(2), of n] q(1) show ?thesis
    by (auto simp: benchmark_queue_def)
qed

lemma benchmark_queue_spins:
  assumes "1 \<le> k" and "k < 64" and "2 ^ k < n"
  shows "benchmark_queue n (2 ^ k) = None"
proof -
  obtain q where q: "spsc_new 0 (2 ^ k) = Inr q" "spsc_ok k q" "spsc_contents k q = ([] :: u64 list)"
    using benchmark_queue_start [OF assms(1,2)] .
  have "push_all try_push (map of_nat [0..<n]) q = None"
    using spsc.push_all_full [OF q(2) refl, of "map of_nat [0..<n]"] q(3) assms(3) by simp
  with q(1) show ?thesis by (simp add: benchmark_queue_def)
qed

text \<open>
  C37. \<open>benchmark_queue\<close> ends exactly when all its pushes fit: on \<open>2 ^ k\<close> nodes it returns the
  pushed values in order for up to \<open>2 ^ k\<close> iterations, and spins for ever in
  \<open>while (!queue.try_push(i)) {}\<close> for more, since nothing pops until all pushes are done. The
  constants of the source, a million iterations on 65536 nodes, are in the second case: the
  benchmark program hangs in its first benchmark.
\<close>
theorem benchmark_queue_completes:
  assumes "1 \<le> k" and "k < 64"
  shows "benchmark_queue n (2 ^ k) = (if n \<le> 2 ^ k then Some (map of_nat [0..<n]) else None)"
  using benchmark_queue_ends [OF assms] benchmark_queue_spins [OF assms] by simp

theorem benchmark_queue_completes_witness: "benchmark_queue 1000000 65536 = None"
  using benchmark_queue_completes [of 16 1000000] by (simp del: upt_rec_numeral)

subsection \<open>\<open>benchmark_memory_pool\<close>\<close>

text \<open>\<open>batch\<close> is the 1000 at which the collected pointers are given back; \<open>n\<close> the chunk size.\<close>

definition deallocate_all :: "slot_addr list \<Rightarrow> 'a pool \<Rightarrow> 'a pool" where
  "deallocate_all ptrs p = fold (\<lambda>a. deallocate (Some a)) ptrs p"

fun pool_loop ::
  "nat \<Rightarrow> (nat list \<Rightarrow> nat) \<Rightarrow> nat \<Rightarrow> 'a list \<Rightarrow> slot_addr list \<Rightarrow> 'a pool \<Rightarrow> 'a pool option" where
  "pool_loop n alloc batch [] ptrs p = Some (deallocate_all ptrs p)"
| "pool_loop n alloc batch (x # xs) ptrs p =
     (case allocate n alloc x p of
        None \<Rightarrow> None
      | Some (a, p1) \<Rightarrow>
          if batch \<le> length (ptrs @ [a])
          then pool_loop n alloc batch xs [] (deallocate_all (ptrs @ [a]) p1)
          else pool_loop n alloc batch xs (ptrs @ [a]) p1)"

definition benchmark_memory_pool :: "nat \<Rightarrow> (nat list \<Rightarrow> nat) \<Rightarrow> nat \<Rightarrow> u64 pool option" where
  "benchmark_memory_pool n alloc iterations =
     pool_loop n alloc 1000 (map of_nat [0..<iterations]) [] (pool_new n alloc)"

lemma deallocate_all_ok:
  assumes "pool_ok n p" and "distinct ptrs" and "set ptrs = dom (live p)"
  shows "pool_ok n (deallocate_all ptrs p) \<and> live (deallocate_all ptrs p) = Map.empty \<and>
    chunks (deallocate_all ptrs p) = chunks p"
  using assms
proof (induction ptrs arbitrary: p)
  case (Cons a ptrs)
  have "live p a \<noteq> None" using Cons.prems(3) by auto
  note d = deallocate_ok [OF Cons.prems(1) this]
  have "set ptrs = dom (live (deallocate (Some a) p))" using Cons.prems(2,3) by (auto simp: d(2))
  with Cons.IH [OF d(1)] Cons.prems(2) d(3) show ?case by (simp add: deallocate_all_def)
next
  case Nil
  then have "live p = Map.empty" by (metis dom_eq_empty_conv list.set(1))
  with Nil show ?case by (simp add: deallocate_all_def)
qed

lemma pool_loop_ok:
  assumes "pool_ok n p" and "distinct ptrs" and "set ptrs = dom (live p)" and "length ptrs < batch"
    and "chunk_alloc alloc" and "0 < n" and "batch \<le> n" and "chunks p = [c]"
  shows "\<exists>r. pool_loop n alloc batch xs ptrs p = Some r \<and> pool_ok n r \<and> live r = Map.empty \<and> chunks r = [c]"
  using assms
proof (induction xs arbitrary: ptrs p)
  case Nil
  then show ?case using deallocate_all_ok [of n p ptrs] by auto
next
  case (Cons x xs)
  have "card (dom (live p)) < n"
    using Cons.prems(2-4,7) distinct_card [of ptrs] by simp
  moreover have "card ({c} \<times> {0..<n}) = n" by simp
  ultimately have "dom (live p) \<noteq> set (chunks p) \<times> {0..<n}" using Cons.prems(8) by auto
  then obtain a p1 where a: "allocate n alloc x p = Some (a, p1)" "pool_ok n p1" "live p a = None"
      "live p1 = (live p)(a \<mapsto> x)" "chunks p1 = [c]"
    using allocate_ok [OF Cons.prems(1,5,6), of x] Cons.prems(8) by auto
  have ptrs: "distinct (ptrs @ [a])" "set (ptrs @ [a]) = dom (live p1)"
    using Cons.prems(2,3) a(3,4) by auto
  show ?case
  proof (cases "batch \<le> length (ptrs @ [a])")
    case True
    let ?p = "deallocate_all (ptrs @ [a]) p1"
    have "pool_ok n ?p" "live ?p = Map.empty" "chunks ?p = [c]"
      using deallocate_all_ok [OF a(2) ptrs] a(5) by auto
    with True Cons.IH [of ?p "[]"] Cons.prems(4-7) a(1) show ?thesis by simp
  next
    case False
    with Cons.IH [OF a(2) ptrs _ Cons.prems(5-7) a(5)] a(1) show ?thesis by simp
  qed
qed

text \<open>
  \<open>benchmark_memory_pool\<close> gives every object back: for any number of iterations it runs
  without undefined behaviour, ends with nothing allocated, and never needs a second chunk as
  long as the batch of 1000 fits into one.
\<close>
theorem benchmark_memory_pool_balanced:
  assumes "chunk_alloc alloc" and "1000 \<le> n"
  shows "\<exists>p. benchmark_memory_pool n alloc iterations = Some p \<and> live p = Map.empty \<and>
    allocated p = 0 \<and> chunks p = [alloc []]"
proof -
  have n: "0 < n" using assms(2) by simp
  have "chunks (pool_new n alloc :: u64 pool) = [alloc []]"
    by (simp add: pool_new_def allocate_chunk_def Let_def)
  then obtain p where p: "benchmark_memory_pool n alloc iterations = Some p" "pool_ok n p"
      "live p = Map.empty" "chunks p = [alloc []]"
    using pool_loop_ok [OF pool_new_ok(1) [OF assms(1) n], of "[]" 1000 alloc "alloc []" "map of_nat [0..<iterations]"]
      pool_new_ok(2) [OF assms(1) n, where 'a = u64] assms n
    unfolding benchmark_memory_pool_def by (metis dom_empty distinct.simps(1) list.set(1) list.size(3) zero_less_numeral)
  with allocated_live [OF p(2)] show ?thesis by simp
qed

theorem benchmark_memory_pool_balanced_witness:
  "\<exists>p. benchmark_memory_pool 4096 (\<lambda>cs. Suc (sum_list cs)) 1000000 = Some p \<and> allocated p = 0"
  using benchmark_memory_pool_balanced [OF sample_alloc, of 4096 1000000] by auto

subsection \<open>\<open>benchmark_message_parsing\<close>\<close>

definition quote_update_type :: u8 where
  "quote_update_type = 0x51"

text \<open>The \<open>i\<close>-th quote; its timestamp is drawn at random.\<close>

definition bench_quote :: "nat \<Rightarrow> u64 \<Rightarrow> iex_quote_update" where
  "bench_quote i ts =
     (let bid = 1500000 + of_nat (i mod 10000); qty = 100 + of_nat (i mod 1000)
      in \<lparr>iq_header = \<lparr>ih_type = quote_update_type, ih_timestamp = ts\<rparr>, iq_flags = 0,
          iq_symbol = map ch ''AAPL    '', iq_bid_size = qty, iq_bid_price = bid,
          iq_ask_size = qty, iq_ask_price = bid + 10\<rparr>)"

text \<open>The bytes of the packed structs, and one run of the parser over them: its \<open>count\<close>.\<close>

definition parsing_buffer :: "u64 list \<Rightarrow> u8 list" where
  "parsing_buffer tss =
     concat (map (\<lambda>(i, ts). encode_iex_quote_update (bench_quote i ts)) (enumerate 0 tss))"

definition parse_run_count :: "u64 list \<Rightarrow> nat option" where
  "parse_run_count tss =
     map_option length (drain iex_parse_next iex_has_more (iex_new (parsing_buffer tss)) [])"

lemma bench_quotes_drained:
  "drain iex_parse_next iex_has_more (iex_new (parsing_buffer tss)) [] =
   Some (map (\<lambda>(i, ts). IQuoteUpdate (bench_quote i ts)) (enumerate 0 tss))"
proof -
  let ?ms = "map (\<lambda>(i, ts). IQuoteUpdate (bench_quote i ts)) (enumerate 0 tss)"
  have "\<forall>m\<in>set ?ms. iex_valid m"
    by (auto simp: bench_quote_def Let_def valid_iex_quote_update_def quote_update_type_def)
  from iex.drain_encoded [OF this] show ?thesis
    by (simp add: iex_new_def parsing_buffer_def comp_def case_prod_unfold)
qed

lemma parse_run_counts_all: "parse_run_count tss = Some (length tss)"
  by (simp add: parse_run_count_def bench_quotes_drained)

subsection \<open>\<open>benchmark_order_book\<close>\<close>

text \<open>One iteration, given the draws of price, size and operation.\<close>

definition bench_book_step :: "nat \<Rightarrow> i64 \<times> u64 \<times> nat \<Rightarrow> order_book \<Rightarrow> order_book" where
  "bench_book_step i draw b =
     (case draw of (px, qty, op) \<Rightarrow>
        if op = 0 then add_bid px qty (of_nat i) b
        else if op = 1 then add_ask (px + 10) qty (of_nat i) b
        else if op = 2 then modify_bid px (qty div 2) (of_nat i) b
        else if op = 3 then execute_ask (px + 10) (qty div 4) (of_nat i) b
        else b)"

definition benchmark_order_book :: "(i64 \<times> u64 \<times> nat) list \<Rightarrow> order_book" where
  "benchmark_order_book draws =
     fold (\<lambda>(i, draw). bench_book_step i draw) (enumerate 0 draws) (order_book_new ''AAPL'')"

definition bench_book_op :: "nat \<times> i64 \<times> u64 \<times> nat \<Rightarrow> book_op list" where
  "bench_book_op e =
     (case e of (i, px, qty, op) \<Rightarrow>
        if op = 0 then [AddBid px qty (of_nat i)]
        else if op = 1 then [AddAsk (px + 10) qty (of_nat i)]
        else if op = 2 then [ModifyBid px (qty div 2) (of_nat i)]
        else if op = 3 then [ExecuteAsk (px + 10) (qty div 4) (of_nat i)] else [])"

lemma benchmark_order_book_run:
  "benchmark_order_book draws =
   book_run (concat (map bench_book_op (enumerate 0 draws))) (order_book_new ''AAPL'')"
proof -
  have "fold (\<lambda>(i, draw). bench_book_step i draw) es b = book_run (concat (map bench_book_op es)) b" for es b
    by (induction es arbitrary: b)
      (auto simp: bench_book_step_def bench_book_op_def book_run_def split: prod.splits)
  then show ?thesis by (simp add: benchmark_order_book_def)
qed

subsection \<open>\<open>benchmark_end_to_end\<close>\<close>

text \<open>
  The draws are bid price, bid size and ask size; \<open>bid_size\<close> and \<open>ask_size\<close> are 32-bit fields.
\<close>

definition e2e_quote :: "nat \<Rightarrow> i64 \<times> u64 \<times> u64 \<Rightarrow> iex_quote_update" where
  "e2e_quote i draw =
     (case draw of (bid, bid_size, ask_size) \<Rightarrow>
        \<lparr>iq_header = \<lparr>ih_type = quote_update_type, ih_timestamp = of_nat i * 1000\<rparr>, iq_flags = 0,
         iq_symbol = map ch ''AAPL    '', iq_bid_size = ucast bid_size, iq_bid_price = bid,
         iq_ask_size = ucast ask_size, iq_ask_price = bid + 10\<rparr>)"

definition apply_quote :: "iex_quote_update \<Rightarrow> order_book \<Rightarrow> order_book" where
  "apply_quote m b =
     modify_ask (iq_ask_price m) (ucast (iq_ask_size m)) (ih_timestamp (iq_header m))
       (modify_bid (iq_bid_price m) (ucast (iq_bid_size m)) (ih_timestamp (iq_header m)) b)"

text \<open>One message through the queue into the manager's book; the result also holds the snapshot.\<close>

definition e2e_step ::
  "iex_quote_update \<Rightarrow> iex_quote_update spsc \<times> book_manager \<Rightarrow>
   (book_snapshot option \<times> iex_quote_update spsc \<times> book_manager) option" where
  "e2e_step msg st =
     (case st of (q, m) \<Rightarrow>
        case spin_push try_push msg q of
          None \<Rightarrow> None
        | Some q1 \<Rightarrow>
            case try_pop q1 of
              None \<Rightarrow> None
            | Some (None, q2) \<Rightarrow> Some (None, q2, m)
            | Some (Some popped, q2) \<Rightarrow>
                let m1 = with_book ''AAPL'' (apply_quote popped) m
                in Some (Some (snapshot (snd (get_or_create ''AAPL'' m1))), q2, m1))"

fun e2e_loop ::
  "iex_quote_update list \<Rightarrow> iex_quote_update spsc \<times> book_manager \<Rightarrow>
   (book_snapshot option list \<times> iex_quote_update spsc \<times> book_manager) option" where
  "e2e_loop [] st = Some ([], st)"
| "e2e_loop (msg # msgs) st =
     (case e2e_step msg st of
        None \<Rightarrow> None
      | Some (snap, st1) \<Rightarrow> map_option (\<lambda>(snaps, st2). (snap # snaps, st2)) (e2e_loop msgs st1))"

definition benchmark_end_to_end ::
  "(i64 \<times> u64 \<times> u64) list \<Rightarrow> (book_snapshot option list \<times> iex_quote_update spsc \<times> book_manager) option" where
  "benchmark_end_to_end draws =
     (case spsc_new (e2e_quote 0 (0, 0, 0)) 65536 of
        Inl _ \<Rightarrow> None
      | Inr q \<Rightarrow> e2e_loop (map (\<lambda>(i, d). e2e_quote i d) (enumerate 0 draws)) (q, []))"

text \<open>The books after each message, by the abstract pipeline: apply the quotes in order.\<close>

fun quote_books :: "iex_quote_update list \<Rightarrow> order_book \<Rightarrow> order_book list" where
  "quote_books [] b = []"
| "quote_books (m # ms) b = apply_quote m b # quote_books ms (apply_quote m b)"

definition current_book :: "book_manager \<Rightarrow> order_book" where
  "current_book m = snd (get_or_create ''AAPL'' m)"

lemma current_with_book: "current_book (with_book ''AAPL'' f m) = f (current_book m)"
proof -
  have "get_book ''AAPL'' (with_book ''AAPL'' f m) = Some (f (current_book m))"
    by (simp add: get_book_with_book current_book_def)
  then show ?thesis by (simp add: current_book_def get_or_create_Some)
qed

lemma e2e_step_ok:
  assumes "spsc_ok k q" and "spsc_contents k q = []"
  shows "\<exists>r. e2e_step msg (q, m) =
      Some (Some (snapshot (apply_quote msg (current_book m))), r, with_book ''AAPL'' (apply_quote msg) m) \<and>
    spsc_ok k r \<and> spsc_contents k r = []"
proof -
  have "room_in (Some (2 ^ k)) (spsc_contents k q)" using assms(2) by (simp add: room_in_def)
  then obtain q1 where q1: "spin_push try_push msg q = Some q1" "spsc_ok k q1" "spsc_contents k q1 = [msg]"
    using spsc.spin_push_room [OF assms(1), of msg] assms(2) by auto
  obtain r where r: "try_pop q1 = Some (Some msg, r)" "spsc_ok k r" "spsc_contents k r = []"
    using spsc.deq_cons [OF q1(2,3)] by auto
  with q1(1) show ?thesis
    using current_with_book [of "apply_quote msg" m] by (simp add: e2e_step_def current_book_def)
qed

lemma e2e_loop_ok:
  assumes "spsc_ok k q" and "spsc_contents k q = []"
  shows "\<exists>r m'. e2e_loop msgs (q, m) =
      Some (map (Some \<circ> snapshot) (quote_books msgs (current_book m)), r, m') \<and>
    spsc_contents k r = [] \<and> current_book m' = fold apply_quote msgs (current_book m)"
  using assms
proof (induction msgs arbitrary: q m)
  case (Cons msg msgs)
  obtain r where r: "e2e_step msg (q, m) =
      Some (Some (snapshot (apply_quote msg (current_book m))), r, with_book ''AAPL'' (apply_quote msg) m)"
      "spsc_ok k r" "spsc_contents k r = []"
    using e2e_step_ok [OF Cons.prems, of msg m] by blast
  from Cons.IH [OF r(2,3), of "with_book ''AAPL'' (apply_quote msg) m"] r(1) show ?case
    by (auto simp: current_with_book)
qed simp

text \<open>
  C18. The end-to-end pipeline is live and exact: whatever the draws, every message is
  accepted by the queue at the first attempt and popped in the same turn, so the loop ends
  with the queue empty; the snapshot taken after each message and the final book of the manager
  are those of applying the quotes in order to a fresh book.
\<close>
theorem end_to_end_pipeline:
  "\<exists>q m. benchmark_end_to_end draws =
      Some (map (Some \<circ> snapshot)
              (quote_books (map (\<lambda>(i, d). e2e_quote i d) (enumerate 0 draws)) (order_book_new ''AAPL'')), q, m) \<and>
    spsc_contents 16 q = [] \<and>
    current_book m = fold apply_quote (map (\<lambda>(i, d). e2e_quote i d) (enumerate 0 draws)) (order_book_new ''AAPL'')"
proof -
  obtain q where "spsc_new (e2e_quote 0 (0, 0, 0)) 65536 = Inr q" and q: "spsc_ok 16 q" "spsc_contents 16 q = []"
    using spsc_new_ok [of 16 "e2e_quote 0 (0, 0, 0)"] by auto
  moreover have "current_book [] = order_book_new ''AAPL''"
    by (simp add: current_book_def get_or_create_def)
  ultimately show ?thesis
    using e2e_loop_ok [OF q, of "map (\<lambda>(i, d). e2e_quote i d) (enumerate 0 draws)" "[]"]
    by (auto simp: benchmark_end_to_end_def)
qed

end
