(* ===== verification/Demo.thy ===== *)
theory Demo
  imports Bench Enhanced_Book Itch Strategy Tick
begin

text \<open>
  \<open>src/main.cpp\<close>: the choice of the mode, the composition of the components in
  \<open>demo_complete_system\<close>, and the numbers of its report. The random draws, the cycle counts and
  the value of \<open>g_running\<close> at each test are arguments; the printed text is in \<open>Demo_Report\<close>. The
  other two programs of the file are in \<open>Demo_Itch\<close>.
\<close>

subsection \<open>Signals and modes\<close>

definition signal_handler :: "int \<Rightarrow> bool \<Rightarrow> bool" where
  "signal_handler sig g_running = (if sig = 2 \<or> sig = 15 then False else g_running)"

datatype main_action = Complete_System | Itch_Processing | Usage

definition main_mode :: "string list \<Rightarrow> main_action" where
  "main_mode args =
     (let mode = (if 1 < length args then args ! 1 else ''demo'')
      in if mode = ''demo'' \<or> mode = ''live'' then Complete_System
         else if mode = ''itch'' then Itch_Processing
         else Usage)"

subsection \<open>\<open>demo_complete_system\<close>\<close>

text \<open>What one iteration draws and reads from outside.\<close>

record draw =
  dr_running :: bool
  dr_bid_price :: i64
  dr_bid_size :: u64
  dr_spread :: i64
  dr_ask_size :: u64
  dr_pause :: u64
  dr_parse_cycles :: u64
  dr_book_cycles :: u64
  dr_e2e_cycles :: u64

record demo =
  d_books :: "ebook list"
  d_queue :: "iex_quote_update spsc"
  d_recorder :: recorder
  d_strategy :: strategy
  d_signals :: "order_signal list"
  d_parse_latency :: lat_hist
  d_book_latency :: lat_hist
  d_e2e_latency :: lat_hist
  d_timestamp :: u64

definition demo_names :: "string list" where
  "demo_names = [''AAPL    '', ''MSFT    '', ''GOOGL   '']"

definition demo_quote :: "nat \<Rightarrow> draw \<Rightarrow> u64 \<Rightarrow> iex_quote_update" where
  "demo_quote i d ts =
     \<lparr>iq_header = \<lparr>ih_type = quote_update_type, ih_timestamp = ts\<rparr>, iq_flags = 0,
      iq_symbol = map ch (demo_names ! (i mod 3)), iq_bid_size = ucast (dr_bid_size d),
      iq_bid_price = dr_bid_price d, iq_ask_size = ucast (dr_ask_size d),
      iq_ask_price = dr_bid_price d + dr_spread d\<rparr>"

text \<open>The four-way choice of the book operation; its results are ignored.\<close>

definition demo_book_op :: "nat \<Rightarrow> iex_quote_update \<Rightarrow> u64 \<Rightarrow> ebook \<Rightarrow> ebook" where
  "demo_book_op i msg ts b =
     (if i mod 5 = 0 then
        snd (add_order (of_nat (i * 2 + 1)) CHR ''S'' (iq_ask_price msg) (ucast (iq_ask_size msg)) ts
          (snd (add_order (of_nat (i * 2)) CHR ''B'' (iq_bid_price msg) (ucast (iq_bid_size msg)) ts b)))
      else if i mod 7 = 0 \<and> 0 < i then
        snd (execute_order (of_nat ((i - 1) * 2)) (ucast (iq_bid_size msg div 4)) ts b)
      else if i mod 11 = 0 \<and> 0 < i then
        snd (cancel_order (of_nat ((i - 1) * 2 + 1)) (ucast (iq_ask_size msg div 3)) ts b)
      else snd (modify_order (of_nat (i * 2)) (ucast (iq_bid_size msg + 100)) ts b))"

definition demo_quote_tick :: "iex_quote_update \<Rightarrow> u64 \<Rightarrow> tick_op" where
  "demo_quote_tick msg ts =
     Quote ts (symbol_to_string (iq_symbol msg)) (iq_bid_price msg) (ucast (iq_bid_size msg))
       (iq_ask_price msg) (ucast (iq_ask_size msg))"

text \<open>What happens to a message that was popped: the part guarded by \<open>if (msg)\<close>.\<close>

definition demo_process ::
  "(nat \<Rightarrow> bool \<times> bool) \<Rightarrow> nat \<Rightarrow> draw \<Rightarrow> iex_quote_update \<Rightarrow> demo \<Rightarrow> demo option" where
  "demo_process env i d msg s =
     (let book = demo_book_op i msg (d_timestamp s) (d_books s ! (i mod 3));
          s1 = s\<lparr>d_books := (d_books s)[i mod 3 := book],
                 d_book_latency := lh_record (dr_book_cycles d) (d_book_latency s)\<rparr>
      in case record_op env (demo_quote_tick msg (d_timestamp s)) (d_recorder s) of
           None \<Rightarrow> None
         | Some rc \<Rightarrow>
             let s2 = s1\<lparr>d_recorder := rc\<rparr>
             in if i mod 1000 = 0 then
                  (case on_quote_update (e_snapshot book) (d_strategy s) of
                     (sig, st) \<Rightarrow>
                       Some (s2\<lparr>d_strategy := st,
                                d_signals := d_signals s @ (case sig of None \<Rightarrow> [] | Some x \<Rightarrow> [x])\<rparr>))
                else Some s2)"

definition demo_step :: "(nat \<Rightarrow> bool \<times> bool) \<Rightarrow> nat \<Rightarrow> draw \<Rightarrow> demo \<Rightarrow> demo option" where
  "demo_step env i d s =
     (case try_push (demo_quote i d (d_timestamp s)) (d_queue s) of
        None \<Rightarrow> None
      | Some (pushed, q1) \<Rightarrow>
          case try_pop q1 of
            None \<Rightarrow> None
          | Some (popped, q2) \<Rightarrow>
              let s1 = s\<lparr>d_queue := q2,
                         d_parse_latency := lh_record (dr_parse_cycles d) (d_parse_latency s)\<rparr>
              in map_option
                   (\<lambda>s2. s2\<lparr>d_e2e_latency := lh_record (dr_e2e_cycles d) (d_e2e_latency s2),
                            d_timestamp := d_timestamp s2 + 100000 + dr_pause d\<rparr>)
                   (case popped of None \<Rightarrow> Some s1 | Some msg \<Rightarrow> demo_process env i d msg s1))"

fun demo_loop :: "(nat \<Rightarrow> bool \<times> bool) \<Rightarrow> nat \<Rightarrow> draw list \<Rightarrow> demo \<Rightarrow> demo option" where
  "demo_loop env i [] s = Some s"
| "demo_loop env i (d # ds) s =
     (if \<not> dr_running d then Some s
      else case demo_step env i d s of None \<Rightarrow> None | Some s1 \<Rightarrow> demo_loop env (i + 1) ds s1)"

definition demo_strategy :: strategy where
  "demo_strategy =
     set_signal_callback (set_imbalance_threshold (fl (3 / 10))
       (set_spread_threshold (fl (5 / 100)) strategy_new))"

text \<open>The initial state; \<open>q\<close> is the new queue and \<open>rc\<close> the recorder just opened.\<close>

definition demo_init :: "iex_quote_update spsc \<Rightarrow> recorder \<Rightarrow> demo" where
  "demo_init q rc =
     \<lparr>d_books = map ebook_new [''AAPL'', ''MSFT'', ''GOOGL''], d_queue = q, d_recorder = rc,
      d_strategy = demo_strategy, d_signals = [], d_parse_latency = lh_new,
      d_book_latency = lh_new, d_e2e_latency = lh_new, d_timestamp = 1700000000000000000\<rparr>"

definition blank_quote :: iex_quote_update where
  "blank_quote =
     \<lparr>iq_header = \<lparr>ih_type = 0, ih_timestamp = 0\<rparr>, iq_flags = 0, iq_symbol = replicate 8 0,
      iq_bid_size = 0, iq_bid_price = 0, iq_ask_size = 0, iq_ask_price = 0\<rparr>"

text \<open>At most 50000 draws are used; \<open>trunc_ok\<close> is the outcome of the final flush.\<close>

definition demo_complete_system ::
  "(nat \<Rightarrow> bool \<times> bool) \<Rightarrow> bool \<Rightarrow> recorder \<Rightarrow> draw list \<Rightarrow> demo option" where
  "demo_complete_system env trunc_ok rc draws =
     (case spsc_new blank_quote 4096 of
        Inl _ \<Rightarrow> None
      | Inr q \<Rightarrow>
          map_option (\<lambda>s. s\<lparr>d_recorder := rc_flush trunc_ok (d_recorder s)\<rparr>)
            (demo_loop env 0 (take 50000 draws) (demo_init q rc)))"

subsection \<open>The report\<close>

text \<open>
  The numbers that the demo prints at its end. \<open>average\<close> returns a \<open>double\<close>, which the call of
  \<open>cycles_to_ns\<close> converts to a whole number of cycles; \<open>None\<close> is an undefined conversion or
  a division by zero milliseconds.
\<close>

record latency_report =
  rp_average :: "double option"
  rp_p50 :: "double option"
  rp_p95 :: "double option"
  rp_p99 :: "double option"
  rp_p999 :: "double option"

definition latency_report :: "(u64 \<Rightarrow> double \<Rightarrow> double) \<Rightarrow> lat_hist \<Rightarrow> latency_report" where
  "latency_report convert h =
     (let cpu_freq = 3; pct = (\<lambda>p. map_option (\<lambda>i. convert (of_nat i) cpu_freq) (lh_percentile p h))
      in \<lparr>rp_average = map_option (\<lambda>c. convert c cpu_freq) (to_u64 (lh_average h)),
          rp_p50 = pct (fl (1 / 2)), rp_p95 = pct (fl (95 / 100)), rp_p99 = pct (fl (99 / 100)),
          rp_p999 = pct (fl (999 / 1000))\<rparr>)"

record book_report =
  rp_bid :: double
  rp_bid_size :: u64
  rp_ask :: double
  rp_ask_size :: u64
  rp_spread :: double
  rp_orders :: nat

definition book_report :: "ebook \<Rightarrow> book_report" where
  "book_report b =
     (let snap = e_snapshot b
      in \<lparr>rp_bid = fl (of_i64 (snap_best_bid snap) / 10000), rp_bid_size = snap_best_bid_size snap,
          rp_ask = fl (of_i64 (snap_best_ask snap) / 10000), rp_ask_size = snap_best_ask_size snap,
          rp_spread = snap_spread snap, rp_orders = total_orders b\<rparr>)"

record demo_report =
  rp_messages :: nat
  rp_throughput :: "double option"
  rp_queue :: latency_report
  rp_book :: latency_report
  rp_pipeline :: latency_report
  rp_books :: "book_report list"
  rp_signals :: nat
  rp_ticks :: nat

definition demo_report :: "i64 \<Rightarrow> demo \<Rightarrow> demo_report" where
  "demo_report elapsed_ms s =
     \<lparr>rp_messages = 50000,
      rp_throughput = (if elapsed_ms = 0 then None else Some (fl (50000000 / of_i64 elapsed_ms))),
      rp_queue = latency_report cycles_to_ns (d_parse_latency s),
      rp_book = latency_report cycles_to_ns (d_book_latency s),
      rp_pipeline = latency_report cycles_to_us (d_e2e_latency s),
      rp_books = map book_report (d_books s), rp_signals = length (d_signals s),
      rp_ticks = rc_count (d_recorder s)\<rparr>"

text \<open>No percentile in the report exceeds the 1023 cycles of the last bucket, 341 ns.\<close>

lemma pct_loop_last: "i + length bs \<le> NUM_BUCKETS \<Longrightarrow> pct_loop bs i acc target \<le> 1023"
  by (induction bs i acc target rule: pct_loop.induct) (auto simp: NUM_BUCKETS_def)

lemma latency_report_saturates:
  assumes "length (buckets h) = NUM_BUCKETS" and "rp_p999 (latency_report cycles_to_ns h) = Some x"
  shows "x \<le> 341"
proof -
  obtain i where i: "lh_percentile (fl (999 / 1000)) h = Some i" "x = cycles_to_ns (of_nat i) 3"
    using assms(2) by (auto simp: latency_report_def Let_def)
  have "i \<le> 1023"
    using i(1) assms(1) pct_loop_last [of 0 "buckets h" 0]
    by (auto simp: lh_percentile_def split: if_splits option.splits)
  then have "of_u64 (of_nat i) = (of_nat i :: rat)" and "(of_nat i :: rat) / 3 \<le> 341"
    by (simp_all add: of_u64_nat)
  then have "x \<le> fl 341" unfolding i(2) cycles_to_ns_def by (simp only: fl_mono)
  then show ?thesis using fl_of_int [of 341] by simp
qed

subsection \<open>The books of the demo\<close>

text \<open>
  The ids that the iterations before \<open>i\<close> have added to book \<open>j\<close>, and what keeps the spread small:
  some bid and some ask of one quote are still on the book.
\<close>

definition demo_ids :: "nat \<Rightarrow> nat \<Rightarrow> nat set" where
  "demo_ids j i = {m. m div 2 < i \<and> m div 2 mod 5 = 0 \<and> m div 2 mod 3 = j}"

definition fair_prices :: "(i64 \<Rightarrow> i64 \<Rightarrow> bool) \<Rightarrow> levels \<Rightarrow> bool" where
  "fair_prices lt m \<longleftrightarrow> om_wf lt m \<and>
     (\<forall>p. depth_of lt m p \<noteq> None \<longrightarrow> 0 < sint p \<and> sint p < 2 ^ 40)"

definition tight :: "ebook \<Rightarrow> bool" where
  "tight b \<longleftrightarrow> fair_prices bid_before (e_bids b) \<and> fair_prices ask_before (e_asks b) \<and>
     (e_bids b = [] \<and> e_asks b = [] \<or>
      (\<exists>p a. depth_of bid_before (e_bids b) p \<noteq> None \<and> depth_of ask_before (e_asks b) a \<noteq> None \<and>
         sint a \<le> sint p + 50))"

lemma sint_add_small:
  fixes a b :: i64
  assumes "\<bar>sint a\<bar> < 2 ^ 62" and "\<bar>sint b\<bar> < 2 ^ 62"
  shows "sint (a + b) = sint a + sint b" and "sint (a - b) = sint a - sint b"
proof -
  have "sint (a + b) = signed_take_bit 63 (sint a + sint b)" by (simp add: sint_word_ariths)
  also have "\<dots> = sint a + sint b" using assms by (intro signed_take_bit_int_eq_self) auto
  finally show "sint (a + b) = sint a + sint b" .
  have "sint (a - b) = signed_take_bit 63 (sint a - sint b)" by (simp add: sint_word_ariths)
  also have "\<dots> = sint a - sint b" using assms by (intro signed_take_bit_int_eq_self) auto
  finally show "sint (a - b) = sint a - sint b" .
qed

lemma tight_new: "tight (ebook_new nm)"
  by (simp add: tight_def ebook_new_def fair_prices_def depth_of_def)

text \<open>A tight book has a spread of at most 50 ticks, which is below the threshold.\<close>

lemma small_spread: "fl (50 / 10000) < fl (5 / 100)"
proof -
  have grid: "fl (1 / 64) = 1 / 64" "fl (1 / 32) = 1 / 32"
    using fl_grid [of 1 "- 6"] fl_grid [of 1 "- 5"] by (simp_all add: power_int_minus)
  have "fl (50 / 10000) \<le> fl (1 / 64)" and "fl (1 / 32) \<le> fl (5 / 100)"
    by (rule fl_mono; simp)+
  with grid show ?thesis by linarith
qed

lemma tight_spread:
  assumes "tight b"
  shows "e_spread b < fl (5 / 100)"
proof (cases "e_bids b = [] \<and> e_asks b = []")
  case True
  have "fl 0 < fl (5 / 100)"
    using small_spread fl_mono [of 0 "50 / 10000"] by simp
  with True show ?thesis
    by (simp add: e_spread_def e_best_bid_def best_price_def spread_of_def)
next
  case False
  let ?db = "depth_of bid_before (e_bids b)" and ?da = "depth_of ask_before (e_asks b)"
  have wf: "om_wf bid_before (e_bids b)" "om_wf ask_before (e_asks b)"
    using assms by (auto simp: tight_def fair_prices_def)
  obtain p a where pa: "?db p \<noteq> None" "?da a \<noteq> None" "sint a \<le> sint p + 50"
    using False assms by (auto simp: tight_def)
  obtain P A where PA: "best_price (e_bids b) = Some P" "best_price (e_asks b) = Some A"
    using bid_side.best_price_None_iff [OF wf(1)] ask_side.best_price_None_iff [OF wf(2)] pa
    by (metis not_None_eq)
  have P: "?db P \<noteq> None" and "p = P \<or> bid_before P p"
    using PA(1) pa(1) unfolding bid_side.best_price_iff [OF wf(1)] by blast+
  then have pP: "sint p \<le> sint P" by (auto simp: bid_before_def word_sless_alt)
  have A: "?da A \<noteq> None" and "a = A \<or> ask_before A a"
    using PA(2) pa(2) unfolding ask_side.best_price_iff [OF wf(2)] by blast+
  then have aA: "sint A \<le> sint a" by (auto simp: ask_before_def word_sless_alt)
  have r: "0 < sint P" "sint P < 2 ^ 40" "0 < sint A" "sint A < 2 ^ 40"
    using assms P A by (auto simp: tight_def fair_prices_def)
  then have d: "sint (A - P) = sint A - sint P" by (intro sint_add_small(2)) simp_all
  then have le: "sint (A - P) \<le> 50" "\<bar>sint (A - P)\<bar> \<le> 2 ^ 53" using pP aA pa(3) r by simp_all
  have "of_i64 (A - P) = of_int (sint (A - P))" unfolding of_i64_def by (rule fl_of_int [OF le(2)])
  also have "\<dots> \<le> of_int 50" by (rule of_int_le_iff [THEN iffD2, OF le(1)])
  finally have "of_i64 (A - P) / 10000 \<le> 50 / 10000" by simp
  then have "fl (of_i64 (A - P) / 10000) \<le> fl (50 / 10000)" by (rule fl_mono)
  with small_spread PA show ?thesis
    by (simp add: e_spread_def e_best_bid_def e_best_ask_def spread_of_def)
qed

lemma tight_no_signal:
  assumes "tight b"
  shows "on_quote_update (e_snapshot b) demo_strategy = (None, demo_strategy)"
proof -
  have "snap_spread (e_snapshot b) < spread_threshold demo_strategy"
    using tight_spread [OF assms]
    by (simp add: e_snapshot_def demo_strategy_def set_signal_callback_def set_imbalance_threshold_def
        set_spread_threshold_def)
  then show ?thesis by (simp add: on_quote_update_def)
qed

text \<open>Adding both sides of a quote keeps the book tight.\<close>

lemma fair_add:
  assumes "fair_prices bid_before m" and "0 < sint p" and "sint p < 2 ^ 40"
  shows "fair_prices bid_before (level_add bid_before p q m)"
  using assms
  by (auto simp: fair_prices_def bid_side.depth_add spec_add_def intro: bid_side.level_wf)

lemma fair_add_ask:
  assumes "fair_prices ask_before m" and "0 < sint p" and "sint p < 2 ^ 40"
  shows "fair_prices ask_before (level_add ask_before p q m)"
  using assms
  by (auto simp: fair_prices_def ask_side.depth_add spec_add_def intro: ask_side.level_wf)

lemma add_quote:
  assumes "orders b i = None" and "orders b j = None" and "i \<noteq> j"
    and c_def: "c = snd (add_order j CHR ''S'' a y ts (snd (add_order i CHR ''B'' p x ts b)))"
  shows "dom (orders c) = insert i (insert j (dom (orders b)))"
    and "e_bids c = level_add bid_before p x (e_bids b)"
    and "e_asks c = level_add ask_before a y (e_asks b)"
  using assms
  by (auto simp: c_def add_order_def add_to_price_level_def level_insert_def is_bid_def new_order_def
      put_order_def e_stamp_def Let_def)

lemma tight_add:
  assumes "tight b" and "orders b i = None" and "orders b j = None" and "i \<noteq> j"
    and "0 < sint p" and "sint p < 2 ^ 40" and "0 < sint a" and "sint a < 2 ^ 40" and "sint a \<le> sint p + 50"
  shows "tight (snd (add_order j CHR ''S'' a y ts (snd (add_order i CHR ''B'' p x ts b))))"
proof -
  have "depth_of bid_before (level_add bid_before p x (e_bids b)) p \<noteq> None"
    "depth_of ask_before (level_add ask_before a y (e_asks b)) a \<noteq> None"
    by (simp_all add: bid_side.depth_add ask_side.depth_add spec_add_def)
  with assms show ?thesis
    unfolding tight_def add_quote(2,3) [OF assms(2-4) refl]
    by (auto intro: fair_add fair_add_ask)
qed

text \<open>The ids: iteration \<open>i\<close> adds \<open>2 i\<close> and \<open>2 i + 1\<close> when it adds at all.\<close>

lemma demo_ids_Suc:
  "demo_ids j (Suc i) = (if i mod 5 = 0 \<and> i mod 3 = j then {2 * i, 2 * i + 1} else {}) \<union> demo_ids j i"
proof -
  have "m div 2 < Suc i \<longleftrightarrow> m div 2 < i \<or> m = 2 * i \<or> m = 2 * i + 1" for m by presburger
  then show ?thesis by (auto simp: demo_ids_def)
qed

lemma demo_ids_0 [simp]: "demo_ids j 0 = {}"
  by (simp add: demo_ids_def)

lemma demo_ids_less: "m \<in> demo_ids j i \<Longrightarrow> m < 2 * i"
  unfolding demo_ids_def by (simp, presburger)

lemma demo_ids_finite: "finite (demo_ids j i)"
  by (rule finite_subset [of _ "{..<2 * i}"]) (auto dest: demo_ids_less)

definition demo_adds_count :: "nat \<Rightarrow> nat \<Rightarrow> nat" where
  "demo_adds_count j n = length (filter (\<lambda>i. i mod 5 = 0 \<and> i mod 3 = j) [0..<n])"

lemma card_demo_ids: "card (demo_ids j i) = 2 * demo_adds_count j i"
proof (induction i)
  case (Suc i)
  have "{2 * i, 2 * i + 1} \<inter> demo_ids j i = {}" using demo_ids_less by fastforce
  then show ?case
    using Suc demo_ids_finite [of j i]
    by (auto simp: demo_ids_Suc demo_adds_count_def card_insert_if dest: demo_ids_less)
qed (simp add: demo_adds_count_def)

text \<open>Ids below \<open>2 ^ 64\<close> stay apart as 64-bit words.\<close>

lemma id_in_image:
  assumes "m < 2 ^ 20" and "i \<le> 50000"
  shows "(of_nat m :: u64) \<in> of_nat ` demo_ids j i \<longleftrightarrow> m \<in> demo_ids j i"
proof
  assume "(of_nat m :: u64) \<in> of_nat ` demo_ids j i"
  then obtain k where k: "(of_nat m :: u64) = of_nat k" "k \<in> demo_ids j i" by auto
  have "k < 2 ^ LENGTH(64)" and "m < 2 ^ LENGTH(64)" using demo_ids_less [OF k(2)] assms by simp_all
  with k show "m \<in> demo_ids j i" using of_nat_eq_iff_small by blast
qed simp

lemma card_image_ids:
  assumes "i \<le> 50000"
  shows "card ((of_nat :: nat \<Rightarrow> u64) ` demo_ids j i) = 2 * demo_adds_count j i"
proof -
  have "inj_on (of_nat :: nat \<Rightarrow> u64) (demo_ids j i)"
  proof (rule inj_onI)
    fix a b assume "a \<in> demo_ids j i" "b \<in> demo_ids j i" and e: "(of_nat a :: u64) = of_nat b"
    then have "a < 2 ^ LENGTH(64)" and "b < 2 ^ LENGTH(64)" using assms by (auto dest!: demo_ids_less)
    with e show "a = b" using of_nat_eq_iff_small by blast
  qed
  then show ?thesis by (simp add: card_image card_demo_ids)
qed

text \<open>The id that an iteration which does not add looks for was never added to its book.\<close>

lemma demo_misses:
  "i mod 5 \<noteq> 0 \<Longrightarrow> 2 * i \<notin> demo_ids j i"
  "0 < i \<Longrightarrow> (i - 1) * 2 \<notin> demo_ids (i mod 3) i"
  "0 < i \<Longrightarrow> (i - 1) * 2 + 1 \<notin> demo_ids (i mod 3) i"
proof -
  show "2 * i \<notin> demo_ids j i" by (simp add: demo_ids_def)
  have "n * 2 \<notin> demo_ids (Suc n mod 3) (Suc n)" and "n * 2 + 1 \<notin> demo_ids (Suc n mod 3) (Suc n)" for n
  proof -
    have "n mod 3 \<noteq> Suc n mod 3" by (simp add: mod_Suc)
    then show "n * 2 \<notin> demo_ids (Suc n mod 3) (Suc n)" and "n * 2 + 1 \<notin> demo_ids (Suc n mod 3) (Suc n)"
      unfolding demo_ids_def by simp_all
  qed
  then show "0 < i \<Longrightarrow> (i - 1) * 2 \<notin> demo_ids (i mod 3) i"
    and "0 < i \<Longrightarrow> (i - 1) * 2 + 1 \<notin> demo_ids (i mod 3) i"
    by (metis Suc_pred')+
qed

lemma demo_op_misses:
  assumes "dom (orders b) = of_nat ` demo_ids (i mod 3) i" and "i \<le> 50000" and "i mod 5 \<noteq> 0"
  shows "demo_book_op i msg ts b = b"
proof -
  have none: "orders b (of_nat m) = None" if "m \<notin> demo_ids (i mod 3) i" "m < 2 ^ 20" for m
  proof -
    have "(of_nat m :: u64) \<notin> dom (orders b)"
      unfolding assms(1) using id_in_image [OF that(2) assms(2)] that(1) by blast
    then show ?thesis by (simp add: domIff)
  qed
  have "orders b (of_nat (i * 2)) = None"
    using demo_misses(1) [OF assms(3), of "i mod 3"] assms(2) by (intro none) (simp_all add: mult.commute)
  moreover have "orders b (of_nat ((i - 1) * 2)) = None" and "orders b (of_nat ((i - 1) * 2 + 1)) = None"
    if "0 < i"
    using demo_misses(2,3) [OF that] assms(2) by (intro none; simp)+
  ultimately show ?thesis
    unfolding demo_book_op_def execute_order_def cancel_order_def modify_order_def
    using assms(3) by simp
qed

definition draw_ok :: "nat \<Rightarrow> draw \<Rightarrow> bool" where
  "draw_ok i d \<longleftrightarrow>
     (case [(1480000, 1520000), (3800000, 3850000), (14000000, 14200000)] ! (i mod 3) of (lo, hi) \<Rightarrow>
        lo \<le> sint (dr_bid_price d) \<and> sint (dr_bid_price d) \<le> hi) \<and>
     5 \<le> sint (dr_spread d) \<and> sint (dr_spread d) \<le> 50"

lemma draw_range:
  assumes "draw_ok i d"
  shows "0 < sint (dr_bid_price d)" and "sint (dr_bid_price d) \<le> 14200000"
proof -
  have "i mod 3 = 0 \<or> i mod 3 = 1 \<or> i mod 3 = 2" by presburger
  with assms show "0 < sint (dr_bid_price d)" and "sint (dr_bid_price d) \<le> 14200000"
    by (auto simp: draw_ok_def)
qed

lemma demo_fresh:
  assumes "dom (orders b) = of_nat ` demo_ids (i mod 3) i" and "i < 50000"
  shows "orders b (of_nat (i * 2)) = None" and "orders b (of_nat (i * 2 + 1)) = None"
    and "(of_nat (i * 2) :: u64) \<noteq> of_nat (i * 2 + 1)"
proof -
  have none: "orders b (of_nat m) = None" if "2 * i \<le> m" "m \<le> 2 * i + 1" for m
  proof -
    have "m \<notin> demo_ids (i mod 3) i" using that(1) demo_ids_less by fastforce
    moreover have "m < 2 ^ 20" using that(2) assms(2) by simp
    ultimately have "(of_nat m :: u64) \<notin> dom (orders b)"
      unfolding assms(1) using id_in_image [of m i "i mod 3"] assms(2) by auto
    then show ?thesis by (simp add: domIff)
  qed
  show "orders b (of_nat (i * 2)) = None" and "orders b (of_nat (i * 2 + 1)) = None"
    by (rule none; simp)+
  show "(of_nat (i * 2) :: u64) \<noteq> of_nat (i * 2 + 1)"
    using assms(2) by (subst of_nat_eq_iff_small) simp_all
qed

lemma demo_op_adds:
  assumes "dom (orders b) = of_nat ` demo_ids (i mod 3) i" and "i < 50000" and "tight b" and "draw_ok i d"
  shows "dom (orders (demo_book_op i (demo_quote i d ts) ts b)) = of_nat ` demo_ids (i mod 3) (Suc i) \<and>
    tight (demo_book_op i (demo_quote i d ts) ts b)"
proof (cases "i mod 5 = 0")
  case True
  note fresh = demo_fresh [OF assms(1,2)]
  let ?p = "dr_bid_price d"
  have p: "0 < sint ?p" "sint ?p \<le> 14200000" "5 \<le> sint (dr_spread d)" "sint (dr_spread d) \<le> 50"
    using draw_range [OF assms(4)] assms(4) by (simp_all add: draw_ok_def)
  then have "sint (?p + dr_spread d) = sint ?p + sint (dr_spread d)" by (intro sint_add_small) simp_all
  with p have "tight (demo_book_op i (demo_quote i d ts) ts b)"
    unfolding demo_book_op_def if_P [OF True]
    by (intro tight_add [OF assms(3) fresh]) (simp_all add: demo_quote_def)
  moreover have "dom (orders (demo_book_op i (demo_quote i d ts) ts b)) =
      insert (of_nat (i * 2)) (insert (of_nat (i * 2 + 1)) (of_nat ` demo_ids (i mod 3) i))"
    unfolding demo_book_op_def if_P [OF True] add_quote(1) [OF fresh refl] assms(1) ..
  ultimately show ?thesis using True by (simp add: demo_ids_Suc mult.commute)
next
  case False
  with assms demo_op_misses [OF assms(1) _ False] show ?thesis by (simp add: demo_ids_Suc)
qed

subsection \<open>The loop of the demo\<close>

text \<open>A book counts one message for every operation that found its order or a free id.\<close>

definition demo_book_ok :: "nat \<Rightarrow> nat \<Rightarrow> ebook \<Rightarrow> bool" where
  "demo_book_ok j i b \<longleftrightarrow> tight b \<and> dom (orders b) = of_nat ` demo_ids j i \<and>
     e_message_count b = of_nat (2 * demo_adds_count j i)"

definition demo_inv :: "nat \<Rightarrow> demo \<Rightarrow> bool" where
  "demo_inv i s \<longleftrightarrow>
     spsc_ok 12 (d_queue s) \<and> spsc_contents 12 (d_queue s) = [] \<and>
     length (d_books s) = 3 \<and> (\<forall>j<3. demo_book_ok j i (d_books s ! j)) \<and>
     d_strategy s = demo_strategy \<and> d_signals s = [] \<and>
     (\<exists>ts. recorded (d_recorder s) ts \<and> length ts = 2 * i) \<and>
     lh_count (d_parse_latency s) = of_nat i \<and> lh_count (d_book_latency s) = of_nat i \<and>
     lh_count (d_e2e_latency s) = of_nat i"

lemma adds_count_Suc:
  "demo_adds_count j (Suc i) = demo_adds_count j i + (if i mod 5 = 0 \<and> i mod 3 = j then 1 else 0)"
  by (simp add: demo_adds_count_def)

lemma other_book_ok: "j \<noteq> i mod 3 \<Longrightarrow> demo_book_ok j i b \<Longrightarrow> demo_book_ok j (Suc i) b"
  by (simp add: demo_book_ok_def demo_ids_Suc adds_count_Suc)

lemma add_counts:
  assumes "orders b i = None" and "orders b j = None" and "i \<noteq> j"
  shows "e_message_count (snd (add_order j CHR ''S'' a y ts (snd (add_order i CHR ''B'' p x ts b)))) =
    e_message_count b + 2"
  using assms
  by (simp add: add_order_def add_to_price_level_def level_insert_def is_bid_def new_order_def
      put_order_def e_stamp_def Let_def)

lemma demo_op_ok:
  assumes "demo_book_ok (i mod 3) i b" and "i < 50000" and "draw_ok i d"
  shows "demo_book_ok (i mod 3) (Suc i) (demo_book_op i (demo_quote i d ts) ts b)"
proof -
  have b: "tight b" "dom (orders b) = of_nat ` demo_ids (i mod 3) i"
    "e_message_count b = of_nat (2 * demo_adds_count (i mod 3) i)"
    using assms(1) by (simp_all add: demo_book_ok_def)
  have "e_message_count (demo_book_op i (demo_quote i d ts) ts b) =
      of_nat (2 * demo_adds_count (i mod 3) (Suc i))"
  proof (cases "i mod 5 = 0")
    case True
    have "e_message_count (demo_book_op i (demo_quote i d ts) ts b) = e_message_count b + 2"
      unfolding demo_book_op_def if_P [OF True]
      by (rule add_counts) (use demo_fresh [OF b(2) assms(2)] in simp_all)
    with True b(3) show ?thesis by (simp add: adds_count_Suc)
  next
    case False
    with demo_op_misses [OF b(2) _ False] assms(2) b(3) show ?thesis by (simp add: adds_count_Suc)
  qed
  with demo_op_adds [OF b(2) assms(2) b(1) assms(3)] show ?thesis by (simp add: demo_book_ok_def)
qed

lemma record_counts: "lh_count (lh_record c h) = lh_count h + 1"
  by (simp add: lh_record_def)

lemma demo_step_ok:
  assumes "demo_inv i s" and "i < 50000" and "draw_ok i d"
  shows "\<exists>t. demo_step (\<lambda>i. (True, True)) i d s = Some t \<and> demo_inv (Suc i) t"
proof -
  let ?msg = "demo_quote i d (d_timestamp s)"
  have q: "spsc_ok 12 (d_queue s)" "spsc_contents 12 (d_queue s) = []"
    using assms(1) by (simp_all add: demo_inv_def)
  have books: "demo_book_ok j i (d_books s ! j)" if "j < 3" for j
    using assms(1) that unfolding demo_inv_def by blast
  have other: "d_strategy s = demo_strategy" "d_signals s = []" "lh_count (d_parse_latency s) = of_nat i"
    "lh_count (d_book_latency s) = of_nat i" "lh_count (d_e2e_latency s) = of_nat i"
    and len: "length (d_books s) = 3"
    using assms(1) by (simp_all add: demo_inv_def)
  obtain ts where ts: "recorded (d_recorder s) ts" "length ts = 2 * i"
    using assms(1) by (auto simp: demo_inv_def)
  have "room_in (Some (2 ^ 12)) (spsc_contents 12 (d_queue s))" using q(2) by (simp add: room_in_def)
  then obtain q1 where q1: "try_push ?msg (d_queue s) = Some (True, q1)" "spsc_ok 12 q1"
      "spsc_contents 12 q1 = [?msg]"
    using spsc.enq_room [OF q(1), of ?msg] q(2) by auto
  obtain q2 where q2: "try_pop q1 = Some (Some ?msg, q2)" "spsc_ok 12 q2" "spsc_contents 12 q2 = []"
    using spsc.deq_cons [OF q1(2,3)] by auto
  obtain rc where rc: "record_op (\<lambda>i. (True, True)) (demo_quote_tick ?msg (d_timestamp s)) (d_recorder s) = Some rc"
      "recorded rc (ts @ op_records (demo_quote_tick ?msg (d_timestamp s)))"
    using recorded_op [OF ts(1)] by blast
  define b where "b = demo_book_op i ?msg (d_timestamp s) (d_books s ! (i mod 3))"
  have b: "demo_book_ok (i mod 3) (Suc i) b"
    unfolding b_def using books assms(2,3) by (intro demo_op_ok) simp_all
  then have "on_quote_update (e_snapshot b) demo_strategy = (None, demo_strategy)"
    by (intro tight_no_signal) (simp add: demo_book_ok_def)
  moreover have "demo_book_ok j (Suc i) ((d_books s)[i mod 3 := b] ! j)" if "j < 3" for j
    using b other_book_ok books [OF that] len that by (cases "j = i mod 3") auto
  moreover have "length (op_records (demo_quote_tick ?msg (d_timestamp s))) = 2"
    by (simp add: demo_quote_tick_def)
  ultimately show ?thesis
    using q1(1) q2 rc other len ts(2)
    by (auto simp: demo_step_def demo_process_def Let_def b_def [symmetric] demo_inv_def record_counts
        intro: exI [of _ "ts @ op_records (demo_quote_tick ?msg (d_timestamp s))"])
qed

lemma demo_loop_ok:
  assumes "demo_inv i s" and "i + length ds \<le> 50000" and "\<forall>(j, d)\<in>set (enumerate i ds). draw_ok j d"
  shows "\<exists>t. demo_loop (\<lambda>i. (True, True)) i ds s = Some t \<and>
    demo_inv (i + length (takeWhile dr_running ds)) t"
  using assms
proof (induction ds arbitrary: i s)
  case (Cons d ds)
  have "draw_ok i d" and "\<forall>(j, d)\<in>set (enumerate (Suc i) ds). draw_ok j d"
    using Cons.prems(3) by simp_all
  moreover obtain t where "demo_step (\<lambda>i. (True, True)) i d s = Some t" "demo_inv (Suc i) t"
    using demo_step_ok [OF Cons.prems(1) _ \<open>draw_ok i d\<close>] Cons.prems(2) by auto
  ultimately show ?case using Cons.IH [of "Suc i" t] Cons.prems(1,2) by auto
qed simp

lemma demo_init_inv:
  assumes "spsc_ok 12 q" and "spsc_contents 12 q = []" and "recorded rc []"
  shows "demo_inv 0 (demo_init q rc)"
proof -
  have "demo_book_ok j 0 (ebook_new nm)" for j nm
    using tight_new by (simp add: demo_book_ok_def demo_adds_count_def ebook_new_def)
  moreover have "map ebook_new [''AAPL'', ''MSFT'', ''GOOGL''] ! j = ebook_new ([''AAPL'', ''MSFT'', ''GOOGL''] ! j)"
    if "j < 3" for j using that by (intro nth_map) simp
  ultimately show ?thesis using assms
    unfolding demo_inv_def by (simp add: demo_init_def lh_new_def)
qed

lemma demo_books_report:
  assumes "demo_inv n s" and "n \<le> 50000"
  shows "map total_orders (d_books s) = map (\<lambda>j. 2 * demo_adds_count j n) [0, 1, 2] \<and>
    map e_message_count (d_books s) = map (\<lambda>j. of_nat (2 * demo_adds_count j n)) [0, 1, 2]"
proof -
  have b: "demo_book_ok j n (d_books s ! j)" if "j < 3" for j
    using assms(1) that unfolding demo_inv_def by blast
  have "total_orders (d_books s ! j) = 2 * demo_adds_count j n" if "j < 3" for j
    using b [OF that] card_image_ids [OF assms(2)] by (simp add: total_orders_def demo_book_ok_def)
  moreover have "e_message_count (d_books s ! j) = of_nat (2 * demo_adds_count j n)" if "j < 3" for j
    using b [OF that] by (simp add: demo_book_ok_def)
  moreover obtain x y z where "d_books s = [x, y, z]"
    using assms(1) by (auto simp: demo_inv_def length_Suc_conv numeral_3_eq_3)
  ultimately show ?thesis
    by (metis (no_types, lifting) One_nat_def less_Suc_eq list.map nth_Cons_0 nth_Cons_Suc numeral_2_eq_2
        numeral_3_eq_3 zero_less_Suc)
qed


definition sample_draw :: draw where
  "sample_draw =
     \<lparr>dr_running = True, dr_bid_price = 1500000, dr_bid_size = 500, dr_spread = 20, dr_ask_size = 300,
      dr_pause = 7, dr_parse_cycles = 90, dr_book_cycles = 200, dr_e2e_cycles = 700\<rparr>"


end
