(* ===== verification/Demo_Itch.thy ===== *)
theory Demo_Itch
  imports Enhanced_Book Itch Tick "HOL-Library.Signed_Division"
begin

text \<open>
  \<open>demo_itch_processing\<close> and \<open>generate_sample_data\<close> of \<open>src/main.cpp\<close>: the message stream
  that the first builds, the parser and the book it drives with it, and the tick file that the
  second writes. The random draws of the second are arguments.
\<close>

subsection \<open>Raw structs\<close>

text \<open>
  The bytes of a packed \<open>AddOrder\<close> in memory: every field little-endian. The demo fills the
  fields with swapped values.
\<close>

definition struct_bytes :: "add_order_msg \<Rightarrow> u8 list" where
  "struct_bytes m =
     le_bytes 2 (ao_length m) @ [ao_type m] @ le_bytes 2 (ao_stock_locate m) @
     le_bytes 2 (ao_tracking_number m) @ le_bytes 8 (ao_timestamp m) @
     le_bytes 8 (ao_order_reference m) @ [ao_buy_sell m] @ le_bytes 4 (ao_shares m) @
     ao_stock m @ le_bytes 4 (ao_price m)"

definition demo_struct :: "nat \<Rightarrow> u64 \<Rightarrow> u64 \<Rightarrow> add_order_msg" where
  "demo_struct i ref ts =
     \<lparr>ao_length = swap_uint16 (of_nat sizeof_add_order_msg), ao_type = ch CHR ''A'',
      ao_stock_locate = swap_uint16 1, ao_tracking_number = swap_uint16 (of_nat i),
      ao_timestamp = swap_uint64 ts, ao_order_reference = swap_uint64 ref,
      ao_buy_sell = ch (if i mod 2 = 0 then CHR ''B'' else CHR ''S''),
      ao_shares = swap_uint32 (of_nat (100 + i * 10)), ao_stock = map ch ''AAPL    '',
      ao_price = swap_uint32 (of_nat (1500000 + i * 100))\<rparr>"

fun demo_build :: "nat list \<Rightarrow> u64 \<Rightarrow> u64 \<Rightarrow> u8 list" where
  "demo_build [] ref ts = []"
| "demo_build (i # is') ref ts =
     (if i mod 3 = 0
      then struct_bytes (demo_struct i ref ts) @ demo_build is' (ref + 1) (ts + 1000000)
      else demo_build is' ref (ts + 1000000))"

subsection \<open>The loop\<close>

text \<open>What the demo does with a message: only add orders reach the book.\<close>

definition itch_apply :: "itch_message \<Rightarrow> ebook \<Rightarrow> ebook" where
  "itch_apply m b =
     (case m of
        AddOrder a \<Rightarrow>
          snd (add_order (ao_order_reference a) (char_of_u8 (ao_buy_sell a)) (ucast (ao_price a))
                 (ucast (ao_shares a)) (ao_timestamp a) b)
      | _ \<Rightarrow> b)"

partial_function (option) itch_demo_loop :: "parser \<Rightarrow> nat \<Rightarrow> ebook \<Rightarrow> (nat \<times> ebook) option" where
  "itch_demo_loop p msg_count book =
     (if has_more p
      then (case parse_next p of
              None \<Rightarrow> None
            | Some (msg, p') \<Rightarrow>
                (case msg of
                   None \<Rightarrow> itch_demo_loop p' msg_count book
                 | Some m \<Rightarrow> itch_demo_loop p' (msg_count + 1) (itch_apply m book)))
      else Some (msg_count, book))"

definition demo_itch_processing :: "(nat \<times> ebook) option" where
  "demo_itch_processing =
     itch_demo_loop (parser_new (demo_build [0..<100] 1000000 34200000000000)) 0 (ebook_new ''AAPL'')"

subsection \<open>The stream is well-formed ITCH\<close>

lemma le_bytes_nth: "i < n \<Longrightarrow> le_bytes n w ! i = ucast (drop_bit (8 * i) w)"
proof (induction n arbitrary: w i)
  case (Suc n)
  then show ?case by (cases i) (simp_all add: drop_bit_drop_bit add.commute)
qed simp

lemma le_bytes_le:
  assumes "length bs = n" and "8 * n \<le> LENGTH('n::len)"
  shows "le_bytes n (le bs :: 'n word) = bs"
proof (rule nth_equalityI)
  fix i assume "i < length (le_bytes n (le bs :: 'n word))"
  then have i: "i < n" by simp
  have "ucast (drop_bit (8 * i) (le bs :: 'n word)) = bs ! i"
  proof (rule bit_word_eqI)
    fix j assume "j < LENGTH(8)"
    then have "(8 * i + j) div 8 = i" "(8 * i + j) mod 8 = j" "8 * i + j < LENGTH('n)"
      using i assms(2) by simp_all
    then show "bit (ucast (drop_bit (8 * i) (le bs :: 'n word)) :: u8) j = bit (bs ! i) j"
      using \<open>j < LENGTH(8)\<close> i assms(1) by (simp add: bit_simps bit_le)
  qed
  then show "le_bytes n (le bs :: 'n word) ! i = bs ! i" by (simp add: le_bytes_nth i)
qed (simp add: assms)

lemma swapped_bytes:
  "le_bytes 2 (swap_uint16 v) = be_bytes 2 v" "le_bytes 4 (swap_uint32 w) = be_bytes 4 w"
  "le_bytes 8 (swap_uint64 x) = be_bytes 8 x"
proof -
  have "swap_uint16 v = le (be_bytes 2 v)"
    using swap16_be [of "le_bytes 2 v"] by (simp add: le_le_bytes_full be_def be_bytes_def)
  then show "le_bytes 2 (swap_uint16 v) = be_bytes 2 v" by (simp add: le_bytes_le)
  have "swap_uint32 w = le (be_bytes 4 w)"
    using swap32_be [of "le_bytes 4 w"] by (simp add: le_le_bytes_full be_def be_bytes_def)
  then show "le_bytes 4 (swap_uint32 w) = be_bytes 4 w" by (simp add: le_bytes_le)
  have "swap_uint64 x = le (be_bytes 8 x)"
    using swap64_be [of "le_bytes 8 x"] by (simp add: le_le_bytes_full be_def be_bytes_def)
  then show "le_bytes 8 (swap_uint64 x) = be_bytes 8 x" by (simp add: le_bytes_le)
qed

text \<open>The message that iteration \<open>i\<close> means, and those of the whole stream.\<close>

definition demo_msg :: "nat \<Rightarrow> u64 \<Rightarrow> u64 \<Rightarrow> add_order_msg" where
  "demo_msg i ref ts =
     \<lparr>ao_length = of_nat sizeof_add_order_msg, ao_type = ch CHR ''A'', ao_stock_locate = 1,
      ao_tracking_number = of_nat i, ao_timestamp = ts, ao_order_reference = ref,
      ao_buy_sell = ch (if i mod 2 = 0 then CHR ''B'' else CHR ''S''),
      ao_shares = of_nat (100 + i * 10), ao_stock = map ch ''AAPL    '',
      ao_price = of_nat (1500000 + i * 100)\<rparr>"

fun demo_msgs :: "nat list \<Rightarrow> u64 \<Rightarrow> u64 \<Rightarrow> add_order_msg list" where
  "demo_msgs [] ref ts = []"
| "demo_msgs (i # is') ref ts =
     (if i mod 3 = 0 then demo_msg i ref ts # demo_msgs is' (ref + 1) (ts + 1000000)
      else demo_msgs is' ref (ts + 1000000))"

definition the_demo_msgs :: "add_order_msg list" where
  "the_demo_msgs = demo_msgs [0..<100] 1000000 34200000000000"

lemma demo_struct_encodes: "struct_bytes (demo_struct i ref ts) = encode_message (AddOrder (demo_msg i ref ts))"
  by (simp add: struct_bytes_def demo_struct_def demo_msg_def encode_add_order_msg_def swapped_bytes)

lemma demo_build_encodes: "demo_build is' ref ts = concat (map (encode_message \<circ> AddOrder) (demo_msgs is' ref ts))"
  by (induction is' ref ts rule: demo_build.induct) (simp_all add: demo_struct_encodes)

lemma demo_msgs_valid: "m \<in> set (demo_msgs is' ref ts) \<Longrightarrow> valid_message (AddOrder m)"
  by (induction is' ref ts rule: demo_msgs.induct)
    (auto simp: demo_msg_def valid_add_order_msg_def split: if_splits)

lemma itch_loop_messages:
  assumes "\<forall>m\<in>set ms. valid_message m"
  shows "itch_demo_loop (parser_at (pre @ concat (map encode_message ms)) (length pre)) n b =
    Some (n + length ms, fold itch_apply ms b)"
  using assms
proof (induction ms arbitrary: pre n b)
  case Nil
  show ?case by (simp add: itch_demo_loop.simps itch.more_iff)
next
  case (Cons m ms)
  let ?buf = "pre @ encode_message m @ concat (map encode_message ms)"
  have "has_more (parser_at ?buf (length pre))"
    using itch.encode_nonempty [of m] by (cases "encode_message m") (simp_all add: itch.more_iff)
  moreover have "parse_next (parser_at ?buf (length pre)) =
      Some (Some m, parser_at ?buf (length (pre @ encode_message m)))"
    using Cons.prems itch.parse_encoded [of m pre "concat (map encode_message ms)"] by simp
  ultimately show ?case
    using Cons.IH [of "pre @ encode_message m" "n + 1" "itch_apply m b"] Cons.prems
    by (subst itch_demo_loop.simps) simp
qed

lemma demo_itch_result:
  "demo_itch_processing =
     Some (length the_demo_msgs, fold itch_apply (map AddOrder the_demo_msgs) (ebook_new ''AAPL''))"
proof -
  have "\<forall>m\<in>set (map AddOrder the_demo_msgs). valid_message m"
    using demo_msgs_valid unfolding the_demo_msgs_def by auto
  from itch_loop_messages [OF this, of "[]"] show ?thesis
    unfolding demo_itch_processing_def parser_new_def demo_build_encodes the_demo_msgs_def [symmetric] by simp
qed

text \<open>Orders with distinct references all stay on the book.\<close>

lemma itch_apply_orders:
  "dom (orders (itch_apply (AddOrder m) b)) = insert (ao_order_reference m) (dom (orders b))"
  by (auto simp: itch_apply_def add_order_def Let_def frame_simp put_order_def e_stamp_def)

lemma itch_adds_orders:
  "dom (orders (fold itch_apply (map AddOrder ms) b)) = ao_order_reference ` set ms \<union> dom (orders b)"
  by (induction ms arbitrary: b) (auto simp: itch_apply_orders)

text \<open>The references, sides and prices of the stream.\<close>

definition demo_px :: "nat \<Rightarrow> u64" where
  "demo_px i = of_nat (1500000 + i * 100)"

lemma demo_msgs_sides:
  "map (\<lambda>m. (ao_buy_sell m, ucast (ao_price m) :: u64)) (demo_msgs is' ref ts) =
   map (\<lambda>i. (ch (if i mod 2 = 0 then CHR ''B'' else CHR ''S''), ucast (of_nat (1500000 + i * 100) :: u32)))
     (filter (\<lambda>i. i mod 3 = 0) is')"
  by (induction is' ref ts rule: demo_msgs.induct) (simp_all add: demo_msg_def)

lemma demo_msgs_length: "length (demo_msgs is' ref ts) = length (filter (\<lambda>i. i mod 3 = 0) is')"
  by (induction is' ref ts rule: demo_msgs.induct) simp_all

lemma demo_msgs_refs:
  "map ao_order_reference (demo_msgs is' ref ts) =
   map (\<lambda>k. ref + of_nat k) [0..<length (demo_msgs is' ref ts)]"
proof (induction is' ref ts rule: demo_msgs.induct)
  case (2 i is' ref ts)
  have "map (\<lambda>k. ref + of_nat k) [0..<Suc n] = ref # map (\<lambda>k. ref + 1 + of_nat k) [0..<n]" for n
    by (rule nth_equalityI) (auto simp: nth_Cons ac_simps simp del: upt_Suc split: nat.split)
  with 2 show ?case by (simp add: demo_msg_def del: upt_Suc)
qed simp

lemma demo_msgs_count: "length the_demo_msgs = 34"
  unfolding the_demo_msgs_def demo_msgs_length by code_simp

lemma demo_refs_distinct: "distinct (map ao_order_reference the_demo_msgs)"
proof -
  have "inj_on (\<lambda>k. 1000000 + of_nat k :: u64) {0..<34}"
  proof (rule inj_onI)
    fix j k assume "j \<in> {0..<34::nat}" "k \<in> {0..<34}" and "1000000 + of_nat j = (1000000 + of_nat k :: u64)"
    then show "j = k" using of_nat_eq_iff_small [of j k, where 'n = 64] by simp
  qed
  then show ?thesis
    using demo_msgs_refs [of "[0..<100]" 1000000 34200000000000] demo_msgs_count
    unfolding the_demo_msgs_def [symmetric] by (simp add: distinct_map)
qed

lemma char_of_u8_ch: "char_of_u8 (ch c) = c"
proof -
  have "(of_char c :: u8) = of_nat (of_char c)" by (simp add: of_char_def)
  then have "unat (ch c) = of_char c"
    using nat_of_char_less_256 [of c] by (simp add: unat_of_nat_small)
  then show ?thesis by (simp add: char_of_u8_def)
qed

text \<open>Which prices the adds leave on each side.\<close>

lemma itch_apply_sides:
  assumes "orders b (ao_order_reference m) = None" and "ao_buy_sell m = ch c"
  shows "e_bids (itch_apply (AddOrder m) b) =
      (if c = CHR ''B'' \<or> c = CHR ''b''
       then level_add bid_before (ucast (ao_price m)) (ucast (ao_shares m)) (e_bids b) else e_bids b)"
    and "e_asks (itch_apply (AddOrder m) b) =
      (if c = CHR ''B'' \<or> c = CHR ''b'' then e_asks b
       else level_add ask_before (ucast (ao_price m)) (ucast (ao_shares m)) (e_asks b))"
  using assms
  by (auto simp: itch_apply_def add_order_def Let_def add_to_price_level_def level_insert_def is_bid_def
      new_order_def put_order_def e_stamp_def char_of_u8_ch)

definition buy :: "add_order_msg \<Rightarrow> bool" where
  "buy m \<longleftrightarrow> ao_buy_sell m = ch CHR ''B''"

lemma itch_adds_levels:
  assumes "distinct (map ao_order_reference ms)"
    and "\<forall>m\<in>set ms. ao_order_reference m \<notin> dom (orders b) \<and> (buy m \<or> ao_buy_sell m = ch CHR ''S'')"
    and "om_wf bid_before (e_bids b)" and "om_wf ask_before (e_asks b)"
  defines "c \<equiv> fold itch_apply (map AddOrder ms) b"
  shows "om_wf bid_before (e_bids c) \<and> om_wf ask_before (e_asks c) \<and>
    (\<forall>p. (depth_of bid_before (e_bids c) p \<noteq> None \<longleftrightarrow>
       depth_of bid_before (e_bids b) p \<noteq> None \<or> (\<exists>m\<in>set ms. buy m \<and> ucast (ao_price m) = p)) \<and>
     (depth_of ask_before (e_asks c) p \<noteq> None \<longleftrightarrow>
       depth_of ask_before (e_asks b) p \<noteq> None \<or> (\<exists>m\<in>set ms. \<not> buy m \<and> ucast (ao_price m) = p)))"
  using assms(1-4) unfolding c_def
proof (induction ms arbitrary: b)
  case (Cons m ms)
  let ?b = "itch_apply (AddOrder m) b"
  have fresh: "orders b (ao_order_reference m) = None" using Cons.prems(2) by (simp add: domIff)
  have rest: "\<forall>k\<in>set ms. ao_order_reference k \<notin> dom (orders ?b) \<and> (buy k \<or> ao_buy_sell k = ch CHR ''S'')"
  proof
    fix k assume k: "k \<in> set ms"
    then have "ao_order_reference k \<noteq> ao_order_reference m"
      using Cons.prems(1) by (metis distinct.simps(2) imageI list.set_map list.simps(9))
    with k Cons.prems(2) show "ao_order_reference k \<notin> dom (orders ?b) \<and> (buy k \<or> ao_buy_sell k = ch CHR ''S'')"
      unfolding itch_apply_orders by simp
  qed
  have sides: "e_bids ?b = (if buy m then level_add bid_before (ucast (ao_price m)) (ucast (ao_shares m)) (e_bids b) else e_bids b)"
    "e_asks ?b = (if buy m then e_asks b else level_add ask_before (ucast (ao_price m)) (ucast (ao_shares m)) (e_asks b))"
    using Cons.prems(2) itch_apply_sides [OF fresh, of "CHR ''B''"] itch_apply_sides [OF fresh, of "CHR ''S''"]
    by (auto simp: buy_def ch_eq_iff)
  have wf: "om_wf bid_before (e_bids ?b)" "om_wf ask_before (e_asks ?b)"
    using Cons.prems(3,4) by (simp_all add: sides bid_side.level_wf ask_side.level_wf)
  have d: "depth_of bid_before (e_bids ?b) p \<noteq> None \<longleftrightarrow>
      depth_of bid_before (e_bids b) p \<noteq> None \<or> buy m \<and> ucast (ao_price m) = p"
    "depth_of ask_before (e_asks ?b) p \<noteq> None \<longleftrightarrow>
      depth_of ask_before (e_asks b) p \<noteq> None \<or> \<not> buy m \<and> ucast (ao_price m) = p" for p
    by (auto simp: sides bid_side.depth_add ask_side.depth_add spec_add_def)
  have "distinct (map ao_order_reference ms)" using Cons.prems(1) by simp
  note IH = Cons.IH [OF this rest wf]
  have f: "fold itch_apply (map AddOrder (m # ms)) b = fold itch_apply (map AddOrder ms) ?b" by simp
  show ?case unfolding f using IH unfolding d by auto
qed simp

lemma ucast_of_nat_u32: "n < 2 ^ 32 \<Longrightarrow> ucast (of_nat n :: u32) = (of_nat n :: u64)"
  by (simp add: unsigned_of_nat take_bit_nat_eq_self)

lemma sint_of_nat_u64: "n < 2 ^ 63 \<Longrightarrow> sint (of_nat n :: i64) = int n"
  by (simp add: signed_of_nat signed_take_bit_int_eq_self)

lemma demo_prices:
  "(\<exists>m\<in>set the_demo_msgs. buy m \<and> ucast (ao_price m) = p) \<longleftrightarrow>
     (\<exists>i\<in>{i. i < 100 \<and> i mod 3 = 0 \<and> i mod 2 = 0}. p = demo_px i)"
  "(\<exists>m\<in>set the_demo_msgs. \<not> buy m \<and> ucast (ao_price m) = p) \<longleftrightarrow>
     (\<exists>i\<in>{i. i < 100 \<and> i mod 3 = 0 \<and> i mod 2 = 1}. p = demo_px i)"
  "\<forall>m\<in>set the_demo_msgs. buy m \<or> ao_buy_sell m = ch CHR ''S''"
proof -
  let ?f = "\<lambda>m. (ao_buy_sell m, ucast (ao_price m) :: u64)"
  let ?is = "{i. i < 100 \<and> i mod 3 = 0}"
  let ?g = "\<lambda>i. (ch (if i mod 2 = 0 then CHR ''B'' else CHR ''S''), demo_px i)"
  have "?f ` set the_demo_msgs = ?g ` ?is"
  proof -
    have "?f ` set the_demo_msgs = set (map ?f the_demo_msgs)" by simp
    also have "\<dots> = ?g ` ?is"
      unfolding the_demo_msgs_def demo_msgs_sides demo_px_def by (auto simp: ucast_of_nat_u32 simp del: of_nat_add of_nat_mult)
    finally show ?thesis .
  qed
  then have mem: "x \<in> ?f ` set the_demo_msgs \<longleftrightarrow> x \<in> ?g ` ?is" for x by simp
  have sell: "\<not> buy m \<longleftrightarrow> ao_buy_sell m = ch CHR ''S''" if "m \<in> set the_demo_msgs" for m
  proof -
    have "?f m \<in> ?g ` ?is" using mem that by blast
    then obtain i where "ao_buy_sell m = ch (if i mod 2 = (0::nat) then CHR ''B'' else CHR ''S'')" by blast
    then show ?thesis unfolding buy_def by (cases "i mod 2 = 0") (simp_all only: ch_eq_iff, simp_all)
  qed
  then show "\<forall>m\<in>set the_demo_msgs. buy m \<or> ao_buy_sell m = ch CHR ''S''" by blast
  have side: "ch CHR ''B'' = ch (if i mod 2 = 0 then CHR ''B'' else CHR ''S'') \<longleftrightarrow> i mod 2 = 0"
    "ch CHR ''S'' = ch (if i mod 2 = 0 then CHR ''B'' else CHR ''S'') \<longleftrightarrow> i mod 2 = 1" for i :: nat
    by (simp_all only: ch_eq_iff) auto
  have mem: "(c, p) \<in> ?f ` set the_demo_msgs \<longleftrightarrow>
      (\<exists>i. (i < 100 \<and> i mod 3 = 0) \<and> c = ch (if i mod 2 = 0 then CHR ''B'' else CHR ''S'') \<and> p = demo_px i)" for c p
    unfolding mem by (simp only: image_iff Bex_def mem_Collect_eq prod.inject)
  have "(\<exists>m\<in>set the_demo_msgs. buy m \<and> ucast (ao_price m) = p) \<longleftrightarrow> (ch CHR ''B'', p) \<in> ?f ` set the_demo_msgs"
    by (auto simp: buy_def)
  also have "\<dots> \<longleftrightarrow> (\<exists>i\<in>{i. i < 100 \<and> i mod 3 = 0 \<and> i mod 2 = 0}. p = demo_px i)"
    unfolding mem side Bex_def mem_Collect_eq conj_assoc by (rule refl)
  finally show "(\<exists>m\<in>set the_demo_msgs. buy m \<and> ucast (ao_price m) = p) \<longleftrightarrow>
     (\<exists>i\<in>{i. i < 100 \<and> i mod 3 = 0 \<and> i mod 2 = 0}. p = demo_px i)" .
  have "(\<exists>m\<in>set the_demo_msgs. \<not> buy m \<and> ucast (ao_price m) = p) \<longleftrightarrow> (ch CHR ''S'', p) \<in> ?f ` set the_demo_msgs"
    using sell by auto
  also have "\<dots> \<longleftrightarrow> (\<exists>i\<in>{i. i < 100 \<and> i mod 3 = 0 \<and> i mod 2 = 1}. p = demo_px i)"
    unfolding mem side Bex_def mem_Collect_eq conj_assoc by (rule refl)
  finally show "(\<exists>m\<in>set the_demo_msgs. \<not> buy m \<and> ucast (ao_price m) = p) \<longleftrightarrow>
     (\<exists>i\<in>{i. i < 100 \<and> i mod 3 = 0 \<and> i mod 2 = 1}. p = demo_px i)" .
qed

lemma demo_px_less: "i < 100 \<Longrightarrow> j < 100 \<Longrightarrow> demo_px i <s demo_px j \<longleftrightarrow> i < j"
  unfolding demo_px_def word_sless_alt
  by (subst (1 2) sint_of_nat_u64) auto

definition the_demo_book :: ebook where
  "the_demo_book = fold itch_apply (map AddOrder the_demo_msgs) (ebook_new ''AAPL'')"

lemma demo_book_levels:
  "om_wf bid_before (e_bids the_demo_book)" "om_wf ask_before (e_asks the_demo_book)"
  "depth_of bid_before (e_bids the_demo_book) p \<noteq> None \<longleftrightarrow>
     (\<exists>i\<in>{i. i < 100 \<and> i mod 3 = 0 \<and> i mod 2 = 0}. p = demo_px i)"
  "depth_of ask_before (e_asks the_demo_book) p \<noteq> None \<longleftrightarrow>
     (\<exists>i\<in>{i. i < 100 \<and> i mod 3 = 0 \<and> i mod 2 = 1}. p = demo_px i)"
proof -
  let ?b = "ebook_new ''AAPL''" and ?ms = the_demo_msgs
  let ?c = "the_demo_book"
  have b: "dom (orders ?b) = {}" "e_bids ?b = []" "e_asks ?b = []" by (simp_all add: ebook_new_def)
  have "\<forall>m\<in>set ?ms. ao_order_reference m \<notin> dom (orders ?b) \<and> (buy m \<or> ao_buy_sell m = ch CHR ''S'')"
    using demo_prices(3) unfolding b(1) by blast
  moreover have "om_wf bid_before (e_bids ?b)" "om_wf ask_before (e_asks ?b)" unfolding b by simp_all
  ultimately have *: "om_wf bid_before (e_bids ?c) \<and> om_wf ask_before (e_asks ?c) \<and>
      (\<forall>p. (depth_of bid_before (e_bids ?c) p \<noteq> None \<longleftrightarrow>
         depth_of bid_before (e_bids ?b) p \<noteq> None \<or> (\<exists>m\<in>set ?ms. buy m \<and> ucast (ao_price m) = p)) \<and>
       (depth_of ask_before (e_asks ?c) p \<noteq> None \<longleftrightarrow>
         depth_of ask_before (e_asks ?b) p \<noteq> None \<or> (\<exists>m\<in>set ?ms. \<not> buy m \<and> ucast (ao_price m) = p)))"
    unfolding the_demo_book_def by (rule itch_adds_levels [OF demo_refs_distinct])
  have none: "depth_of bid_before (e_bids ?b) p = None" "depth_of ask_before (e_asks ?b) p = None" for p
    unfolding b by (simp_all add: depth_of_def)
  show "om_wf bid_before (e_bids ?c)" "om_wf ask_before (e_asks ?c)" using * by blast+
  show "depth_of bid_before (e_bids ?c) p \<noteq> None \<longleftrightarrow> (\<exists>i\<in>{i. i < 100 \<and> i mod 3 = 0 \<and> i mod 2 = 0}. p = demo_px i)"
    and "depth_of ask_before (e_asks ?c) p \<noteq> None \<longleftrightarrow> (\<exists>i\<in>{i. i < 100 \<and> i mod 3 = 0 \<and> i mod 2 = 1}. p = demo_px i)"
    using * [THEN conjunct2, THEN conjunct2, THEN spec, of p]
    by (simp_all only: none demo_prices(1,2) simp_thms)
qed

lemma demo_book_best: "e_best_bid the_demo_book = Some 1509600" "e_best_ask the_demo_book = Some 1500300"
proof -
  have "best_price (e_bids the_demo_book) = Some (demo_px 96)"
    unfolding bid_side.best_price_iff [OF demo_book_levels(1)] demo_book_levels(3)
  proof (intro conjI allI impI)
    fix q assume "\<exists>i\<in>{i. i < 100 \<and> i mod 3 = 0 \<and> i mod 2 = 0}. q = demo_px i"
    then obtain i where "i \<in> {i. i < 100 \<and> i mod 3 = 0 \<and> i mod 2 = 0}" and q: "q = demo_px i" by (rule bexE)
    then have i: "i < 100" "i mod 3 = 0" "i mod 2 = 0" by simp_all
    have "i \<noteq> 97" "i \<noteq> 98" "i \<noteq> 99" using i(2,3) by auto
    with i(1) have "i = 96 \<or> i < 96" by linarith
    with i q show "q = demo_px 96 \<or> bid_before (demo_px 96) q" by (auto simp: bid_before_def demo_px_less)
  qed (rule bexI [of _ 96], simp_all)
  moreover have "best_price (e_asks the_demo_book) = Some (demo_px 3)"
    unfolding ask_side.best_price_iff [OF demo_book_levels(2)] demo_book_levels(4)
  proof (intro conjI allI impI)
    fix q assume "\<exists>i\<in>{i. i < 100 \<and> i mod 3 = 0 \<and> i mod 2 = 1}. q = demo_px i"
    then obtain i where "i \<in> {i. i < 100 \<and> i mod 3 = 0 \<and> i mod 2 = 1}" and q: "q = demo_px i" by (rule bexE)
    then have i: "i < 100" "i mod 3 = 0" "i mod 2 = 1" by simp_all
    have "i \<noteq> 0" "i \<noteq> 1" "i \<noteq> 2" using i(2,3) by auto
    then have "i = 3 \<or> 3 < i" by linarith
    with i q show "q = demo_px 3 \<or> ask_before (demo_px 3) q" by (auto simp: ask_before_def demo_px_less)
  qed (rule bexI [of _ 3], simp_all)
  ultimately show "e_best_bid the_demo_book = Some 1509600" "e_best_ask the_demo_book = Some 1500300"
    by (simp_all add: e_best_bid_def e_best_ask_def demo_px_def)
qed

lemma demo_book_total: "total_orders the_demo_book = 34"
proof -
  have "total_orders the_demo_book = card (set (map ao_order_reference the_demo_msgs))"
    unfolding total_orders_def the_demo_book_def itch_adds_orders by (simp add: ebook_new_def)
  also have "\<dots> = 34" using distinct_card [OF demo_refs_distinct] demo_msgs_count by simp
  finally show ?thesis .
qed

text \<open>
  The ITCH demo runs to its end: the raw structs it lays out with swapped fields are
  well-formed ITCH, the parser reads all 34 of them and every one reaches the book, which
  ends with 34 orders, a best bid of 150.96 and a best ask of 150.03: a crossed book.
\<close>
theorem demo_itch_outcome:
  "\<exists>book. demo_itch_processing = Some (34, book) \<and> total_orders book = 34 \<and>
     e_best_bid book = Some 1509600 \<and> e_best_ask book = Some 1500300 \<and> has_crossing book"
proof -
  note demo_book_total
  moreover have "has_crossing the_demo_book" by (simp add: has_crossing_def demo_book_best word_sle_eq)
  moreover have "demo_itch_processing = Some (34, the_demo_book)"
    using demo_itch_result demo_msgs_count by (simp add: the_demo_book_def)
  ultimately show ?thesis using demo_book_best by blast
qed

subsection \<open>The sample tick file\<close>

text \<open>
  The random draws of one iteration, in the order of the calls: the price and the two sizes from
  their distributions, the others straight from the generator. The trade draws are made every
  tenth iteration only.
\<close>

record tick_draw =
  d_price :: i64
  d_spread :: u64
  d_bid_size :: u64
  d_ask_size :: u64
  d_trade_size :: u64
  d_side :: u64
  d_pause :: u64

definition demo_symbols :: "string list" where
  "demo_symbols = [''AAPL'', ''MSFT'', ''GOOGL'', ''AMZN'', ''TSLA'']"

definition sample_ask :: "tick_draw \<Rightarrow> i64" where
  "sample_ask d = ucast (ucast (d_price d + 10) + d_spread d mod 100)"

definition sample_calls :: "nat \<Rightarrow> u64 \<Rightarrow> tick_draw \<Rightarrow> tick_op list" where
  "sample_calls i ts d =
     (let nm = demo_symbols ! (i mod 5); bid = d_price d; ask = sample_ask d in
      Quote ts nm bid (d_bid_size d) ask (d_ask_size d) #
      (if i mod 10 = 0
       then [Trade ts nm (bid + word_of_int (sint (ask - bid) sdiv 2)) (d_trade_size d div 10)
               (ucast (d_side d mod 2))]
       else []))"

fun sample_loop :: "(nat \<Rightarrow> bool \<times> bool) \<Rightarrow> nat \<Rightarrow> u64 \<Rightarrow> tick_draw list \<Rightarrow> recorder \<Rightarrow> recorder option" where
  "sample_loop env i ts [] s = Some s"
| "sample_loop env i ts (d # ds) s =
     do { s1 \<leftarrow> record_all env (sample_calls i ts d) s;
          sample_loop env (i + 1) (ts + (1000000 + d_pause d mod 5000000)) ds s1 }"

text \<open>What is printed, and the file after the recorder's destructor.\<close>

definition generate_sample_data :: "(nat \<Rightarrow> bool \<times> bool) \<Rightarrow> tick_draw list \<Rightarrow> (nat \<times> u8 list) option" where
  "generate_sample_data env ds =
     do { s \<leftarrow> sample_loop env 0 1000000000000000 ds (recorder_new True True True);
          let s1 = rc_flush True s;
          Some (rc_count s1, recorder_close True s1) }"

fun sample_trace :: "nat \<Rightarrow> u64 \<Rightarrow> tick_draw list \<Rightarrow> tick_op list" where
  "sample_trace i ts [] = []"
| "sample_trace i ts (d # ds) =
     sample_calls i ts d @ sample_trace (i + 1) (ts + (1000000 + d_pause d mod 5000000)) ds"

lemma record_all_append:
  "record_all env (xs @ ys) s = Option.bind (record_all env xs s) (record_all env ys)"
  by (induction xs arbitrary: s) (simp_all split: Option.bind_split)

lemma sample_loop_trace: "sample_loop env i ts ds s = record_all env (sample_trace i ts ds) s"
proof (induction ds arbitrary: i ts s)
  case (Cons d ds)
  then show ?case by (cases "record_all env (sample_calls i ts d) s") (simp_all add: record_all_append)
qed simp

text \<open>Two records for the quote of an iteration, one for the trade of every tenth.\<close>

lemma sample_trace_count:
  "length (concat (map op_records (sample_trace i ts ds))) + (i + 9) div 10 =
     2 * length ds + (i + length ds + 9) div 10"
proof (induction ds arbitrary: i ts)
  case (Cons d ds)
  let ?ts = "ts + (1000000 + d_pause d mod 5000000)"
  have "length (concat (map op_records (sample_trace i ts (d # ds)))) =
      (if i mod 10 = 0 then 3 else 2) + length (concat (map op_records (sample_trace (i + 1) ?ts ds)))"
    by (simp add: sample_calls_def Let_def)
  moreover have "(i + 1 + 9) div 10 = (if i mod 10 = 0 then (i + 9) div 10 + 1 else (i + 9) div 10)" by presburger
  moreover have "i + length (d # ds) + 9 = i + 1 + length ds + 9" by simp
  moreover note Cons.IH [of "i + 1" ?ts]
  ultimately show ?case by (cases "i mod 10 = 0") (simp_all only: if_True if_False, simp_all)
qed simp

text \<open>
  The sample data generator: when the system calls succeed it counts two records for every
  iteration and one more for every tenth, whatever it draws (21,000 for its 10,000
  iterations), and the file it leaves is read back as the quotes and trades of its iterations in
  order.
\<close>
theorem sample_data_readable:
  "\<exists>f. generate_sample_data (\<lambda>i. (True, True)) ds = Some (2 * length ds + (length ds + 9) div 10, f) \<and>
     map_option fst (read_ticks (length f) (reader_open True f)) =
       Some (concat (map op_records (sample_trace 0 1000000000000000 ds)))"
proof -
  let ?ops = "sample_trace 0 1000000000000000 ds"
  let ?ts = "concat (map op_records ?ops)"
  from recorded_all [OF recorded_new, of ?ops True True] obtain s where s:
      "record_all (\<lambda>i. (True, True)) ?ops (recorder_new True True True) = Some s" "recorded s ?ts"
    by auto
  let ?f = "encode_ticks ?ts"
  have ok: "\<forall>t\<in>set ?ts. tick_ok t" and c: "rc_count s = length ?ts" using s(2) by (simp_all add: recorded_def)
  have "generate_sample_data (\<lambda>i. (True, True)) ds = Some (rc_count s, ?f)"
    using s by (simp add: generate_sample_data_def sample_loop_trace Let_def recorder_close_flush recorded_close)
      (simp add: rc_flush_def)
  moreover have "length ?ts \<le> length ?f" using length_encode_ticks [OF ok] by simp
  from encoded_read(1) [OF ok this] have "map_option fst (read_ticks (length ?f) (reader_open True ?f)) = Some ?ts" .
  moreover have "length ?ts = 2 * length ds + (length ds + 9) div 10"
    using sample_trace_count [of 0 1000000000000000 ds] by simp
  ultimately show ?thesis unfolding c by simp
qed

end
