(* ===== verification/Pipeline.thy ===== *)
theory Pipeline
  imports Md_Parser Latency
begin

text \<open>
  \<open>benchmarks/full_pipeline_benchmark.cpp\<close> and the program that writes its input,
  \<open>data/generate_sample_itch.py\<close>: the file of fixed-size messages, the warm-up and the measured
  loop over it, and the numbers of the report. The random choices, the readings of the time
  stamp counter and the contents of the file are arguments.
\<close>

subsection \<open>The sample file\<close>

text \<open>The random choices of one iteration: stock, shares, price, side.\<close>

type_synonym itch_choice = "string \<times> u32 \<times> u32 \<times> char"

definition sample_message :: "nat \<Rightarrow> itch_choice \<Rightarrow> u8 list" where
  "sample_message i c =
     (case c of (stock, shares, price, buy_sell) \<Rightarrow>
        generate_add_order (34200000000000 + of_nat i * 1000) (1000000 + of_nat i) shares stock price buy_sell)"

definition sample_itch_file :: "itch_choice list \<Rightarrow> u8 list" where
  "sample_itch_file cs = concat (map (\<lambda>(i, c). sample_message i c) (enumerate 0 cs))"

subsection \<open>The loops\<close>

definition MESSAGE_SIZE :: nat where
  "MESSAGE_SIZE = 36"

definition WARMUP_ITERATIONS :: nat where
  "WARMUP_ITERATIONS = 10000"

text \<open>
  One call of the parser on message \<open>i\<close>: the result is ignored by the program, \<open>None\<close> is a
  read outside the message.
\<close>

definition parse_message :: "u8 list \<Rightarrow> nat \<Rightarrow> md_order \<Rightarrow> (bool \<times> md_order) option" where
  "parse_message buffer i ord = parse_add_order (take MESSAGE_SIZE (drop (i * MESSAGE_SIZE) buffer)) ord"

fun warmup :: "u8 list \<Rightarrow> nat list \<Rightarrow> md_order \<Rightarrow> md_order option" where
  "warmup buffer [] ord = Some ord"
| "warmup buffer (i # is') ord =
     (case parse_message buffer i ord of None \<Rightarrow> None | Some (_, ord1) \<Rightarrow> warmup buffer is' ord1)"

text \<open>
  The measured loop; \<open>clock\<close> gives the two readings around call \<open>i\<close>. The result also lists what
  the calls returned.
\<close>

fun measured :: "u8 list \<Rightarrow> (nat \<Rightarrow> u64 \<times> u64) \<Rightarrow> timer \<Rightarrow> nat list \<Rightarrow> md_order \<Rightarrow> md_hist \<Rightarrow>
    ((bool \<times> md_order) list \<times> md_hist) option" where
  "measured buffer clock t [] ord hist = Some ([], hist)"
| "measured buffer clock t (i # is') ord hist =
     (case parse_message buffer i ord of
        None \<Rightarrow> None
      | Some (ok, ord1) \<Rightarrow>
          case timer_cycles_to_ns (snd (clock i) - fst (clock i)) t of
            None \<Rightarrow> None
          | Some latency_ns \<Rightarrow>
              map_option (\<lambda>(rs, h). ((ok, ord1) # rs, h))
                (measured buffer clock t is' ord1 (md_record latency_ns hist)))"

subsection \<open>The program\<close>

record pipeline_report =
  pr_loaded :: nat
  pr_results :: "(bool \<times> md_order) list"
  pr_min :: double
  pr_mean :: double
  pr_p50 :: "double option"
  pr_p90 :: "double option"
  pr_p99 :: "double option"
  pr_p999 :: "double option"
  pr_max :: double

text \<open>
  The statistics are printed in this order; every percentile sorts the samples in place. The
  \<open>Order\<close> is uninitialised at first.
\<close>

definition pipeline_stats :: "nat \<Rightarrow> (bool \<times> md_order) list \<Rightarrow> md_hist \<Rightarrow> pipeline_report" where
  "pipeline_stats n rs hist =
     (let (q50, h1) = p50 hist; (q90, h2) = p90 h1; (q99, h3) = p99 h2; (q999, h4) = p999 h3
      in \<lparr>pr_loaded = n, pr_results = rs, pr_min = md_min hist, pr_mean = md_mean hist,
          pr_p50 = q50, pr_p90 = q90, pr_p99 = q99, pr_p999 = q999, pr_max = md_max h4\<rparr>)"

text \<open>
  \<open>Inl 1\<close> is the exit code when the file cannot be opened; the outer \<open>option\<close> is \<open>None\<close> for a
  read out of bounds or a latency that is no number. \<open>tsc_start\<close> and \<open>tsc_end\<close> are read by
  the calibration.
\<close>

definition full_pipeline ::
  "u8 list option \<Rightarrow> u64 \<Rightarrow> u64 \<Rightarrow> (nat \<Rightarrow> u64 \<times> u64) \<Rightarrow> md_order \<Rightarrow> (int + pipeline_report) option" where
  "full_pipeline file tsc_start tsc_end clock uninit =
     (case file of
        None \<Rightarrow> Some (Inl 1)
      | Some buffer \<Rightarrow>
          let message_count = length buffer div MESSAGE_SIZE;
              t = calibrate tsc_start tsc_end timer_new
          in case warmup buffer [0..<min WARMUP_ITERATIONS message_count] uninit of
               None \<Rightarrow> None
             | Some ord \<Rightarrow>
                 map_option (\<lambda>(rs, hist). Inr (pipeline_stats message_count rs hist))
                   (measured buffer clock t [0..<message_count] ord []))"

subsection \<open>What the loops do\<close>

lemma parse_message_defined: "\<exists>r. parse_message buffer i ord = Some r"
  using parse_add_order_safe [of "take MESSAGE_SIZE (drop (i * MESSAGE_SIZE) buffer)" ord]
  unfolding parse_message_def by blast

lemma warmup_defined: "\<exists>r. warmup buffer is' ord = Some r"
proof (induction is' arbitrary: ord)
  case (Cons i is')
  obtain ok ord1 where "parse_message buffer i ord = Some (ok, ord1)"
    using parse_message_defined [of buffer i ord] by auto
  with Cons show ?case by simp
qed simp

text \<open>The results of the calls, without the clock.\<close>

fun parse_all :: "u8 list \<Rightarrow> nat list \<Rightarrow> md_order \<Rightarrow> (bool \<times> md_order) list" where
  "parse_all buffer [] ord = []"
| "parse_all buffer (i # is') ord =
     (let r = the (parse_message buffer i ord) in r # parse_all buffer is' (snd r))"

definition latency_of :: "timer \<Rightarrow> u64 \<times> u64 \<Rightarrow> double" where
  "latency_of t r = fl (fl (of_u64 (snd r - fst r) / freq_mhz t) * 1000)"

lemma measured_runs:
  assumes "freq_mhz t \<noteq> 0"
  shows "measured buffer clock t is' ord hist =
    Some (parse_all buffer is' ord, hist @ map (latency_of t \<circ> clock) is')"
proof (induction is' arbitrary: ord hist)
  case (Cons i is')
  obtain ok ord1 where "parse_message buffer i ord = Some (ok, ord1)"
    using parse_message_defined [of buffer i ord] by auto
  with Cons assms show ?case by (simp add: timer_cycles_to_ns_def latency_of_def md_record_def)
qed simp

text \<open>A timer calibrated over no cycles divides by zero as soon as there is a message.\<close>

lemma measured_uncalibrated:
  assumes "freq_mhz t = 0" and "is' \<noteq> []"
  shows "measured buffer clock t is' ord hist = None"
proof -
  obtain i js where "is' = i # js" using assms(2) by (cases is') auto
  then show ?thesis
    using parse_message_defined [of buffer i ord] assms(1) by (auto simp: timer_cycles_to_ns_def)
qed

lemma length_sample_message [simp]: "length (sample_message i c) = 36"
  by (cases c) (simp add: sample_message_def)

lemma sample_file_slice:
  assumes "i < length cs"
  shows "take 36 (drop (36 * i) (concat (map (\<lambda>(i, c). sample_message i c) (enumerate k cs)))) =
    sample_message (k + i) (cs ! i)"
  using assms
proof (induction cs arbitrary: i k)
  case (Cons c cs)
  show ?case
  proof (cases i)
    case (Suc j)
    then show ?thesis using Cons.IH [of j "Suc k"] Cons.prems by (simp add: drop_append)
  qed simp
qed simp

lemma length_sample_file: "length (sample_itch_file cs) = 36 * length cs"
proof -
  have "length (concat (map (\<lambda>(i, c). sample_message i c) (enumerate k cs))) = 36 * length cs" for k
    by (induction cs arbitrary: k) simp_all
  then show ?thesis by (simp add: sample_itch_file_def)
qed

text \<open>The order that message \<open>i\<close> of the sample file describes.\<close>

definition sample_order :: "nat \<Rightarrow> itch_choice \<Rightarrow> md_order" where
  "sample_order i c =
     (case c of (stock, shares, px, buy_sell) \<Rightarrow>
        \<lparr>md_timestamp = take_bit 48 (34200000000000 + of_nat i * 1000), md_order_ref = 1000000 + of_nat i,
         md_shares = shares, md_price = px, md_symbol = take 8 (map ch (ljust 8 stock)) @ [0],
         md_is_buy = (buy_sell = CHR ''B'')\<rparr>)"

lemma parse_sample_message: "parse_add_order (sample_message i c) ord = Some (True, sample_order i c)"
  by (cases c; cases ord) (simp add: sample_message_def sample_order_def parse_generated)

lemma parse_all_sample:
  assumes "\<forall>i\<in>set is'. i < length cs"
  shows "parse_all (sample_itch_file cs) is' ord = map (\<lambda>i. (True, sample_order i (cs ! i))) is'"
  using assms
proof (induction is' arbitrary: ord)
  case (Cons i is')
  have "parse_message (sample_itch_file cs) i ord = Some (True, sample_order i (cs ! i))"
    using Cons.prems sample_file_slice [of i cs 0]
    by (simp add: parse_message_def MESSAGE_SIZE_def sample_itch_file_def mult.commute parse_sample_message)
  with Cons show ?case by simp
qed simp

subsection \<open>The report\<close>

lemma pipeline_percentiles:
  assumes "h \<noteq> []" and "length h \<le> 2 ^ 53"
  defines "u \<equiv> \<lambda>p. sort h ! md_rank (length h) (p / 100)"
  shows "pipeline_stats n rs h =
    \<lparr>pr_loaded = n, pr_results = rs, pr_min = Min (set h), pr_mean = md_mean h, pr_p50 = Some (u 50),
     pr_p90 = Some (u 90), pr_p99 = Some (u 99), pr_p999 = Some (u (fl (999 / 10))), pr_max = Max (set h)\<rparr>"
proof -
  have top: "0 \<le> fl (999 / 10)" "fl (999 / 10) \<le> 100"
    using fl_nonneg [of "999 / 10"] fl_mono [of "999 / 10" 100] fl_of_int [of 100] by simp_all
  have ne: "sort h \<noteq> []" using assms(1) by (metis length_sort length_0_conv)
  have "md_percentile p k = (Some (u p), sort h)"
    if "0 \<le> p" "p \<le> 100" "k = h \<or> k = sort h" for p k
    using md_percentile_rank [of k p] assms that ne by (auto simp: u_def sorted_sort_id)
  with ne show ?thesis
    using top assms ne md_extremes [of h] md_extremes [of "sort h"]
    by (simp add: pipeline_stats_def p50_def p90_def p99_def p999_def)
qed

lemma percentile_steps:
  assumes "h \<noteq> []" and "length h \<le> 2 ^ 53"
  defines "u \<equiv> \<lambda>p. sort h ! md_rank (length h) (p / 100)"
  shows "Min (set h) \<le> u 50 \<and> u 50 \<le> u 90 \<and> u 90 \<le> u 99 \<and> u 99 \<le> u (fl (999 / 10)) \<and>
    u (fl (999 / 10)) \<le> Max (set h)"
proof -
  have top: "99 \<le> fl (999 / 10)" "fl (999 / 10) \<le> 100"
    using fl_mono [of 99 "999 / 10"] fl_mono [of "999 / 10" 100] fl_of_int [of 100] fl_of_int [of 99] by simp_all
  have mem: "u p \<in> set h" if "0 \<le> p" "p \<le> 100" for p
    unfolding u_def using assms that by (intro md.quantile_mem) simp_all
  have mono: "u p \<le> u q" if "0 \<le> p" "p \<le> q" "q \<le> 100" for p q
    unfolding u_def using assms that by (intro md.quantile_mono) (simp_all add: divide_right_mono)
  show ?thesis using mem [of 50] mem [of "fl (999 / 10)"] top by (intro conjI mono) simp_all
qed

text \<open>
  C19. The benchmark over the generator's file, end to end across the two languages: every
  one of its messages is accepted by the C++ parser and read back as the order that the Python
  program wrote; the loops read nothing outside the buffer, and the report prints as many messages
  as were written, with minimum, percentiles and maximum in increasing order, although each
  percentile call sorts the samples in place. The timer must have counted some cycles.
\<close>
theorem pipeline_parses_sample:
  assumes "freq_mhz (calibrate tsc_start tsc_end timer_new) \<noteq> 0" and "cs \<noteq> []" and "length cs \<le> 2 ^ 53"
  shows "\<exists>r a b c d. full_pipeline (Some (sample_itch_file cs)) tsc_start tsc_end clock uninit = Some (Inr r) \<and>
    pr_loaded r = length cs \<and>
    pr_results r = map (\<lambda>i. (True, sample_order i (cs ! i))) [0..<length cs] \<and>
    pr_p50 r = Some a \<and> pr_p90 r = Some b \<and> pr_p99 r = Some c \<and> pr_p999 r = Some d \<and>
    pr_min r \<le> a \<and> a \<le> b \<and> b \<le> c \<and> c \<le> d \<and> d \<le> pr_max r"
proof -
  let ?t = "calibrate tsc_start tsc_end timer_new" and ?buf = "sample_itch_file cs"
  let ?h = "map (latency_of ?t \<circ> clock) [0..<length cs]"
  have n: "length ?buf div MESSAGE_SIZE = length cs" by (simp add: length_sample_file MESSAGE_SIZE_def)
  have h: "?h \<noteq> []" "length ?h \<le> 2 ^ 53" using assms(2,3) by simp_all
  obtain ord where "warmup ?buf [0..<min WARMUP_ITERATIONS (length cs)] uninit = Some ord"
    using warmup_defined by blast
  moreover have "parse_all ?buf [0..<length cs] ord = map (\<lambda>i. (True, sample_order i (cs ! i))) [0..<length cs]"
    by (rule parse_all_sample) simp
  ultimately have run: "full_pipeline (Some ?buf) tsc_start tsc_end clock uninit = Some (Inr (pipeline_stats (length cs)
      (map (\<lambda>i. (True, sample_order i (cs ! i))) [0..<length cs]) ?h))"
    using measured_runs [OF assms(1), of ?buf clock "[0..<length cs]" ord "[]"]
    by (simp add: full_pipeline_def n Let_def)
  then show ?thesis
    unfolding run pipeline_percentiles [OF h] using percentile_steps [OF h] by simp
qed

theorem pipeline_parses_sample_witness:
  "\<exists>r. full_pipeline (Some (sample_itch_file [(''AAPL'', 100, 1500000, CHR ''B''), (''TSLA'', 7, 2, CHR ''S'')]))
      0 100000 (\<lambda>i. (5, 9)) (sample_order 0 ('''', 0, 0, CHR ''B'')) = Some (Inr r) \<and> pr_loaded r = 2 \<and> map fst (pr_results r) = [True, True]"
proof -
  let ?cs = "[(''AAPL'', 100, 1500000, CHR ''B''), (''TSLA'', 7, 2, CHR ''S'')] :: itch_choice list"
  have "freq_mhz (calibrate 0 100000 timer_new) \<noteq> 0"
    using fl_of_int [of 1] fl_of_int [of 100000] by (simp add: calibrate_def of_u64_def)
  from pipeline_parses_sample [OF this, of ?cs "\<lambda>i. (5, 9)" "sample_order 0 ('''', 0, 0, CHR ''B'')"] show ?thesis by auto
qed

end
