(* ===== verification/Micro.thy ===== *)
theory Micro
  imports Bench Demo_Itch
begin

text \<open>
  \<open>src/advanced_benchmark.cpp\<close>: the bodies that the benchmark library repeats. The library
  chooses the number of iterations \<open>n\<close>; the clock, \<open>DoNotOptimize\<close> and the counters are its
  own. Where an argument list both increments a variable and reads it, C++ leaves the order of
  the two open: \<open>lr i\<close> says whether iteration \<open>i\<close> evaluates the arguments from left to right.
\<close>

subsection \<open>Parsers\<close>

definition micro_quote :: iex_quote_update where
  "micro_quote =
     \<lparr>iq_header = \<lparr>ih_type = quote_update_type, ih_timestamp = 1000000\<rparr>, iq_flags = 0,
      iq_symbol = map ch ''AAPL    '', iq_bid_size = 100, iq_bid_price = 1500000,
      iq_ask_size = 200, iq_ask_price = 1500100\<rparr>"

definition bm_iex_parsing :: "nat \<Rightarrow> iex_message option option list" where
  "bm_iex_parsing n =
     map (\<lambda>i. map_option fst (iex_parse_next (iex_new (encode_iex_quote_update micro_quote)))) [0..<n]"

definition micro_struct :: add_order_msg where
  "micro_struct =
     \<lparr>ao_length = swap_uint16 (of_nat sizeof_add_order_msg), ao_type = ch CHR ''A'',
      ao_stock_locate = swap_uint16 0, ao_tracking_number = swap_uint16 1,
      ao_timestamp = swap_uint64 1000000, ao_order_reference = swap_uint64 12345,
      ao_buy_sell = ch CHR ''B'', ao_shares = swap_uint32 100, ao_stock = map ch ''AAPL    '',
      ao_price = swap_uint32 1500000\<rparr>"

definition bm_itch_parsing :: "nat \<Rightarrow> itch_message option option list" where
  "bm_itch_parsing n =
     map (\<lambda>i. map_option fst (parse_next (parser_new (struct_bytes micro_struct)))) [0..<n]"

subsection \<open>Order books\<close>

definition bm_add_bid :: "nat \<Rightarrow> order_book" where
  "bm_add_bid n =
     fold (\<lambda>i b. let timestamp = of_nat i; px = 1500000 + timestamp mod 100 in add_bid px 100 timestamp b)
       [0..<n] (order_book_new ''AAPL'')"

definition bm_modify_bid :: "(nat \<Rightarrow> bool) \<Rightarrow> nat \<Rightarrow> order_book" where
  "bm_modify_bid lr n =
     fold (\<lambda>i b. let timestamp = 1 + of_nat i in
              modify_bid 1500000 (100 + (if lr i then timestamp else timestamp + 1) mod 50) timestamp b)
       [0..<n] (add_bid 1500000 100 0 (order_book_new ''AAPL''))"

definition bm_best_bid_ask :: "nat \<Rightarrow> (i64 option \<times> i64 option) list" where
  "bm_best_bid_ask n =
     (let b = add_ask 1500100 200 1 (add_bid 1500000 100 0 (order_book_new ''AAPL''))
      in map (\<lambda>i. (best_bid b, best_ask b)) [0..<n])"

definition bm_add_order :: "(nat \<Rightarrow> bool) \<Rightarrow> nat \<Rightarrow> ebook" where
  "bm_add_order lr n =
     fold (\<lambda>i b. let order_id = of_nat i; px = 1500000 + order_id mod 100 in
              snd (add_order order_id CHR ''B'' px 100 (if lr i then order_id + 1 else order_id) b))
       [0..<n] (ebook_new ''AAPL'')"

definition execute_setup :: ebook where
  "execute_setup =
     fold (\<lambda>i b. snd (add_order (of_nat i) CHR ''B'' 1500000 100 (of_nat i) b)) [0..<1000] (ebook_new ''AAPL'')"

text \<open>The result lists what the calls returned, which the benchmark ignores.\<close>

definition bm_execute_order :: "(nat \<Rightarrow> bool) \<Rightarrow> nat \<Rightarrow> bool list \<times> ebook" where
  "bm_execute_order lr n =
     fold (\<lambda>i (rs, b). let order_id = of_nat i :: u64 in
              case execute_order (order_id mod 1000) 10 (if lr i then order_id + 1 else order_id) b of
                (r, b1) \<Rightarrow> (rs @ [r], b1))
       [0..<n] ([], execute_setup)"

definition depth_setup :: "nat \<Rightarrow> ebook" where
  "depth_setup m =
     fold (\<lambda>i b. snd (add_order (of_nat (1000 + i)) CHR ''S'' (word_of_int (1500100 + int i * 100)) 100 (of_nat i)
             (snd (add_order (of_nat i) CHR ''B'' (word_of_int (1500000 - int i * 100)) 100 (of_nat i) b))))
       [0..<m] (ebook_new ''AAPL'')"

definition bm_book_depth :: "nat \<Rightarrow> (price_level list \<times> price_level list) list" where
  "bm_book_depth n =
     map (\<lambda>i. (get_bid_depth 10 (depth_setup 100), get_ask_depth 10 (depth_setup 100))) [0..<n]"

subsection \<open>Queue, pool and heap\<close>

text \<open>One push and one pop per iteration; both results are ignored.\<close>

fun push_pop :: "'a list \<Rightarrow> 'a spsc \<Rightarrow> ('a option list \<times> 'a spsc) option" where
  "push_pop [] q = Some ([], q)"
| "push_pop (x # xs) q =
     (case try_push x q of
        None \<Rightarrow> None
      | Some (_, q1) \<Rightarrow>
          case try_pop q1 of
            None \<Rightarrow> None
          | Some (r, q2) \<Rightarrow> map_option (\<lambda>(rs, q3). (r # rs, q3)) (push_pop xs q2))"

definition bm_spsc_push_pop :: "nat \<Rightarrow> u64 option list option" where
  "bm_spsc_push_pop n =
     (case spsc_new 0 1024 of
        Inl _ \<Rightarrow> None
      | Inr q \<Rightarrow> map_option fst (push_pop (map of_nat [0..<n]) q))"

definition bm_pool_allocation :: "nat \<Rightarrow> (nat list \<Rightarrow> nat) \<Rightarrow> nat \<Rightarrow> u64 pool option" where
  "bm_pool_allocation n alloc iterations =
     pool_loop n alloc 100 (replicate iterations 42) [] (pool_new n alloc)"

text \<open>
  The heap is the set of live addresses; \<open>alloc\<close> picks one that is not live. Deleting what is
  not live is undefined (\<open>None\<close>).
\<close>

fun delete_all :: "nat list \<Rightarrow> nat set \<Rightarrow> nat set option" where
  "delete_all [] h = Some h"
| "delete_all (a # as) h = (if a \<in> h then delete_all as (h - {a}) else None)"

fun heap_loop :: "(nat set \<Rightarrow> nat) \<Rightarrow> nat \<Rightarrow> nat list \<Rightarrow> nat set \<Rightarrow> nat set option" where
  "heap_loop alloc 0 ptrs h = delete_all ptrs h"
| "heap_loop alloc (Suc k) ptrs h =
     (let a = alloc h; h1 = insert a h; ptrs1 = ptrs @ [a]
      in if 100 \<le> length ptrs1
         then (case delete_all ptrs1 h1 of None \<Rightarrow> None | Some h2 \<Rightarrow> heap_loop alloc k [] h2)
         else heap_loop alloc k ptrs1 h1)"

definition bm_heap_allocation :: "(nat set \<Rightarrow> nat) \<Rightarrow> nat \<Rightarrow> nat set option" where
  "bm_heap_allocation alloc n = heap_loop alloc n [] {}"

subsection \<open>The pipeline\<close>

text \<open>The pool of this benchmark is never used.\<close>

definition micro_step ::
  "iex_quote_update spsc \<times> order_book \<Rightarrow> (book_snapshot option \<times> iex_quote_update spsc \<times> order_book) option" where
  "micro_step st =
     (case st of (q, b) \<Rightarrow>
        case try_push micro_quote q of
          None \<Rightarrow> None
        | Some (_, q1) \<Rightarrow>
            case try_pop q1 of
              None \<Rightarrow> None
            | Some (None, q2) \<Rightarrow> Some (None, q2, b)
            | Some (Some msg, q2) \<Rightarrow>
                let b1 = apply_quote msg b in Some (Some (snapshot b1), q2, b1))"

fun micro_loop ::
  "nat \<Rightarrow> iex_quote_update spsc \<times> order_book \<Rightarrow>
   (book_snapshot option list \<times> iex_quote_update spsc \<times> order_book) option" where
  "micro_loop 0 st = Some ([], st)"
| "micro_loop (Suc n) st =
     (case micro_step st of
        None \<Rightarrow> None
      | Some (s, st1) \<Rightarrow> map_option (\<lambda>(ss, st2). (s # ss, st2)) (micro_loop n st1))"

definition bm_end_to_end :: "nat \<Rightarrow> (book_snapshot option list \<times> iex_quote_update spsc \<times> order_book) option" where
  "bm_end_to_end n =
     (case spsc_new micro_quote 1024 of
        Inl _ \<Rightarrow> None
      | Inr q \<Rightarrow> micro_loop n (q, order_book_new ''AAPL''))"

subsection \<open>The parsers succeed every time\<close>

lemma bm_iex_parsing_all: "bm_iex_parsing n = replicate n (Some (Some (IQuoteUpdate micro_quote)))"
proof -
  have "iex_valid (IQuoteUpdate micro_quote)"
    by (simp add: micro_quote_def valid_iex_quote_update_def quote_update_type_def)
  from iex_parse_encoded [OF this, of "[]" "[]"] show ?thesis
    by (simp add: bm_iex_parsing_def iex_new_def map_replicate_const)
qed

definition micro_order :: add_order_msg where
  "micro_order =
     \<lparr>ao_length = of_nat sizeof_add_order_msg, ao_type = ch CHR ''A'', ao_stock_locate = 0,
      ao_tracking_number = 1, ao_timestamp = 1000000, ao_order_reference = 12345,
      ao_buy_sell = ch CHR ''B'', ao_shares = 100, ao_stock = map ch ''AAPL    '', ao_price = 1500000\<rparr>"

lemma bm_itch_parsing_all: "bm_itch_parsing n = replicate n (Some (Some (AddOrder micro_order)))"
proof -
  have e: "struct_bytes micro_struct = encode_message (AddOrder micro_order)"
    by (simp add: struct_bytes_def micro_struct_def micro_order_def encode_add_order_msg_def swapped_bytes)
  have "valid_message (AddOrder micro_order)"
    by (simp add: micro_order_def valid_add_order_msg_def)
  from parse_next_encoded [OF this, of "[]" "[]"] show ?thesis
    by (simp add: bm_itch_parsing_def e parser_new_def map_replicate_const)
qed

subsection \<open>Queue, pool and heap are left as they were found\<close>

lemma push_pop_ok:
  assumes "spsc_ok k q" and "spsc_contents k q = []"
  shows "\<exists>r. push_pop xs q = Some (map Some xs, r) \<and> spsc_ok k r \<and> spsc_contents k r = []"
  using assms
proof (induction xs arbitrary: q)
  case (Cons x xs)
  have "room_in (Some (2 ^ k)) (spsc_contents k q)" using Cons.prems(2) by (simp add: room_in_def)
  then obtain q1 where q1: "try_push x q = Some (True, q1)" "spsc_ok k q1" "spsc_contents k q1 = [x]"
    using spsc.enq_room [OF Cons.prems(1), of x] Cons.prems(2) by auto
  obtain q2 where q2: "try_pop q1 = Some (Some x, q2)" "spsc_ok k q2" "spsc_contents k q2 = []"
    using spsc.deq_cons [OF q1(2,3)] by auto
  from Cons.IH [OF q2(2,3)] q1(1) q2(1) show ?case by auto
qed simp

lemma bm_spsc_values: "bm_spsc_push_pop n = Some (map (Some \<circ> of_nat) [0..<n])"
proof -
  obtain q where q: "spsc_new 0 1024 = Inr q" "spsc_ok 10 q" "spsc_contents 10 q = ([] :: u64 list)"
    using spsc_new_ok [of 10 "0 :: u64"] by auto
  with push_pop_ok [OF q(2,3), of "map of_nat [0..<n]"] show ?thesis
    by (auto simp: bm_spsc_push_pop_def)
qed

lemma delete_all_ok: "distinct ptrs \<Longrightarrow> set ptrs \<subseteq> h \<Longrightarrow> delete_all ptrs h = Some (h - set ptrs)"
proof (induction ptrs arbitrary: h)
  case (Cons a ptrs)
  then have "set ptrs \<subseteq> h - {a}" by auto
  with Cons show ?case by (simp flip: Diff_insert2)
qed simp

lemma heap_loop_ok:
  assumes "\<forall>h. finite h \<longrightarrow> alloc h \<notin> h" and "distinct ptrs"
  shows "heap_loop alloc k ptrs (set ptrs) = Some {}"
  using assms(2)
proof (induction k arbitrary: ptrs)
  case 0
  then show ?case by (simp add: delete_all_ok)
next
  case (Suc k)
  let ?a = "alloc (set ptrs)"
  have "distinct (ptrs @ [?a])" using Suc.prems assms(1) by simp
  moreover have "insert ?a (set ptrs) = set (ptrs @ [?a])" by simp
  ultimately show ?case
    using Suc.IH [of "[]"] Suc.IH [of "ptrs @ [?a]"] delete_all_ok [of "ptrs @ [?a]" "set (ptrs @ [?a])"]
    by (simp add: Let_def)
qed

text \<open>
  The two allocation benchmarks balance: whatever the number of iterations, the batches and the
  final sweep free exactly what was allocated, each object once, so that both the heap and the
  pool end empty, and the pool has not grown beyond its first chunk.
\<close>
theorem allocation_benchmarks_balance:
  assumes "\<forall>h. finite h \<longrightarrow> alloc h \<notin> h" and "chunk_alloc chunk" and "100 \<le> m"
  shows "bm_heap_allocation alloc n = Some {} \<and>
    (\<exists>p. bm_pool_allocation m chunk n = Some p \<and> live p = Map.empty \<and> allocated p = 0 \<and>
       chunks p = [chunk []])"
proof
  show "bm_heap_allocation alloc n = Some {}"
    using heap_loop_ok [OF assms(1), of "[]"] by (simp add: bm_heap_allocation_def)
  have m: "0 < m" using assms(3) by simp
  have "chunks (pool_new m chunk :: u64 pool) = [chunk []]"
    by (simp add: pool_new_def allocate_chunk_def Let_def)
  then obtain p where p: "bm_pool_allocation m chunk n = Some p" "pool_ok m p"
      "live p = Map.empty" "chunks p = [chunk []]"
    using pool_loop_ok [OF pool_new_ok(1) [OF assms(2) m], of "[]" 100 chunk "chunk []" "replicate n 42"]
      pool_new_ok(2) [OF assms(2) m, where 'a = u64] assms m
    unfolding bm_pool_allocation_def
    by (metis dom_empty distinct.simps(1) list.set(1) list.size(3) zero_less_numeral)
  with allocated_live [OF p(2)] show "\<exists>p. bm_pool_allocation m chunk n = Some p \<and> live p = Map.empty \<and>
      allocated p = 0 \<and> chunks p = [chunk []]" by simp
qed

subsection \<open>The execution benchmark\<close>

text \<open>
  Order \<open>k\<close> of the thousand is hit in iterations \<open>k\<close>, \<open>k + 1000\<close>, and so on, by 10 of its 100
  shares.
\<close>

definition hits :: "nat \<Rightarrow> nat \<Rightarrow> nat" where
  "hits n k = n div 1000 + (if k < n mod 1000 then 1 else 0)"

definition remaining :: "nat \<Rightarrow> u64 \<Rightarrow> u64 option" where
  "remaining n w =
     (if unat w < 1000 \<and> hits n (unat w) < 10 then Some (of_nat (100 - 10 * hits n (unat w))) else None)"

lemma hits_Suc: "k < 1000 \<Longrightarrow> hits (Suc n) k = hits n k + (if k = n mod 1000 then 1 else 0)"
  by (auto simp: hits_def div_Suc mod_Suc)

lemma hits_less: "k < 1000 \<Longrightarrow> hits n k < 10 \<longleftrightarrow> n \<le> 9000 + k"
proof -
  assume k: "k < 1000"
  define d r where "d = n div 1000" and "r = n mod 1000"
  have "n = 1000 * d + r" and "r < 1000" by (simp_all add: d_def r_def)
  then show "hits n k < 10 \<longleftrightarrow> n \<le> 9000 + k"
    using k unfolding hits_def d_def [symmetric] r_def [symmetric] by auto
qed

lemma execute_orders:
  "map_option quantity \<circ> orders (snd (execute_order i q ts b)) =
     (\<lambda>w. if w = i then (case map_option quantity (orders b i) of
              None \<Rightarrow> None | Some x \<Rightarrow> if q < x then Some (x - q) else None)
          else map_option quantity (orders b w))"
  "fst (execute_order i q ts b) \<longleftrightarrow> orders b i \<noteq> None"
  by (auto simp: execute_order_def Let_def frame_simp fun_eq_iff split: option.splits)

lemma add_orders:
  "orders b i = None \<Longrightarrow>
   map_option quantity \<circ> orders (snd (add_order i sd p q ts b)) = (map_option quantity \<circ> orders b)(i \<mapsto> q)"
  by (auto simp: add_order_def Let_def frame_simp new_order_def)

lemma execute_setup_orders: "map_option quantity \<circ> orders execute_setup = remaining 0"
proof -
  let ?step = "\<lambda>i b. snd (add_order (of_nat i) CHR ''B'' 1500000 100 (of_nat i) b)"
  have adds: "map_option quantity \<circ> orders (fold ?step [0..<n] (ebook_new ''AAPL'')) =
      (\<lambda>w. if unat w < n then Some 100 else None)" if "n \<le> 1000" for n
    using that
  proof (induction n)
    case 0
    then show ?case by (auto simp: ebook_new_def)
  next
    case (Suc n)
    define b where "b = fold ?step [0..<n] (ebook_new ''AAPL'')"
    have IH: "map_option quantity \<circ> orders b = (\<lambda>w. if unat w < n then Some 100 else None)"
      using Suc.prems unfolding b_def by (intro Suc.IH) simp
    have u: "unat (of_nat n :: u64) = n" using Suc.prems by (intro unat_of_nat_small) simp
    have "orders b (of_nat n) = None" using fun_cong [OF IH, of "of_nat n"] u by simp
    moreover have "fold ?step [0..<Suc n] (ebook_new ''AAPL'') = ?step n b" by (simp add: b_def)
    ultimately have "map_option quantity \<circ> orders (fold ?step [0..<Suc n] (ebook_new ''AAPL'')) =
        (\<lambda>w. if unat w < n then Some 100 else None)(of_nat n \<mapsto> 100)"
      using add_orders [of b "of_nat n"] IH by simp
    also have "\<dots> = (\<lambda>w. if unat w < Suc n then Some 100 else None)"
      using u by (auto simp: fun_eq_iff word_unat_eq_iff less_Suc_eq)
    finally show ?case .
  qed
  have "map_option quantity \<circ> orders execute_setup = (\<lambda>w. if unat w < 1000 then Some 100 else None)"
    unfolding execute_setup_def by (rule adds) simp
  then show ?thesis by (auto simp: remaining_def hits_def fun_eq_iff)
qed

lemma hit_order: "n < 2 ^ 64 \<Longrightarrow> unat (of_nat n mod 1000 :: u64) = n mod 1000"
  by (simp add: unat_mod unat_of_nat take_bit_nat_eq_self)

text \<open>One execution of 10 shares takes \<open>remaining n\<close> to \<open>remaining (n + 1)\<close>.\<close>

lemma remaining_step:
  assumes "n < 10000"
  defines "i \<equiv> of_nat n mod 1000 :: u64"
  shows "(\<lambda>w. if w = i then (case remaining n i of None \<Rightarrow> None | Some x \<Rightarrow> if 10 < x then Some (x - 10) else None)
      else remaining n w) = remaining (Suc n)"
    and "remaining n i \<noteq> None"
proof -
  have i: "unat i = n mod 1000" using assms(1) unfolding i_def by (intro hit_order) simp
  define h where "h = hits n (n mod 1000)"
  have h: "h = n div 1000" "h < 10" using assms(1) by (simp_all add: h_def hits_def div_less_iff_less_mult)
  have r: "remaining n i = Some (of_nat (100 - 10 * h))"
    using h(2) by (simp add: remaining_def i h_def)
  then show "remaining n i \<noteq> None" by simp
  have q: "unat (of_nat (100 - 10 * h) :: u64) = 100 - 10 * h" by (intro unat_of_nat_small) simp
  have new: "remaining (Suc n) i = (if h < 9 then Some (of_nat (100 - 10 * Suc h)) else None)"
    using h(2) by (auto simp: remaining_def i hits_Suc h_def)
  have less: "10 < (of_nat (100 - 10 * h) :: u64) \<longleftrightarrow> h < 9"
    using h(2) unfolding word_less_nat_alt q by auto
  have minus: "of_nat (100 - 10 * h) - 10 = (of_nat (100 - 10 * Suc h) :: u64)" if "h < 9"
  proof -
    have "100 - 10 * h = (100 - 10 * Suc h) + 10" using that by simp
    then have "(of_nat (100 - 10 * h) :: u64) = of_nat (100 - 10 * Suc h) + 10" by (metis of_nat_add of_nat_numeral)
    then show ?thesis by simp
  qed
  have other: "remaining (Suc n) w = remaining n w" if "w \<noteq> i" for w
  proof -
    have "unat w \<noteq> n mod 1000" using that i by (simp add: word_unat_eq_iff)
    then show ?thesis by (auto simp: remaining_def hits_Suc)
  qed
  show "(\<lambda>w. if w = i then (case remaining n i of None \<Rightarrow> None | Some x \<Rightarrow> if 10 < x then Some (x - 10) else None)
      else remaining n w) = remaining (Suc n)"
    using less minus other new r by (auto simp: fun_eq_iff)
qed

lemma remaining_none: "10000 \<le> n \<Longrightarrow> remaining n w = None"
  using hits_less [of "unat w" n] by (auto simp: remaining_def)

lemma bm_execute_run:
  "fst (bm_execute_order lr n) = map (\<lambda>i. i < 10000) [0..<n] \<and>
   map_option quantity \<circ> orders (snd (bm_execute_order lr n)) = remaining n"
proof (induction n)
  case 0
  then show ?case using execute_setup_orders by (simp add: bm_execute_order_def)
next
  case (Suc n)
  define b where "b = snd (bm_execute_order lr n)"
  let ?i = "of_nat n mod 1000 :: u64" and ?ts = "if lr n then of_nat n + 1 else of_nat n"
  have IH: "map_option quantity (orders b w) = remaining n w" for w
    using Suc.IH unfolding b_def by (metis comp_apply)
  have live: "orders b ?i \<noteq> None \<longleftrightarrow> n < 10000"
  proof (cases "n < 10000")
    case True
    then show ?thesis using remaining_step(2) [OF True] IH [of ?i] by auto
  next
    case False
    then show ?thesis using remaining_none [of n ?i] IH [of ?i] by simp
  qed
  have step: "bm_execute_order lr (Suc n) =
      (fst (bm_execute_order lr n) @ [fst (execute_order ?i 10 ?ts b)], snd (execute_order ?i 10 ?ts b))"
    by (simp add: bm_execute_order_def b_def Let_def case_prod_unfold)
  have "map_option quantity \<circ> orders (snd (execute_order ?i 10 ?ts b)) = remaining (Suc n)"
  proof (cases "n < 10000")
    case True
    then show ?thesis unfolding execute_orders IH by (rule remaining_step(1))
  next
    case False
    then show ?thesis unfolding execute_orders IH by (auto simp: remaining_none fun_eq_iff)
  qed
  then show ?case using Suc.IH live unfolding step by (simp add: execute_orders(2))
qed

text \<open>
  \<open>BM_EnhancedOrderBookExecuteOrder\<close> measures what it says for 10,000 iterations only: the
  thousand orders of 100 shares, hit round robin by 10 shares, are then used up, and every later
  iteration finds no order and returns \<open>false\<close>, in whichever order the arguments are evaluated.
\<close>
theorem execute_benchmark_runs_out:
  "fst (bm_execute_order lr n) = map (\<lambda>i. i < 10000) [0..<n] \<and>
   total_orders (snd (bm_execute_order lr n)) = min 1000 (10000 - n)"
proof
  show "fst (bm_execute_order lr n) = map (\<lambda>i. i < 10000) [0..<n]" using bm_execute_run by blast
  have u: "unat (of_nat k :: u64) = k" if "k < 1000" for k using that by (intro unat_of_nat_small) simp
  have "orders (snd (bm_execute_order lr n)) w \<noteq> None \<longleftrightarrow> remaining n w \<noteq> None" for w
    using fun_cong [OF conjunct2 [OF bm_execute_run [of lr n]], of w]
    by (cases "orders (snd (bm_execute_order lr n)) w"; cases "remaining n w") simp_all
  then have "dom (orders (snd (bm_execute_order lr n))) = {w. remaining n w \<noteq> None}"
    by (simp only: dom_def)
  also have "\<dots> = of_nat ` {n - 9000..<1000}"
  proof (rule set_eqI)
    fix w
    have "remaining n w \<noteq> None \<longleftrightarrow> unat w < 1000 \<and> n \<le> 9000 + unat w"
      using hits_less [of "unat w" n] by (auto simp: remaining_def)
    also have "\<dots> \<longleftrightarrow> unat w \<in> {n - 9000..<1000}" by auto
    also have "\<dots> \<longleftrightarrow> w \<in> of_nat ` {n - 9000..<1000}"
    proof
      assume "unat w \<in> {n - 9000..<1000}"
      then show "w \<in> of_nat ` {n - 9000..<1000}" by (intro image_eqI [of _ _ "unat w"]) simp_all
    next
      assume "w \<in> of_nat ` {n - 9000..<1000}"
      then show "unat w \<in> {n - 9000..<1000}" using u by auto
    qed
    finally show "w \<in> {w. remaining n w \<noteq> None} \<longleftrightarrow> w \<in> of_nat ` {n - 9000..<1000}" by simp
  qed
  finally have dom: "dom (orders (snd (bm_execute_order lr n))) = of_nat ` {n - 9000..<1000}" .
  have "inj_on (of_nat :: nat \<Rightarrow> u64) {n - 9000..<1000}"
    using u by (intro inj_onI) (metis atLeastLessThan_iff)
  then show "total_orders (snd (bm_execute_order lr n)) = min 1000 (10000 - n)"
    unfolding total_orders_def dom by (simp add: card_image)
qed

subsection \<open>The depth benchmark\<close>

definition tier :: "int \<Rightarrow> i64 \<times> price_level" where
  "tier p = (word_of_int p, \<lparr>price = word_of_int p, lsize = 100, order_count = 1\<rparr>)"

context comparator
begin

lemma om_put_last: "\<forall>e\<in>set m. lt (fst e) k \<Longrightarrow> om_put lt k v m = m @ [(k, v)]"
  by (induction m) auto

lemma om_find_last: "\<forall>e\<in>set m. lt (fst e) k \<Longrightarrow> om_find lt k m = None"
  by (induction m) auto

end

lemma level_add_last:
  assumes "\<forall>e\<in>set m. bid_before (fst e) (word_of_int p)"
  shows "level_add bid_before (word_of_int p) 100 m = m @ [tier p]"
  using bid_map.om_put_last [OF assms] bid_map.om_find_last [OF assms]
  by (simp add: level_add_def tier_def empty_level_def)

lemma level_add_last_ask:
  assumes "\<forall>e\<in>set m. ask_before (fst e) (word_of_int p)"
  shows "level_add ask_before (word_of_int p) 100 m = m @ [tier p]"
  using ask_map.om_put_last [OF assms] ask_map.om_find_last [OF assms]
  by (simp add: level_add_def tier_def empty_level_def)

lemma sint_small: "- (2 ^ 40) < x \<Longrightarrow> x < 2 ^ 40 \<Longrightarrow> sint (word_of_int x :: i64) = x"
  by (simp add: signed_of_int signed_take_bit_int_eq_self)

lemma depth_setup_levels:
  assumes "n \<le> 100"
  shows "e_bids (depth_setup n) = map (\<lambda>i. tier (1500000 - int i * 100)) [0..<n] \<and>
    e_asks (depth_setup n) = map (\<lambda>i. tier (1500100 + int i * 100)) [0..<n] \<and>
    dom (orders (depth_setup n)) = of_nat ` ({0..<n} \<union> {1000..<1000 + n})"
  using assms
proof (induction n)
  case 0
  then show ?case by (simp add: depth_setup_def ebook_new_def)
next
  case (Suc n)
  define b where "b = depth_setup n"
  have IH: "e_bids b = map (\<lambda>i. tier (1500000 - int i * 100)) [0..<n]"
    "e_asks b = map (\<lambda>i. tier (1500100 + int i * 100)) [0..<n]"
    "dom (orders b) = of_nat ` ({0..<n} \<union> {1000..<1000 + n})"
    using Suc unfolding b_def by auto
  let ?p = "1500000 - int n * 100" and ?q = "1500100 + int n * 100"
  let ?b1 = "snd (add_order (of_nat n) CHR ''B'' (word_of_int ?p) 100 (of_nat n) b)"
  let ?b2 = "snd (add_order (of_nat (1000 + n)) CHR ''S'' (word_of_int ?q) 100 (of_nat n) ?b1)"
  have step: "depth_setup (Suc n) = ?b2" by (simp add: depth_setup_def b_def)
  have inj: "of_nat x = (of_nat y :: u64) \<longleftrightarrow> x = y" if "x < 2000" "y < 2000" for x y
    using that of_nat_eq_iff_small [of x y, where 'n = 64] by simp
  have "(of_nat n :: u64) \<notin> dom (orders b)" unfolding IH(3) using Suc.prems inj by auto
  then have f1: "orders b (of_nat n) = None" by (simp add: domIff)
  have b1: "e_bids ?b1 = level_add bid_before (word_of_int ?p) 100 (e_bids b)" "e_asks ?b1 = e_asks b"
    "dom (orders ?b1) = insert (of_nat n) (dom (orders b))"
    using f1 by (simp_all add: add_order_def Let_def frame_simp add_to_price_level_def level_insert_def is_bid_def new_order_def)
  have ne: "(of_nat (1000 + n) :: u64) \<noteq> of_nat x" if "x < 1000 + n" for x
    using that Suc.prems inj [of "1000 + n" x] by (simp del: of_nat_add)
  have "(of_nat (1000 + n) :: u64) \<notin> dom (orders ?b1)"
    unfolding b1(3) IH(3) image_insert [symmetric]
  proof
    assume "(of_nat (1000 + n) :: u64) \<in> of_nat ` insert n ({0..<n} \<union> {1000..<1000 + n})"
    then obtain x where x: "x \<in> insert n ({0..<n} \<union> {1000..<1000 + n})" "(of_nat (1000 + n) :: u64) = of_nat x"
      by (rule imageE) blast
    then have "x < 1000 + n" by auto
    with ne x(2) show False by blast
  qed
  then have f2: "orders ?b1 (of_nat (1000 + n)) = None" by (simp only: domIff) simp
  have b2: "e_bids ?b2 = e_bids ?b1" "e_asks ?b2 = level_add ask_before (word_of_int ?q) 100 (e_asks ?b1)"
    "dom (orders ?b2) = insert (of_nat (1000 + n)) (dom (orders ?b1))"
    using f2 unfolding add_order_def [of "of_nat (1000 + n)"]
    by (simp_all add: Let_def frame_simp add_to_price_level_def level_insert_def is_bid_def new_order_def)
  have "bid_before (word_of_int (1500000 - int i * 100)) (word_of_int ?p)"
    "ask_before (word_of_int (1500100 + int i * 100)) (word_of_int ?q)" if "i < n" for i
    unfolding bid_before_def ask_before_def word_sless_alt
    using that Suc.prems by (subst (1 2) sint_small; simp)+
  then have "\<forall>e\<in>set (e_bids b). bid_before (fst e) (word_of_int ?p)"
    and "\<forall>e\<in>set (e_asks b). ask_before (fst e) (word_of_int ?q)"
    unfolding IH(1,2) tier_def by auto
  note levels = level_add_last [OF this(1)] level_add_last_ask [OF this(2)]
  have "dom (orders ?b2) = of_nat ` insert (1000 + n) (insert n ({0..<n} \<union> {1000..<1000 + n}))"
    unfolding b2(3) b1(3) IH(3) image_insert ..
  moreover have "insert (1000 + n) (insert n ({0..<n} \<union> {1000..<1000 + n})) =
      {0..<Suc n} \<union> {1000..<1000 + Suc n}" by auto
  ultimately have "dom (orders ?b2) = of_nat ` ({0..<Suc n} \<union> {1000..<1000 + Suc n})" by (simp only:)
  moreover have "e_bids ?b2 = map (\<lambda>i. tier (1500000 - int i * 100)) [0..<Suc n]"
    unfolding b2(1) b1(1) levels(1) unfolding IH(1) by (simp only: upt_Suc map_append list.map zero_le if_True)
  moreover have "e_asks ?b2 = map (\<lambda>i. tier (1500100 + int i * 100)) [0..<Suc n]"
    unfolding b2(2) b1(2) levels(2) unfolding IH(2) by (simp only: upt_Suc map_append list.map zero_le if_True)
  ultimately show ?case unfolding step by (intro conjI)
qed

text \<open>
  \<open>BM_OrderBookDepth\<close> reads ten levels of ten different prices on each side, best first: bids
  from 150.00 down and asks from 150.01 up in steps of a cent, one order of 100 shares each, the same
  in every iteration.
\<close>
theorem depth_benchmark_reads_ten:
  "bm_book_depth n =
     replicate n (map (\<lambda>i. snd (tier (1500000 - int i * 100))) [0..<10],
                  map (\<lambda>i. snd (tier (1500100 + int i * 100))) [0..<10])"
proof -
  have "take 10 [0..<100] = [0..<10::nat]" unfolding take_upt by simp
  then have "get_bid_depth 10 (depth_setup 100) = map (\<lambda>i. snd (tier (1500000 - int i * 100))) [0..<10]"
    "get_ask_depth 10 (depth_setup 100) = map (\<lambda>i. snd (tier (1500100 + int i * 100))) [0..<10]"
    using depth_setup_levels [of 100]
    by (simp_all only: get_bid_depth_def get_ask_depth_def depth_loop_take take_map map_map comp_def
        diff_zero order_refl simp_thms)
  then show ?thesis by (simp only: bm_book_depth_def map_replicate_const length_upt diff_zero)
qed

subsection \<open>The book benchmarks are runs of book operations\<close>

lemma bm_add_bid_run:
  "bm_add_bid n = book_run (map (\<lambda>i. AddBid (1500000 + of_nat i mod 100) 100 (of_nat i)) [0..<n]) (order_book_new ''AAPL'')"
  by (simp add: bm_add_bid_def book_run_def fold_map comp_def Let_def)

lemma bm_add_order_run:
  "bm_add_order lr n =
   ebook_run (map (\<lambda>i. Add (of_nat i) CHR ''B'' (1500000 + of_nat i mod 100) 100
     (if lr i then of_nat i + 1 else of_nat i)) [0..<n]) (ebook_new ''AAPL'')"
  by (simp add: bm_add_order_def ebook_run_def fold_map comp_def Let_def)

text \<open>
  The size that \<open>BM_OrderBookModifyBid\<close> leaves at its one level depends on the order in which
  the arguments of its call are evaluated.
\<close>

lemma bm_modify_bid_levels:
  "bids (bm_modify_bid lr (Suc n)) =
     [(1500000, \<lparr>price = 1500000,
        lsize = 100 + (if lr n then 1 + of_nat n else 1 + of_nat n + 1) mod 50, order_count = 1\<rparr>)]"
proof -
  have pos: "(100 + x mod 50 :: u64) \<noteq> 0" for x
  proof -
    have "x mod 50 < 50" by (simp add: word_mod_less_divisor)
    then have "unat (100 + x mod 50) = 100 + unat (x mod 50)"
      by (intro unat_plus_if' [THEN trans]) (simp add: word_less_nat_alt)
    then show ?thesis by (metis add_is_0 unat_0 zero_neq_numeral)
  qed
  let ?l = "\<lambda>s. [(1500000, \<lparr>price = 1500000, lsize = s, order_count = 1\<rparr>)]"
  let ?s = "\<lambda>n. 100 + (if lr n then 1 + of_nat n else 1 + of_nat n + 1) mod 50 :: u64"
  have set: "bids (modify_bid 1500000 (?s n) ts b) = ?l (?s n)" if "bids b = ?l s" for n s ts b
    using that pos by (simp add: modify_bid_def stamp_def level_modify_def bid_map.lt_irrefl)
  have step: "bm_modify_bid lr (Suc n) = modify_bid 1500000 (?s n) (1 + of_nat n) (bm_modify_bid lr n)" for n
    by (simp add: bm_modify_bid_def Let_def)
  have "\<exists>s. bids (bm_modify_bid lr n) = ?l s" for n
  proof (induction n)
    case 0
    show ?case
      by (simp add: bm_modify_bid_def add_bid_def stamp_def level_add_def order_book_new_def empty_level_def)
  next
    case (Suc n)
    then show ?case unfolding step using set by blast
  qed
  then obtain s where "bids (bm_modify_bid lr n) = ?l s" by blast
  from set [OF this] show ?thesis unfolding step by blast
qed

subsection \<open>The pipeline benchmark\<close>

definition micro_top :: book_snapshot where
  "micro_top =
     \<lparr>snap_symbol = ''AAPL'', snap_timestamp = 1000000, snap_best_bid = 1500000, snap_best_bid_size = 100,
      snap_best_ask = 1500100, snap_best_ask_size = 200, snap_spread = fl (1 / 100),
      snap_imbalance = fl (- 1 / 3), snap_bid_levels = 1, snap_ask_levels = 1\<rparr>"

definition micro_ready :: "order_book \<Rightarrow> bool" where
  "micro_ready b \<longleftrightarrow> symbol b = ''AAPL'' \<and>
     (bids b = [] \<or> bids b = [(1500000, new_level 1500000 100)]) \<and>
     (asks b = [] \<or> asks b = [(1500100, new_level 1500100 200)])"

lemma micro_apply:
  assumes "micro_ready b"
  shows "micro_ready (apply_quote micro_quote b)" and "snapshot (apply_quote micro_quote b) = micro_top"
    and "message_count (apply_quote micro_quote b) = message_count b + 2"
proof -
  let ?b = "apply_quote micro_quote b"
  have b: "bids ?b = [(1500000, new_level 1500000 100)]" "asks ?b = [(1500100, new_level 1500100 200)]"
      "symbol ?b = ''AAPL''" "last_update_time ?b = 1000000"
    using assms
    by (auto simp: micro_ready_def apply_quote_def micro_quote_def modify_bid_def modify_ask_def stamp_def
        level_modify_def new_level_def bid_map.lt_irrefl ask_map.lt_irrefl)
  show "micro_ready ?b" by (simp add: micro_ready_def b)
  have "of_i64 100 = 100" "of_u64 100 = 100" "of_u64 200 = 200" "of_u64 300 = 300"
    using fl_of_int [of 100] fl_of_int [of 200] fl_of_int [of 300] by (simp_all add: of_i64_def of_u64_def)
  then show "snapshot ?b = micro_top"
    using fl_of_int [of "- 100"]
    by (simp add: snapshot_def micro_top_def b best_bid_def best_ask_def best_bid_size_def best_ask_size_def
        best_price_def best_size_def spread_def imbalance_def spread_of_def imbalance_of_def value_or_def new_level_def)
  show "message_count ?b = message_count b + 2"
    by (simp add: apply_quote_def modify_bid_def modify_ask_def stamp_def)
qed

lemma micro_loop_steady:
  assumes "spsc_ok k q" and "spsc_contents k q = []" and "micro_ready b"
  shows "\<exists>r c. micro_loop n (q, b) = Some (replicate n (Some micro_top), r, c) \<and>
    spsc_contents k r = [] \<and> message_count c = message_count b + 2 * of_nat n"
  using assms
proof (induction n arbitrary: q b)
  case (Suc n)
  have "room_in (Some (2 ^ k)) (spsc_contents k q)" using Suc.prems(2) by (simp add: room_in_def)
  then obtain q1 where q1: "try_push micro_quote q = Some (True, q1)" "spsc_ok k q1" "spsc_contents k q1 = [micro_quote]"
    using spsc.enq_room [OF Suc.prems(1), of micro_quote] Suc.prems(2) by auto
  obtain q2 where q2: "try_pop q1 = Some (Some micro_quote, q2)" "spsc_ok k q2" "spsc_contents k q2 = []"
    using spsc.deq_cons [OF q1(2,3)] by auto
  note b = micro_apply [OF Suc.prems(3)]
  from Suc.IH [OF q2(2,3) b(1)] show ?case
    using q1(1) q2(1) b(2,3) by (auto simp: micro_step_def Let_def algebra_simps)
qed simp

text \<open>
  \<open>BM_EndToEndPipeline\<close> is in a steady state from its first iteration: every message goes
  through the queue in the same turn, each snapshot shows the same book of one level per side, the
  queue is empty at the end and the book has counted two updates per iteration.
\<close>
theorem pipeline_benchmark_steady:
  "\<exists>q b. bm_end_to_end n = Some (replicate n (Some micro_top), q, b) \<and>
     spsc_contents 10 q = [] \<and> message_count b = 2 * of_nat n"
proof -
  obtain q where q: "spsc_new micro_quote 1024 = Inr q" "spsc_ok 10 q" "spsc_contents 10 q = []"
    using spsc_new_ok [of 10 micro_quote] by auto
  have "micro_ready (order_book_new ''AAPL'')" by (simp add: micro_ready_def order_book_new_def)
  from micro_loop_steady [OF q(2,3) this, of n] q(1) show ?thesis
    by (auto simp: bm_end_to_end_def order_book_new_def)
qed

end
