(* ===== verification/Weak_Memory.thy ===== *)
theory Weak_Memory
  imports Prelude
begin

text \<open>
  What \<open>acquire\<close>, \<open>release\<close> and plain accesses mean in C++, as far as the queues of
  \<open>include/lock_free_queue.hpp\<close> use them. The stores to one atomic location form its modification
  order, a list of messages. A view says, for each location, which message is the latest one that
  happened before now, and how many of the plain accesses to the data kept there happened before
  now. A release store attaches the view of its thread to the message; an acquire load of any
  message not older than the thread's view joins the message's view into the thread's.
\<close>

record view =
  seen_seq :: "nat \<Rightarrow> nat"
  seen_use :: "nat \<Rightarrow> nat"

type_synonym 'v message = "'v \<times> view"
type_synonym 'v history = "nat \<Rightarrow> 'v message list"

definition view_new :: view where
  "view_new = \<lparr>seen_seq = (\<lambda>i. 0), seen_use = (\<lambda>i. 0)\<rparr>"

definition view_join :: "view \<Rightarrow> view \<Rightarrow> view" where
  "view_join v w = \<lparr>seen_seq = (\<lambda>i. max (seen_seq v i) (seen_seq w i)),
                    seen_use = (\<lambda>i. max (seen_use v i) (seen_use w i))\<rparr>"

definition see_seq :: "nat \<Rightarrow> nat \<Rightarrow> view \<Rightarrow> view" where
  "see_seq i j v = v\<lparr>seen_seq := (seen_seq v)(i := j)\<rparr>"

definition see_use :: "nat \<Rightarrow> nat \<Rightarrow> view \<Rightarrow> view" where
  "see_use i n v = v\<lparr>seen_use := (seen_use v)(i := n)\<rparr>"

definition readable :: "nat \<Rightarrow> nat \<Rightarrow> view \<Rightarrow> 'v history \<Rightarrow> bool" where
  "readable i j v h \<longleftrightarrow> seen_seq v i \<le> j \<and> j < length (h i)"

definition acquire_load :: "nat \<Rightarrow> nat \<Rightarrow> view \<Rightarrow> 'v history \<Rightarrow> 'v \<times> view" where
  "acquire_load i j v h = (fst (h i ! j), view_join (see_seq i j v) (snd (h i ! j)))"

definition release_store :: "nat \<Rightarrow> 'v \<Rightarrow> view \<Rightarrow> 'v history \<Rightarrow> 'v history \<times> view" where
  "release_store i x v h = (let u = see_seq i (length (h i)) v in (h(i := h i @ [(x, u)]), u))"

text \<open>
  A plain access that does not come after every earlier plain access to the same data is a data
  race, so undefined behaviour. A store to an atomic that does not come after every earlier one
  leaves open where it goes in the modification order; \<open>release_store\<close> appends.
\<close>

definition use_unordered :: "nat \<Rightarrow> view \<Rightarrow> (nat \<Rightarrow> nat) \<Rightarrow> bool" where
  "use_unordered i v u \<longleftrightarrow> seen_use v i \<noteq> u i"

definition store_unordered :: "nat \<Rightarrow> view \<Rightarrow> 'v history \<Rightarrow> bool" where
  "store_unordered i v h \<longleftrightarrow> Suc (seen_seq v i) \<noteq> length (h i)"

text \<open>A view speaks only of messages and accesses that exist.\<close>

definition within :: "view \<Rightarrow> 'v history \<Rightarrow> (nat \<Rightarrow> nat) \<Rightarrow> bool" where
  "within v h u \<longleftrightarrow> (\<forall>i. seen_seq v i < length (h i) \<and> seen_use v i \<le> u i)"

definition msgs_within :: "'v history \<Rightarrow> (nat \<Rightarrow> nat) \<Rightarrow> bool" where
  "msgs_within h u \<longleftrightarrow> (\<forall>i. \<forall>m\<in>set (h i). within (snd m) h u)"

lemma view_selects [simp]:
  "seen_seq (see_seq i j v) = (seen_seq v)(i := j)" "seen_use (see_seq i j v) = seen_use v"
  "seen_seq (see_use i j v) = seen_seq v" "seen_use (see_use i j v) = (seen_use v)(i := j)"
  "seen_seq (view_join v u) i = max (seen_seq v i) (seen_seq u i)"
  "seen_use (view_join v u) i = max (seen_use v i) (seen_use u i)"
  by (simp_all add: see_seq_def see_use_def view_join_def)

lemma within_mono:
  assumes "within v h u" and "\<And>i. length (h i) \<le> length (h' i)" and "\<And>i. u i \<le> u' i"
  shows "within v h' u'"
  using assms unfolding within_def by (meson le_trans less_le_trans)

lemma within_join: "within v h u \<Longrightarrow> within w h u \<Longrightarrow> within (view_join v w) h u"
  by (simp add: within_def)

lemma within_load:
  assumes "within v h u" and "msgs_within h u" and "readable i j v h"
  shows "within (snd (acquire_load i j v h)) h u"
proof -
  have "within (snd (h i ! j)) h u"
    using assms(2,3) unfolding msgs_within_def readable_def by (meson nth_mem)
  then show ?thesis using assms(1,3) by (auto simp: within_def readable_def acquire_load_def)
qed

lemma load_mono:
  assumes "readable i j v h"
  shows "seen_seq v l \<le> seen_seq (snd (acquire_load i j v h)) l"
  using assms by (auto simp: readable_def acquire_load_def)

lemma msgs_within_mono:
  assumes "msgs_within h u" and "\<And>i. u i \<le> u' i"
  shows "msgs_within h u'"
  using assms within_mono [of _ h u h u'] unfolding msgs_within_def by blast

text \<open>A store by a thread that has seen everything.\<close>

lemma within_store:
  assumes "within v h u" and "msgs_within h u"
    and h': "h' = h(i := h i @ [(x, see_seq i (length (h i)) v)])"
  shows "msgs_within h' u" and "within (see_seq i (length (h i)) v) h' u"
    and "\<And>w. within w h u \<Longrightarrow> within w h' u"
proof -
  show mono: "within w h' u" if "within w h u" for w
    using that by (rule within_mono) (simp_all add: h')
  show new: "within (see_seq i (length (h i)) v) h' u"
    using assms(1) by (auto simp: within_def h')
  show "msgs_within h' u"
    using assms(2) mono new by (auto simp: msgs_within_def h')
qed

lemma last_at: "length xs = Suc j \<Longrightarrow> last xs = xs ! j"
  by (cases xs) (auto simp: last_conv_nth)

lemma all_nth_append:
  "(\<forall>j<length (xs @ [x]). Q j ((xs @ [x]) ! j)) \<longleftrightarrow> (\<forall>j<length xs. Q j (xs ! j)) \<and> Q (length xs) x"
  by (auto simp: nth_append less_Suc_eq)

end
