(* ===== verification/Spsc_Weak.thy ===== *)
theory Spsc_Weak
  imports Spsc Weak_Memory
begin

text \<open>
  \<open>SPSCQueue\<close> of \<open>include/lock_free_queue.hpp\<close> under the memory model of C++: the producer and the
  consumer of \<open>Spsc\<close>, with the \<open>acquire\<close> loads and \<open>release\<close> stores of the sequence numbers taken
  at their word. A load may read a stale value; what a thread knows of the other's accesses is
  only what the messages it has read carry. The interleaving of \<open>Spsc\<close> is then a theorem, not
  an assumption: no data race happens and every run is a run of \<open>Spsc\<close> with spurious refusals.
\<close>

subsection \<open>The two threads\<close>

text \<open>
  \<open>chan\<close> holds the positions, the data, the program counters and the last value of every sequence
  number, which no load reads. \<open>raced\<close> is set by an access to the data that does not come after
  every earlier access to the same data (a data race, so undefined behaviour), and by a store to a
  sequence number that does not come after every earlier one (its place in the modification order
  would then be open).
\<close>

record 'a weak =
  chan :: "'a channel"
  hist :: "u64 history"
  uses :: "nat \<Rightarrow> nat"
  p_view :: view
  c_view :: view
  raced :: bool

definition weak_new :: "'a spsc \<Rightarrow> 'a weak" where
  "weak_new q = \<lparr>chan = channel_new q, hist = (\<lambda>i. [(of_nat i, view_new)]), uses = (\<lambda>i. 0),
                 p_view = view_new, c_view = view_new, raced = False\<rparr>"

definition node_of :: "u64 \<Rightarrow> 'a weak \<Rightarrow> nat" where
  "node_of h w = slot h (ring (chan w))"

text \<open>
  The accesses of \<open>try_push\<close>, one definition each, then those of \<open>try_pop\<close>. The head is written
  by the producer only and the tail by the consumer only.
\<close>

definition push_start :: "'a \<Rightarrow> 'a weak \<Rightarrow> 'a weak" where
  "push_start x w = w\<lparr>chan := (chan w)\<lparr>prod := P_Head x (head_pos (ring (chan w)))\<rparr>\<rparr>"

definition push_load :: "'a \<Rightarrow> u64 \<Rightarrow> nat \<Rightarrow> 'a weak \<Rightarrow> 'a weak" where
  "push_load x h j w =
     (let (s, v) = acquire_load (node_of h w) j (p_view w) (hist w)
      in w\<lparr>p_view := v, chan := (chan w)\<lparr>prod := if s \<noteq> h then P_Idle else P_Write x h\<rparr>\<rparr>)"

definition push_data :: "'a \<Rightarrow> u64 \<Rightarrow> 'a weak \<Rightarrow> 'a weak" where
  "push_data x h w =
     (let i = node_of h w; c = chan w
      in w\<lparr>raced := raced w \<or> use_unordered i (p_view w) (uses w),
           uses := (uses w)(i := Suc (uses w i)), p_view := see_use i (Suc (uses w i)) (p_view w),
           chan := c\<lparr>ring := write_data i x (ring c), prod := P_Publish x h\<rparr>\<rparr>)"

definition push_store :: "'a \<Rightarrow> u64 \<Rightarrow> 'a weak \<Rightarrow> 'a weak" where
  "push_store x h w =
     (let i = node_of h w; c = chan w; (m, v) = release_store i (h + 1) (p_view w) (hist w)
      in w\<lparr>raced := raced w \<or> store_unordered i (p_view w) (hist w), hist := m, p_view := v,
           chan := c\<lparr>ring := write_seq i (h + 1) (ring c), prod := P_Advance h, sent := sent c @ [x]\<rparr>\<rparr>)"

definition push_finish :: "u64 \<Rightarrow> 'a weak \<Rightarrow> 'a weak" where
  "push_finish h w =
     w\<lparr>chan := (chan w)\<lparr>ring := (ring (chan w))\<lparr>head_pos := h + 1\<rparr>, prod := P_Idle\<rparr>\<rparr>"

definition pop_start :: "'a weak \<Rightarrow> 'a weak" where
  "pop_start w = w\<lparr>chan := (chan w)\<lparr>cons := C_Tail (tail_pos (ring (chan w)))\<rparr>\<rparr>"

definition pop_load :: "u64 \<Rightarrow> nat \<Rightarrow> 'a weak \<Rightarrow> 'a weak" where
  "pop_load t j w =
     (let (s, v) = acquire_load (node_of t w) j (c_view w) (hist w)
      in w\<lparr>c_view := v, chan := (chan w)\<lparr>cons := if s \<noteq> t + 1 then C_Idle else C_Read t\<rparr>\<rparr>)"

definition pop_data :: "u64 \<Rightarrow> 'a weak \<Rightarrow> 'a weak" where
  "pop_data t w =
     (let i = node_of t w; c = chan w
      in w\<lparr>raced := raced w \<or> use_unordered i (c_view w) (uses w),
           uses := (uses w)(i := Suc (uses w i)), c_view := see_use i (Suc (uses w i)) (c_view w),
           chan := c\<lparr>cons := C_Release t (node_data (ring c) ! i)\<rparr>\<rparr>)"

definition pop_store :: "u64 \<Rightarrow> 'a \<Rightarrow> 'a weak \<Rightarrow> 'a weak" where
  "pop_store t x w =
     (let i = node_of t w; c = chan w;
          (m, v) = release_store i (t + capacity (ring c)) (c_view w) (hist w)
      in w\<lparr>raced := raced w \<or> store_unordered i (c_view w) (hist w), hist := m, c_view := v,
           chan := c\<lparr>ring := write_seq i (t + capacity (ring c)) (ring c), cons := C_Advance t x\<rparr>\<rparr>)"

definition pop_finish :: "u64 \<Rightarrow> 'a \<Rightarrow> 'a weak \<Rightarrow> 'a weak" where
  "pop_finish t x w =
     w\<lparr>chan := (chan w)\<lparr>ring := (ring (chan w))\<lparr>tail_pos := t + 1\<rparr>, cons := C_Idle,
                         received := received (chan w) @ [x]\<rparr>\<rparr>"

inductive weak_step :: "'a weak \<Rightarrow> 'a weak \<Rightarrow> bool" where
  weak_push_start: "prod (chan w) = P_Idle \<Longrightarrow> weak_step w (push_start x w)"
| weak_push_load: "prod (chan w) = P_Head x h \<Longrightarrow> readable (node_of h w) j (p_view w) (hist w) \<Longrightarrow>
    weak_step w (push_load x h j w)"
| weak_push_data: "prod (chan w) = P_Write x h \<Longrightarrow> weak_step w (push_data x h w)"
| weak_push_store: "prod (chan w) = P_Publish x h \<Longrightarrow> weak_step w (push_store x h w)"
| weak_push_finish: "prod (chan w) = P_Advance h \<Longrightarrow> weak_step w (push_finish h w)"
| weak_pop_start: "cons (chan w) = C_Idle \<Longrightarrow> weak_step w (pop_start w)"
| weak_pop_load: "cons (chan w) = C_Tail t \<Longrightarrow> readable (node_of t w) j (c_view w) (hist w) \<Longrightarrow>
    weak_step w (pop_load t j w)"
| weak_pop_data: "cons (chan w) = C_Read t \<Longrightarrow> weak_step w (pop_data t w)"
| weak_pop_store: "cons (chan w) = C_Release t x \<Longrightarrow> weak_step w (pop_store t x w)"
| weak_pop_finish: "cons (chan w) = C_Advance t x \<Longrightarrow> weak_step w (pop_finish t x w)"

text \<open>
  \<open>lossy_step\<close> is the interleaving of \<open>Spsc\<close> in which, besides, any call may give up.
\<close>

inductive lossy_step :: "'a channel \<Rightarrow> 'a channel \<Rightarrow> bool" where
  lossy_exact: "spsc_step c c' \<Longrightarrow> lossy_step c c'"
| lossy_push: "prod c = P_Head x h \<Longrightarrow> lossy_step c (c\<lparr>prod := P_Idle\<rparr>)"
| lossy_pop: "cons c = C_Tail t \<Longrightarrow> lossy_step c (c\<lparr>cons := C_Idle\<rparr>)"

subsection \<open>Which store is which\<close>

text \<open>
  \<open>visits k n i\<close> counts the positions below \<open>n\<close> that fall on node \<open>i\<close> of \<open>2 ^ k\<close>. The stores to
  the sequence number of a node alternate between the producer (odd indices) and the consumer.
\<close>

definition visits :: "nat \<Rightarrow> nat \<Rightarrow> nat \<Rightarrow> nat" where
  "visits k n i = n div 2 ^ k + (if i < n mod 2 ^ k then 1 else 0)"

definition seq_value :: "nat \<Rightarrow> nat \<Rightarrow> nat \<Rightarrow> u64" where
  "seq_value k i j = of_nat (i + j div 2 * 2 ^ k + j mod 2)"

lemma visits_0 [simp]: "visits k 0 i = 0"
  by (simp add: visits_def)

lemma visits_self [simp]: "visits k n (n mod 2 ^ k) = n div 2 ^ k"
  by (simp add: visits_def)

lemma visits_Suc:
  assumes "i < 2 ^ k"
  shows "visits k (Suc n) i = visits k n i + (if n mod 2 ^ k = i then 1 else 0)"
  using assms by (auto simp: visits_def div_Suc mod_Suc)

lemma visits_mono: "n \<le> m \<Longrightarrow> i < 2 ^ k \<Longrightarrow> visits k n i \<le> visits k m i"
  by (induction rule: dec_induct) (auto simp: visits_Suc)

lemma visits_gap:
  assumes "i < 2 ^ k" and "\<And>p. n \<le> p \<Longrightarrow> p < m \<Longrightarrow> p mod 2 ^ k \<noteq> i" and "n \<le> m"
  shows "visits k m i = visits k n i"
  using assms(3,1,2) by (induction rule: dec_induct) (auto simp: visits_Suc)

lemma mod_add_inj:
  assumes "a < (c::nat)" and "b < c" and "(t + a) mod c = (t + b) mod c"
  shows "a = b"
proof -
  have "a = b" if "a \<le> b" "b < c" "(t + a) mod c = (t + b) mod c" for a b
    using that mod_eq_dvd_iff_nat [of "t + a" "t + b" c] by (auto dest: dvd_imp_le)
  then show ?thesis using assms by (metis nat_le_linear)
qed

lemma visits_ahead:
  assumes "t \<le> h" and "h < t + 2 ^ k"
  shows "visits k t (h mod 2 ^ k) = h div 2 ^ k"
proof -
  have gap: "p mod 2 ^ k \<noteq> h mod 2 ^ k" if "t \<le> p" "p < h" for p
  proof
    assume "p mod 2 ^ k = h mod 2 ^ k"
    then have "p - t = h - t" using that assms by - (rule mod_add_inj [of _ "2 ^ k" _ t], simp_all)
    with that show False by simp
  qed
  have "visits k h (h mod 2 ^ k) = visits k t (h mod 2 ^ k)"
    by (rule visits_gap [OF _ gap]) (use assms in simp_all)
  then show ?thesis by simp
qed

lemma visits_behind:
  assumes "t < h" and "h \<le> t + 2 ^ k"
  shows "visits k h (t mod 2 ^ k) = Suc (t div 2 ^ k)"
proof -
  have gap: "p mod 2 ^ k \<noteq> t mod 2 ^ k" if "Suc t \<le> p" "p < h" for p
  proof
    assume "p mod 2 ^ k = t mod 2 ^ k"
    then have "p - t = 0" using that assms by - (rule mod_add_inj [of _ "2 ^ k" _ t], simp_all)
    with that show False by simp
  qed
  have "visits k h (t mod 2 ^ k) = visits k (Suc t) (t mod 2 ^ k)"
    by (rule visits_gap [OF _ gap]) (use assms in simp_all)
  then show ?thesis by (simp add: visits_Suc)
qed

lemma seq_value_free: "seq_value k (n mod 2 ^ k) (2 * (n div 2 ^ k)) = of_nat n"
  by (simp add: seq_value_def mult.commute del: of_nat_add of_nat_mult)

lemma seq_value_busy: "seq_value k (n mod 2 ^ k) (Suc (2 * (n div 2 ^ k))) = of_nat n + 1"
  using seq_value_free [of k n] by (simp add: seq_value_def)

lemma seq_value_released:
  "seq_value k (n mod 2 ^ k) (Suc (Suc (2 * (n div 2 ^ k)))) = of_nat n + 2 ^ k"
  using seq_value_free [of k n] by (simp add: seq_value_def algebra_simps)


subsection \<open>The invariant\<close>

definition published :: "'a weak \<Rightarrow> nat" where
  "published w = length (sent (chan w))"

definition released :: "'a weak \<Rightarrow> nat" where
  "released w = length (received (chan w)) + length (in_hand (chan w))"

definition writing :: "'a weak \<Rightarrow> nat \<Rightarrow> nat" where
  "writing w i = (case prod (chan w) of P_Publish x h \<Rightarrow> (if node_of h w = i then 1 else 0) | _ \<Rightarrow> 0)"

definition reading :: "'a weak \<Rightarrow> nat \<Rightarrow> nat" where
  "reading w i = (case cons (chan w) of C_Release t x \<Rightarrow> (if node_of t w = i then 1 else 0) | _ \<Rightarrow> 0)"

abbreviation bounded :: "view \<Rightarrow> 'a weak \<Rightarrow> bool" where
  "bounded v w \<equiv> within v (hist w) (uses w)"

abbreviation msgs_ok :: "'a weak \<Rightarrow> bool" where
  "msgs_ok w \<equiv> msgs_within (hist w) (uses w)"

definition owner :: "view \<Rightarrow> nat \<Rightarrow> 'a weak \<Rightarrow> bool" where
  "owner v i w \<longleftrightarrow> Suc (seen_seq v i) = length (hist w i) \<and> seen_use v i = uses w i"

definition node_ok :: "nat \<Rightarrow> 'a weak \<Rightarrow> nat \<Rightarrow> bool" where
  "node_ok k w i \<longleftrightarrow>
     length (hist w i) = Suc (visits k (published w) i + visits k (released w) i) \<and>
     Suc (uses w i) = length (hist w i) + writing w i + reading w i \<and>
     2 * visits k (published w) i \<le> Suc (seen_seq (p_view w) i) \<and>
     2 * visits k (released w) i \<le> seen_seq (c_view w) i \<and>
     sequences (ring (chan w)) ! i = fst (last (hist w i)) \<and>
     (\<forall>j<length (hist w i). fst (hist w i ! j) = seq_value k i j \<and> j \<le> seen_use (snd (hist w i ! j)) i)"

text \<open>The node a thread has claimed, and that nothing in it is hidden from the claimant.\<close>

definition p_node :: "'a weak \<Rightarrow> nat option" where
  "p_node w = (case prod (chan w) of
     P_Write x h \<Rightarrow> Some (node_of h w) | P_Publish x h \<Rightarrow> Some (node_of h w) | _ \<Rightarrow> None)"

definition c_node :: "'a weak \<Rightarrow> nat option" where
  "c_node w = (case cons (chan w) of
     C_Read t \<Rightarrow> Some (node_of t w) | C_Release t x \<Rightarrow> Some (node_of t w) | _ \<Rightarrow> None)"

definition p_owns :: "'a weak \<Rightarrow> bool" where
  "p_owns w \<longleftrightarrow> (\<forall>i. p_node w = Some i \<longrightarrow> owner (p_view w) i w)"

definition c_owns :: "'a weak \<Rightarrow> bool" where
  "c_owns w \<longleftrightarrow> (\<forall>i. c_node w = Some i \<longrightarrow> owner (c_view w) i w)"

definition weak_ok :: "nat \<Rightarrow> 'a weak \<Rightarrow> bool" where
  "weak_ok k w \<longleftrightarrow> \<not> raced w \<and> (\<exists>n. channel_at k n (chan w)) \<and>
     eff_head (chan w) = of_nat (published w) \<and> eff_tail (chan w) = of_nat (released w) \<and>
     (\<forall>i<2 ^ k. node_ok k w i) \<and> msgs_ok w \<and> bounded (p_view w) w \<and> bounded (c_view w) w \<and>
     p_owns w \<and> c_owns w"

lemma node_ok_cong:
  assumes "node_ok k w i" and "hist w' i = hist w i" and "uses w' i = uses w i"
    and "writing w' i = writing w i" and "reading w' i = reading w i"
    and "visits k (published w') i = visits k (published w) i"
    and "visits k (released w') i = visits k (released w) i"
    and "seen_seq (p_view w) i \<le> seen_seq (p_view w') i"
    and "seen_seq (c_view w) i \<le> seen_seq (c_view w') i"
    and "sequences (ring (chan w')) ! i = sequences (ring (chan w)) ! i"
  shows "node_ok k w' i"
  using assms by (simp add: node_ok_def)

text \<open>Where the positions and their nodes are.\<close>

lemma weak_positions:
  assumes "weak_ok k w"
  obtains n where "channel_at k n (chan w)" and "published w = released w + n" and "n \<le> 2 ^ k"
    and "node_of (of_nat m) w = m mod 2 ^ k" and "1 \<le> k" and "(2 ^ k :: u64) \<noteq> 1"
proof -
  obtain n where n: "channel_at k n (chan w)" using assms by (auto simp: weak_ok_def)
  then have g: "geometry k (ring (chan w))" by (simp add: channel_at_def)
  have "slot (of_nat m) (ring (chan w)) = m mod 2 ^ k" for m
    using slot_ring [OF g, of 0 m] unat_plus_mod [of k 0 m] g
    by (simp add: ring_at_def geometry_def)
  moreover have "published w = released w + n"
    using n by (simp add: channel_at_def published_def released_def)
  ultimately show ?thesis
    using that n channel_slots(3) [OF n] two_power_not_1 [OF g] g by (simp add: node_of_def geometry_def)
qed


lemma weak_head:
  assumes "weak_ok k w"
  shows "prod (chan w) = P_Head x h \<Longrightarrow> h = of_nat (published w)"
    and "prod (chan w) = P_Write x h \<Longrightarrow> h = of_nat (published w) \<and> published w < released w + 2 ^ k"
    and "prod (chan w) = P_Publish x h \<Longrightarrow> h = of_nat (published w) \<and> published w < released w + 2 ^ k"
proof -
  obtain n where n: "channel_at k n (chan w)" "published w = released w + n"
    using assms by (rule weak_positions) blast
  have head: "eff_head (chan w) = of_nat (published w)" using assms by (simp add: weak_ok_def)
  have "prod_ok k n (chan w)" using n(1) by (simp add: channel_at_def)
  with n(2) head
  show "prod (chan w) = P_Head x h \<Longrightarrow> h = of_nat (published w)"
    and "prod (chan w) = P_Write x h \<Longrightarrow> h = of_nat (published w) \<and> published w < released w + 2 ^ k"
    and "prod (chan w) = P_Publish x h \<Longrightarrow> h = of_nat (published w) \<and> published w < released w + 2 ^ k"
    by (simp_all add: prod_ok_def eff_head_def)
qed

lemma weak_tail:
  assumes "weak_ok k w"
  shows "cons (chan w) = C_Tail t \<Longrightarrow> t = of_nat (released w)"
    and "cons (chan w) = C_Read t \<Longrightarrow> t = of_nat (released w) \<and> released w < published w"
    and "cons (chan w) = C_Release t x \<Longrightarrow> t = of_nat (released w) \<and> released w < published w"
proof -
  obtain n where n: "channel_at k n (chan w)" "published w = released w + n"
    using assms by (rule weak_positions) blast
  have tl: "eff_tail (chan w) = of_nat (released w)" using assms by (simp add: weak_ok_def)
  have "cons_ok n (chan w)" using n(1) by (simp add: channel_at_def)
  with n(2) tl
  show "cons (chan w) = C_Tail t \<Longrightarrow> t = of_nat (released w)"
    and "cons (chan w) = C_Read t \<Longrightarrow> t = of_nat (released w) \<and> released w < published w"
    and "cons (chan w) = C_Release t x \<Longrightarrow> t = of_nat (released w) \<and> released w < published w"
    by (simp_all add: cons_ok_def eff_tail_def)
qed

lemma weak_pos:
  assumes "weak_ok k w"
  shows "released w \<le> published w" and "published w \<le> released w + 2 ^ k"
    and "node_of (of_nat m) w = m mod 2 ^ k" and "(2 ^ k :: u64) \<noteq> 1"
  using weak_positions [OF assms] by (metis le_add1, metis nat_add_left_cancel_le, metis, metis)

lemma writing_node:
  assumes "weak_ok k w" and "writing w i \<noteq> 0"
  shows "published w mod 2 ^ k = i" and "published w < released w + 2 ^ k"
  using assms(2) weak_head(3) [OF assms(1)] weak_pos(3) [OF assms(1)]
  by (auto simp: writing_def split: producer.splits if_splits)

lemma reading_node:
  assumes "weak_ok k w" and "reading w i \<noteq> 0"
  shows "released w mod 2 ^ k = i" and "released w < published w"
  using assms(2) weak_tail(3) [OF assms(1)] weak_pos(3) [OF assms(1)]
  by (auto simp: reading_def split: consumer.splits if_splits)

subsection \<open>A load that succeeds reads the latest message\<close>

lemma seq_value_step:
  "seq_value k i (Suc (2 * m)) = seq_value k i (2 * m) + 1"
  "seq_value k i (2 * Suc m) = seq_value k i (2 * m) + 2 ^ k"
proof -
  have "Suc (2 * m) div 2 = m" "Suc (2 * m) mod 2 = 1" by presburger+
  then show "seq_value k i (Suc (2 * m)) = seq_value k i (2 * m) + 1"
    by (simp add: seq_value_def del: mult_Suc_right)
  show "seq_value k i (2 * Suc m) = seq_value k i (2 * m) + 2 ^ k"
    by (simp add: seq_value_def algebra_simps)
qed

lemma latest_owner:
  assumes "bounded v w" and "msgs_ok w" and "readable i j v (hist w)"
    and "Suc j = length (hist w i)" and "Suc (uses w i) = length (hist w i)"
    and "j \<le> seen_use (snd (hist w i ! j)) i"
  shows "owner (snd (acquire_load i j v (hist w))) i w"
proof -
  have "bounded (snd (acquire_load i j v (hist w))) w"
    using assms(1-3) by (rule within_load)
  then have "seen_seq (snd (acquire_load i j v (hist w))) i \<le> j"
      "seen_use (snd (acquire_load i j v (hist w))) i \<le> uses w i"
    using assms(4) unfolding within_def by (metis less_Suc_eq_le, blast)
  then show ?thesis using assms(4-6) by (simp add: owner_def acquire_load_def)
qed

lemma push_latest:
  assumes ok: "weak_ok k w" and pc: "prod (chan w) = P_Head x h"
    and load: "readable (node_of h w) j (p_view w) (hist w)"
    and eq: "fst (acquire_load (node_of h w) j (p_view w) (hist w)) = h"
  shows "owner (snd (acquire_load (node_of h w) j (p_view w) (hist w))) (node_of h w) w \<and>
    sequences (ring (chan w)) ! slot h (ring (chan w)) = h"
proof -
  note pos = weak_pos [OF ok]
  define i where "i = published w mod 2 ^ k"
  define m where "m = published w div 2 ^ k"
  have h: "h = of_nat (published w)" and hi: "node_of h w = i"
    using weak_head(1) [OF ok pc] pos(3) by (simp_all add: i_def)
  have nok: "node_ok k w i" using ok by (simp add: weak_ok_def i_def)
  have vis: "visits k (published w) i = m" by (simp add: i_def m_def)
  have le: "visits k (released w) i \<le> m"
    using visits_mono [of "released w" "published w" i k] pos(1) by (simp add: vis) (simp add: i_def)
  have val: "seq_value k i j = seq_value k i (2 * m)"
    using eq load nok h seq_value_free [of k "published w"] pos(3)
    by (simp add: hi node_ok_def acquire_load_def readable_def) (simp add: i_def m_def)
  have range: "2 * m \<le> Suc j" "j \<le> m + visits k (released w) i"
    using load nok by (auto simp: hi node_ok_def readable_def vis)
  have j: "j = 2 * m"
  proof (rule ccontr)
    assume "j \<noteq> 2 * m"
    then have l: "m = Suc (m - 1)" "j = Suc (2 * (m - 1))" using range le by simp_all
    have "seq_value k i (Suc (2 * (m - 1))) = seq_value k i (2 * Suc (m - 1))"
      using val l by simp
    with pos(4) show False by (simp only: seq_value_step) simp
  qed
  then have full: "visits k (released w) i = m" using range le by simp
  have "reading w i = 0"
  proof (rule ccontr)
    assume "reading w i \<noteq> 0"
    note rd = reading_node [OF ok this]
    show False
      using visits_behind [OF rd(2) pos(2)] visits_self [of k "released w"] rd(1) full vis by simp
  qed
  moreover have "writing w i = 0" using pc by (simp add: writing_def)
  ultimately have "owner (snd (acquire_load i j (p_view w) (hist w))) i w"
    using ok load nok full vis j unfolding hi
    by (intro latest_owner) (auto simp: weak_ok_def node_ok_def)
  moreover have "sequences (ring (chan w)) ! i = h"
    using eq nok full vis j last_at [of "hist w i" j] by (simp add: hi node_ok_def acquire_load_def)
  ultimately show ?thesis using hi by (simp add: node_of_def)
qed

lemma pop_latest:
  assumes ok: "weak_ok k w" and pc: "cons (chan w) = C_Tail t"
    and load: "readable (node_of t w) j (c_view w) (hist w)"
    and eq: "fst (acquire_load (node_of t w) j (c_view w) (hist w)) = t + 1"
  shows "owner (snd (acquire_load (node_of t w) j (c_view w) (hist w))) (node_of t w) w \<and>
    sequences (ring (chan w)) ! slot t (ring (chan w)) = t + 1"
proof -
  note pos = weak_pos [OF ok]
  define i where "i = released w mod 2 ^ k"
  define m where "m = released w div 2 ^ k"
  have t: "t = of_nat (released w)" and ti: "node_of t w = i"
    using weak_tail(1) [OF ok pc] pos(3) by (simp_all add: i_def)
  have nok: "node_ok k w i" using ok by (simp add: weak_ok_def i_def)
  have vis: "visits k (released w) i = m" by (simp add: i_def m_def)
  have le: "visits k (published w) i \<le> Suc m"
    using visits_behind [of "released w" "published w" k] pos(1,2)
    by (cases "released w = published w") (simp_all add: i_def m_def)
  have val: "seq_value k i j = seq_value k i (2 * m) + 1"
    using eq load nok t seq_value_free [of k "released w"] pos(3)
    by (simp add: ti node_ok_def acquire_load_def readable_def) (simp add: i_def m_def)
  have range: "2 * m \<le> j" "j \<le> m + visits k (published w) i"
    using load nok by (auto simp: ti node_ok_def readable_def vis)
  have j: "j = Suc (2 * m)"
  proof (rule ccontr)
    assume "j \<noteq> Suc (2 * m)"
    then have "j = 2 * m" using range le by simp
    with val show False by simp
  qed
  then have full: "visits k (published w) i = Suc m" using range le by simp
  have "writing w i = 0"
  proof (rule ccontr)
    assume "writing w i \<noteq> 0"
    note wr = writing_node [OF ok this]
    show False
      using visits_ahead [OF pos(1) wr(2)] visits_self [of k "published w"] wr(1) full vis by simp
  qed
  moreover have "reading w i = 0" using pc by (simp add: reading_def)
  ultimately have "owner (snd (acquire_load i j (c_view w) (hist w))) i w"
    using ok load nok full vis j unfolding ti
    by (intro latest_owner) (auto simp: weak_ok_def node_ok_def)
  moreover have "sequences (ring (chan w)) ! i = t + 1"
    using eq nok full vis j last_at [of "hist w i" j] by (simp add: ti node_ok_def acquire_load_def)
  ultimately show ?thesis using ti by (simp add: node_of_def)
qed


subsection \<open>Every step keeps the invariant\<close>

lemma lossy_channel:
  assumes "channel_at k n c" and "lossy_step c c'"
  shows "\<exists>m. channel_at k m c'"
  using assms(2)
proof (cases rule: lossy_step.cases)
  case lossy_exact
  then show ?thesis using channel_step [OF assms(1)] by blast
next
  case lossy_push
  then show ?thesis using assms(1) by (auto simp: channel_at_def pc_defs split: consumer.splits)
next
  case lossy_pop
  then show ?thesis using assms(1) by (auto simp: channel_at_def pc_defs split: producer.splits)
qed

lemma weak_ok_channel:
  assumes "weak_ok k w" and "lossy_step (chan w) c'"
  shows "\<exists>n. channel_at k n c'"
  using assms lossy_channel unfolding weak_ok_def by blast

text \<open>What a step of one thread leaves to the other.\<close>

definition same_producer :: "'a weak \<Rightarrow> 'a weak \<Rightarrow> bool" where
  "same_producer w w' \<longleftrightarrow> prod (chan w') = prod (chan w) \<and> sent (chan w') = sent (chan w) \<and>
     head_pos (ring (chan w')) = head_pos (ring (chan w)) \<and>
     mask_bits (ring (chan w')) = mask_bits (ring (chan w)) \<and> p_view w' = p_view w"

definition same_consumer :: "'a weak \<Rightarrow> 'a weak \<Rightarrow> bool" where
  "same_consumer w w' \<longleftrightarrow> cons (chan w') = cons (chan w) \<and> received (chan w') = received (chan w) \<and>
     tail_pos (ring (chan w')) = tail_pos (ring (chan w)) \<and>
     mask_bits (ring (chan w')) = mask_bits (ring (chan w)) \<and> c_view w' = c_view w"

lemma node_of_mask: "mask_bits (ring (chan w')) = mask_bits (ring (chan w)) \<Longrightarrow> node_of h w' = node_of h w"
  by (simp add: node_of_def slot_def)

lemma same_producerD:
  assumes "same_producer w w'"
  shows "writing w' = writing w" and "published w' = published w"
    and "eff_head (chan w') = eff_head (chan w)" and "p_node w' = p_node w" and "p_view w' = p_view w"
proof -
  have *: "node_of h w' = node_of h w" for h using assms by (intro node_of_mask) (simp add: same_producer_def)
  show "writing w' = writing w" using assms * by (simp add: same_producer_def writing_def fun_eq_iff cong: producer.case_cong)
  show "published w' = published w" using assms by (simp add: same_producer_def published_def)
  show "eff_head (chan w') = eff_head (chan w)" using assms by (simp add: same_producer_def eff_head_def cong: producer.case_cong)
  show "p_node w' = p_node w" using assms * by (simp add: same_producer_def p_node_def cong: producer.case_cong)
  show "p_view w' = p_view w" using assms by (simp add: same_producer_def)
qed

lemma same_consumerD:
  assumes "same_consumer w w'"
  shows "reading w' = reading w" and "released w' = released w"
    and "eff_tail (chan w') = eff_tail (chan w)" and "c_node w' = c_node w" and "c_view w' = c_view w"
proof -
  have *: "node_of h w' = node_of h w" for h using assms by (intro node_of_mask) (simp add: same_consumer_def)
  show "reading w' = reading w" using assms * by (simp add: same_consumer_def reading_def fun_eq_iff cong: consumer.case_cong)
  show "released w' = released w" using assms by (simp add: same_consumer_def released_def in_hand_def)
  show "eff_tail (chan w') = eff_tail (chan w)" using assms by (simp add: same_consumer_def eff_tail_def cong: consumer.case_cong)
  show "c_node w' = c_node w" using assms * by (simp add: same_consumer_def c_node_def cong: consumer.case_cong)
  show "c_view w' = c_view w" using assms by (simp add: same_consumer_def)
qed

text \<open>A step that writes neither data nor sequence numbers.\<close>

definition quiet :: "'a weak \<Rightarrow> 'a weak \<Rightarrow> bool" where
  "quiet w w' \<longleftrightarrow> hist w' = hist w \<and> uses w' = uses w \<and> raced w' = raced w \<and>
     sequences (ring (chan w')) = sequences (ring (chan w))"

lemma quiet_views:
  assumes "quiet w w'"
  shows "bounded v w' = bounded v w" and "owner v i w' = owner v i w"
  using assms by (simp_all add: quiet_def within_def owner_def)

lemma weak_ok_producer:
  assumes ok: "weak_ok k w" and step: "lossy_step (chan w) (chan w')" and q: "quiet w w'"
    and same: "same_consumer w w'" and "writing w' = writing w" and "published w' = published w"
    and "eff_head (chan w') = eff_head (chan w)" and v: "bounded (p_view w') w"
    and "\<And>i. seen_seq (p_view w) i \<le> seen_seq (p_view w') i"
    and own: "\<And>i. p_node w' = Some i \<Longrightarrow> owner (p_view w') i w"
  shows "weak_ok k w'"
proof -
  note sameD = same_consumerD [OF same] and qv = quiet_views [OF q]
  have "node_ok k w' i" if "i < 2 ^ k" for i
    using ok q that assms(5,6,9) sameD
    by (intro node_ok_cong [of k w i w']) (auto simp: weak_ok_def quiet_def)
  moreover have "msgs_ok w'"
    using ok qv(1) by (simp add: weak_ok_def msgs_within_def) (use q in \<open>simp add: quiet_def\<close>)
  ultimately show ?thesis
    using ok assms(6,7) v own weak_ok_channel [OF ok step] sameD qv q
    by (simp add: weak_ok_def p_owns_def c_owns_def) (simp add: quiet_def)
qed

lemma weak_ok_consumer:
  assumes ok: "weak_ok k w" and step: "lossy_step (chan w) (chan w')" and q: "quiet w w'"
    and same: "same_producer w w'" and "reading w' = reading w" and "released w' = released w"
    and "eff_tail (chan w') = eff_tail (chan w)" and v: "bounded (c_view w') w"
    and "\<And>i. seen_seq (c_view w) i \<le> seen_seq (c_view w') i"
    and own: "\<And>i. c_node w' = Some i \<Longrightarrow> owner (c_view w') i w"
  shows "weak_ok k w'"
proof -
  note sameD = same_producerD [OF same] and qv = quiet_views [OF q]
  have "node_ok k w' i" if "i < 2 ^ k" for i
    using ok q that assms(5,6,9) sameD
    by (intro node_ok_cong [of k w i w']) (auto simp: weak_ok_def quiet_def)
  moreover have "msgs_ok w'"
    using ok qv(1) by (simp add: weak_ok_def msgs_within_def) (use q in \<open>simp add: quiet_def\<close>)
  ultimately show ?thesis
    using ok assms(6,7) v own weak_ok_channel [OF ok step] sameD qv q
    by (simp add: weak_ok_def p_owns_def c_owns_def) (simp add: quiet_def)
qed

lemmas frame_defs = quiet_def same_consumer_def same_producer_def

lemma weak_push_start_ok:
  assumes ok: "weak_ok k w" and pc: "prod (chan w) = P_Idle"
  shows "weak_ok k (push_start x w) \<and> lossy_step (chan w) (chan (push_start x w))"
proof -
  define w' where "w' = push_start x w"
  note w' = w'_def [unfolded push_start_def]
  have step: "lossy_step (chan w) (chan w')"
    using spsc_step.push_call [OF pc] by (simp add: w' lossy_exact)
  moreover have "weak_ok k w'"
    by (rule weak_ok_producer [OF ok step])
      (use ok pc in \<open>simp_all add: w' frame_defs weak_ok_def writing_def published_def eff_head_def p_node_def fun_eq_iff\<close>)
  ultimately show ?thesis by (simp add: w'_def)
qed

lemma weak_push_finish_ok:
  assumes ok: "weak_ok k w" and pc: "prod (chan w) = P_Advance h"
  shows "weak_ok k (push_finish h w) \<and> lossy_step (chan w) (chan (push_finish h w))"
proof -
  define w' where "w' = push_finish h w"
  note w' = w'_def [unfolded push_finish_def]
  have step: "lossy_step (chan w) (chan w')"
    using spsc_step.push_advance [OF pc] by (simp add: w' lossy_exact)
  moreover have "weak_ok k w'"
    by (rule weak_ok_producer [OF ok step])
      (use ok pc in \<open>simp_all add: w' frame_defs weak_ok_def writing_def published_def eff_head_def p_node_def fun_eq_iff\<close>)
  ultimately show ?thesis by (simp add: w'_def)
qed

lemma weak_pop_start_ok:
  assumes ok: "weak_ok k w" and pc: "cons (chan w) = C_Idle"
  shows "weak_ok k (pop_start w) \<and> lossy_step (chan w) (chan (pop_start w))"
proof -
  define w' where "w' = pop_start w"
  note w' = w'_def [unfolded pop_start_def]
  have step: "lossy_step (chan w) (chan w')"
    using spsc_step.pop_call [OF pc] by (simp add: w' lossy_exact)
  moreover have "weak_ok k w'"
    by (rule weak_ok_consumer [OF ok step])
      (use ok pc in \<open>simp_all add: w' frame_defs weak_ok_def reading_def released_def in_hand_def eff_tail_def c_node_def fun_eq_iff\<close>)
  ultimately show ?thesis by (simp add: w'_def)
qed

lemma weak_pop_finish_ok:
  assumes ok: "weak_ok k w" and pc: "cons (chan w) = C_Advance t x"
  shows "weak_ok k (pop_finish t x w) \<and> lossy_step (chan w) (chan (pop_finish t x w))"
proof -
  define w' where "w' = pop_finish t x w"
  note w' = w'_def [unfolded pop_finish_def]
  have step: "lossy_step (chan w) (chan w')"
    using spsc_step.pop_advance [OF pc] by (simp add: w' lossy_exact)
  moreover have "weak_ok k w'"
    by (rule weak_ok_consumer [OF ok step])
      (use ok pc in \<open>simp_all add: w' frame_defs weak_ok_def reading_def released_def in_hand_def eff_tail_def c_node_def fun_eq_iff\<close>)
  ultimately show ?thesis by (simp add: w'_def)
qed

lemma weak_push_load_ok:
  assumes ok: "weak_ok k w" and pc: "prod (chan w) = P_Head x h"
    and load: "readable (node_of h w) j (p_view w) (hist w)"
  shows "weak_ok k (push_load x h j w) \<and> lossy_step (chan w) (chan (push_load x h j w))"
proof -
  define s where "s = fst (acquire_load (node_of h w) j (p_view w) (hist w))"
  define v where "v = snd (acquire_load (node_of h w) j (p_view w) (hist w))"
  define w' where "w' = push_load x h j w"
  have w'_eq: "w' = w\<lparr>p_view := v, chan := (chan w)\<lparr>prod := if s \<noteq> h then P_Idle else P_Write x h\<rparr>\<rparr>"
    by (simp add: w'_def push_load_def s_def v_def split: prod.split)
  have latest: "owner v (node_of h w) w \<and> sequences (ring (chan w)) ! slot h (ring (chan w)) = h" if "s = h"
    using push_latest [OF ok pc load] that by (simp add: s_def v_def)
  have step: "lossy_step (chan w) (chan w')"
    using lossy_push [OF pc] latest spsc_step.push_claim [OF pc] by (auto simp: w'_eq lossy_exact)
  have views: "bounded v w" "\<And>i. seen_seq (p_view w) i \<le> seen_seq v i"
    using ok load_mono [OF load] by (auto simp: v_def weak_ok_def intro!: within_load [OF _ _ load])
  have "node_of g w' = node_of g w" for g by (simp add: w'_eq node_of_def)
  then have "weak_ok k w'"
    using latest views
    by (intro weak_ok_producer [OF ok step])
      (use pc in \<open>auto simp: w'_eq frame_defs writing_def published_def eff_head_def p_node_def fun_eq_iff split: if_splits\<close>)
  with step show ?thesis by (simp add: w'_def)
qed

lemma weak_pop_load_ok:
  assumes ok: "weak_ok k w" and pc: "cons (chan w) = C_Tail t"
    and load: "readable (node_of t w) j (c_view w) (hist w)"
  shows "weak_ok k (pop_load t j w) \<and> lossy_step (chan w) (chan (pop_load t j w))"
proof -
  define s where "s = fst (acquire_load (node_of t w) j (c_view w) (hist w))"
  define v where "v = snd (acquire_load (node_of t w) j (c_view w) (hist w))"
  define w' where "w' = pop_load t j w"
  have w'_eq: "w' = w\<lparr>c_view := v, chan := (chan w)\<lparr>cons := if s \<noteq> t + 1 then C_Idle else C_Read t\<rparr>\<rparr>"
    by (simp add: w'_def pop_load_def s_def v_def split: prod.split)
  have latest: "owner v (node_of t w) w \<and> sequences (ring (chan w)) ! slot t (ring (chan w)) = t + 1" if "s = t + 1"
    using pop_latest [OF ok pc load] that by (simp add: s_def v_def)
  have step: "lossy_step (chan w) (chan w')"
    using lossy_pop [OF pc] latest spsc_step.pop_claim [OF pc] by (auto simp: w'_eq lossy_exact)
  have views: "bounded v w" "\<And>i. seen_seq (c_view w) i \<le> seen_seq v i"
    using ok load_mono [OF load] by (auto simp: v_def weak_ok_def intro!: within_load [OF _ _ load])
  have "node_of g w' = node_of g w" for g by (simp add: w'_eq node_of_def)
  then have "weak_ok k w'"
    using latest views
    by (intro weak_ok_consumer [OF ok step])
      (use pc in \<open>auto simp: w'_eq frame_defs reading_def released_def in_hand_def eff_tail_def c_node_def fun_eq_iff split: if_splits\<close>)
  with step show ?thesis by (simp add: w'_def)
qed


text \<open>The steps that write a node: the claimed nodes of the two threads differ.\<close>

lemma weak_claims:
  assumes "weak_ok k w"
  shows "p_node w = Some i \<Longrightarrow> i = published w mod 2 ^ k \<and> published w < released w + 2 ^ k"
    and "c_node w = Some l \<Longrightarrow> l = released w mod 2 ^ k \<and> released w < published w"
    and "p_node w = Some i \<Longrightarrow> c_node w = Some l \<Longrightarrow> i \<noteq> l"
proof -
  show i: "p_node w = Some i \<Longrightarrow> i = published w mod 2 ^ k \<and> published w < released w + 2 ^ k"
    using weak_head(2,3) [OF assms] weak_pos(3) [OF assms] by (auto simp: p_node_def split: producer.splits)
  show l: "c_node w = Some l \<Longrightarrow> l = released w mod 2 ^ k \<and> released w < published w"
    using weak_tail(2,3) [OF assms] weak_pos(3) [OF assms] by (auto simp: c_node_def split: consumer.splits)
  show "i \<noteq> l" if "p_node w = Some i" "c_node w = Some l"
  proof
    assume "i = l"
    then have "(released w + (published w - released w)) mod 2 ^ k = (released w + 0) mod 2 ^ k"
      using i [OF that(1)] l [OF that(2)] by simp
    then have "published w - released w = 0"
      using i [OF that(1)] l [OF that(2)] by - (rule mod_add_inj [of _ "2 ^ k" _ "released w"], auto)
    then show False using l [OF that(2)] by simp
  qed
qed

lemma claimed_owner:
  assumes "weak_ok k w"
  shows "p_node w = Some i \<Longrightarrow> owner (p_view w) i w" and "c_node w = Some i \<Longrightarrow> owner (c_view w) i w"
  using assms by (simp_all add: weak_ok_def p_owns_def c_owns_def)

lemma weak_push_data_ok:
  assumes ok: "weak_ok k w" and pc: "prod (chan w) = P_Write x h"
  shows "weak_ok k (push_data x h w) \<and> lossy_step (chan w) (chan (push_data x h w))"
proof -
  define i where "i = node_of h w"
  define w' where "w' = push_data x h w"
  have pn: "p_node w = Some i" using pc by (simp add: p_node_def i_def)
  note cl = weak_claims(1) [OF ok pn] and own = claimed_owner(1) [OF ok pn]
  have w'_eq: "w' = w\<lparr>raced := False, uses := (uses w)(i := Suc (uses w i)),
      p_view := see_use i (Suc (uses w i)) (p_view w),
      chan := (chan w)\<lparr>ring := write_data i x (ring (chan w)), prod := P_Publish x h\<rparr>\<rparr>"
    using own ok by (simp add: w'_def push_data_def i_def Let_def owner_def use_unordered_def weak_ok_def)
  have step: "lossy_step (chan w) (chan w')"
    using spsc_step.push_write [OF pc] by (simp add: w'_eq i_def node_of_def lossy_exact)
  have mono: "bounded v w'" if "bounded v w" for v using that by (rule within_mono) (simp_all add: w'_eq)
  have node: "node_of g w' = node_of g w" for g by (rule node_of_mask) (simp add: w'_eq write_data_def)
  have same: "same_consumer w w'" by (simp add: w'_eq same_consumer_def) (simp add: write_data_def)
  note sameD = same_consumerD [OF same]
  have wr: "writing w l = 0" "writing w' l = (if l = i then 1 else 0)" for l
    using pc node by (auto simp: writing_def w'_eq i_def)
  have pub: "published w' = published w" by (simp add: w'_eq published_def)
  have "node_ok k w' l" if l: "l < 2 ^ k" for l
  proof (cases "l = i")
    case True
    then show ?thesis
      using ok l wr pub sameD unfolding weak_ok_def node_ok_def by (simp add: w'_eq)
  next
    case False
    then show ?thesis
      using ok l wr pub sameD by (intro node_ok_cong [of k w l w']) (simp_all add: weak_ok_def w'_eq)
  qed
  moreover have "msgs_ok w'"
    by (rule msgs_within_mono [of _ "uses w"]) (use ok in \<open>simp_all add: weak_ok_def w'_eq\<close>)
  moreover have "bounded (p_view w') w'"
    using ok by (simp add: weak_ok_def within_def w'_eq le_Suc_eq)
  moreover have "p_node w' = Some i" using node by (simp add: p_node_def w'_eq i_def)
  then have "p_owns w'" using own by (simp add: p_owns_def owner_def w'_eq)
  moreover have "c_owns w'"
    using weak_claims(3) [OF ok pn] claimed_owner(2) [OF ok] sameD by (auto simp: c_owns_def owner_def w'_eq)
  moreover have "eff_head (chan w') = eff_head (chan w)" using pc by (simp add: w'_eq eff_head_def)
  ultimately have "weak_ok k w'"
    using ok weak_ok_channel [OF ok step] sameD pub mono
    by (simp add: weak_ok_def) (simp add: w'_eq)
  with step show ?thesis by (simp add: w'_def)
qed

lemma weak_pop_data_ok:
  assumes ok: "weak_ok k w" and pc: "cons (chan w) = C_Read t"
  shows "weak_ok k (pop_data t w) \<and> lossy_step (chan w) (chan (pop_data t w))"
proof -
  define i where "i = node_of t w"
  define w' where "w' = pop_data t w"
  have cn: "c_node w = Some i" using pc by (simp add: c_node_def i_def)
  note cl = weak_claims(2) [OF ok cn] and own = claimed_owner(2) [OF ok cn]
  have w'_eq: "w' = w\<lparr>raced := False, uses := (uses w)(i := Suc (uses w i)),
      c_view := see_use i (Suc (uses w i)) (c_view w),
      chan := (chan w)\<lparr>cons := C_Release t (node_data (ring (chan w)) ! i)\<rparr>\<rparr>"
    using own ok by (simp add: w'_def pop_data_def i_def Let_def owner_def use_unordered_def weak_ok_def)
  have step: "lossy_step (chan w) (chan w')"
    using spsc_step.pop_read [OF pc] by (simp add: w'_eq i_def node_of_def lossy_exact)
  have mono: "bounded v w'" if "bounded v w" for v using that by (rule within_mono) (simp_all add: w'_eq)
  have node: "node_of g w' = node_of g w" for g by (rule node_of_mask) (simp add: w'_eq)
  have same: "same_producer w w'" by (simp add: w'_eq same_producer_def)
  note sameD = same_producerD [OF same]
  have rd: "reading w l = 0" "reading w' l = (if l = i then 1 else 0)" for l
    using pc node by (auto simp: reading_def w'_eq i_def)
  have rel: "released w' = released w" using pc by (simp add: w'_eq released_def in_hand_def)
  have "node_ok k w' l" if l: "l < 2 ^ k" for l
  proof (cases "l = i")
    case True
    then show ?thesis
      using ok l rd rel sameD unfolding weak_ok_def node_ok_def by (simp add: w'_eq)
  next
    case False
    then show ?thesis
      using ok l rd rel sameD by (intro node_ok_cong [of k w l w']) (simp_all add: weak_ok_def w'_eq)
  qed
  moreover have "msgs_ok w'"
    by (rule msgs_within_mono [of _ "uses w"]) (use ok in \<open>simp_all add: weak_ok_def w'_eq\<close>)
  moreover have "bounded (c_view w') w'"
    using ok by (simp add: weak_ok_def within_def w'_eq le_Suc_eq)
  moreover have "c_node w' = Some i" using node by (simp add: c_node_def w'_eq i_def)
  then have "c_owns w'" using own by (simp add: c_owns_def owner_def w'_eq)
  moreover have "p_owns w'"
    using weak_claims(3) [OF ok _ cn] claimed_owner(1) [OF ok] sameD by (auto simp: p_owns_def owner_def w'_eq)
  moreover have "eff_tail (chan w') = eff_tail (chan w)" using pc by (simp add: w'_eq eff_tail_def)
  ultimately have "weak_ok k w'"
    using ok weak_ok_channel [OF ok step] sameD rel mono
    by (simp add: weak_ok_def) (simp add: w'_eq)
  with step show ?thesis by (simp add: w'_def)
qed


definition msgs_at :: "nat \<Rightarrow> nat \<Rightarrow> u64 message list \<Rightarrow> bool" where
  "msgs_at k i h \<longleftrightarrow> (\<forall>j<length h. fst (h ! j) = seq_value k i j \<and> j \<le> seen_use (snd (h ! j)) i)"

lemma msgs_at_snoc:
  "msgs_at k i (h @ [m]) \<longleftrightarrow> msgs_at k i h \<and> fst m = seq_value k i (length h) \<and> length h \<le> seen_use (snd m) i"
  unfolding msgs_at_def by (rule all_nth_append)

lemma push_store_node:
  assumes ok: "weak_ok k w" and pc: "prod (chan w) = P_Publish x h" and i: "i = node_of h w"
    and "hist w' = (hist w)(i := hist w i @ [(h + 1, see_seq i (length (hist w i)) (p_view w))])"
    and "uses w' = uses w" and "p_view w' = see_seq i (length (hist w i)) (p_view w)" and "c_view w' = c_view w"
    and "sequences (ring (chan w')) = (sequences (ring (chan w)))[i := h + 1]"
    and "writing w' = (\<lambda>l. 0)" and "reading w' = reading w"
    and pub: "published w' = Suc (published w)" and rel: "released w' = released w"
  shows "node_ok k w' i"
proof -
  have pn: "p_node w = Some i" using pc by (simp add: p_node_def i)
  note cl = weak_claims(1) [OF ok pn] and own = claimed_owner(1) [OF ok pn]
  have h: "h = of_nat (published w)" using weak_head(3) [OF ok pc] by blast
  have i2: "i < 2 ^ k" using cl by simp
  then have nok: "node_ok k w i" using ok by (simp add: weak_ok_def)
  have len: "length (sequences (ring (chan w))) = 2 ^ k"
    using ok by (auto simp: weak_ok_def channel_at_def geometry_def)
  define m where "m = published w div 2 ^ k"
  have vis: "visits k (published w) i = m" "visits k (released w) i = m"
    using cl visits_ahead [of "released w" "published w" k] weak_pos(1) [OF ok] by (simp_all add: m_def)
  have size: "length (hist w i) = Suc (2 * m)" using nok vis by (simp add: node_ok_def)
  have val: "seq_value k i (Suc (2 * m)) = h + 1"
    using seq_value_busy [of k "published w"] cl h by (simp add: m_def)
  have one: "writing w i = 1" using pc by (simp add: writing_def i)
  then have use: "Suc (2 * m) \<le> seen_use (p_view w) i"
    using own nok size by (simp add: node_ok_def owner_def)
  have vis': "visits k (Suc (published w)) i = Suc (visits k (published w) i)"
    using cl i2 by (simp add: visits_Suc)
  have "msgs_at k i (hist w i)" using nok by (simp add: node_ok_def msgs_at_def)
  then have "msgs_at k i (hist w' i)"
    using val use size assms(4) by (simp add: msgs_at_snoc)
  then show ?thesis
    using nok vis vis' size i2 len one assms(5-) by (simp add: node_ok_def msgs_at_def assms(4))
qed

lemma pop_store_node:
  assumes ok: "weak_ok k w" and pc: "cons (chan w) = C_Release t x" and i: "i = node_of t w"
    and "hist w' = (hist w)(i := hist w i @ [(t + 2 ^ k, see_seq i (length (hist w i)) (c_view w))])"
    and "uses w' = uses w" and "c_view w' = see_seq i (length (hist w i)) (c_view w)" and "p_view w' = p_view w"
    and "sequences (ring (chan w')) = (sequences (ring (chan w)))[i := t + 2 ^ k]"
    and "reading w' = (\<lambda>l. 0)" and "writing w' = writing w"
    and rel: "released w' = Suc (released w)" and pub: "published w' = published w"
  shows "node_ok k w' i"
proof -
  have cn: "c_node w = Some i" using pc by (simp add: c_node_def i)
  note cl = weak_claims(2) [OF ok cn] and own = claimed_owner(2) [OF ok cn]
  have t: "t = of_nat (released w)" using weak_tail(3) [OF ok pc] by blast
  have i2: "i < 2 ^ k" using cl by simp
  then have nok: "node_ok k w i" using ok by (simp add: weak_ok_def)
  have len: "length (sequences (ring (chan w))) = 2 ^ k"
    using ok by (auto simp: weak_ok_def channel_at_def geometry_def)
  define m where "m = released w div 2 ^ k"
  have vis: "visits k (released w) i = m" "visits k (published w) i = Suc m"
    using cl visits_behind [of "released w" "published w" k] weak_pos(2) [OF ok] by (simp_all add: m_def)
  have size: "length (hist w i) = Suc (Suc (2 * m))" using nok vis by (simp add: node_ok_def)
  have val: "seq_value k i (Suc (Suc (2 * m))) = t + 2 ^ k"
    using seq_value_released [of k "released w"] cl t by (simp add: m_def)
  have one: "reading w i = 1" using pc by (simp add: reading_def i)
  then have use: "Suc (Suc (2 * m)) \<le> seen_use (c_view w) i"
    using own nok size by (simp add: node_ok_def owner_def)
  have vis': "visits k (Suc (released w)) i = Suc (visits k (released w) i)"
    using cl i2 by (simp add: visits_Suc)
  have "msgs_at k i (hist w i)" using nok by (simp add: node_ok_def msgs_at_def)
  then have "msgs_at k i (hist w' i)"
    using val use size assms(4) by (simp add: msgs_at_snoc)
  then show ?thesis
    using nok vis vis' size i2 len one assms(5-) by (simp add: node_ok_def msgs_at_def assms(4))
qed

lemma weak_push_store_ok:
  assumes ok: "weak_ok k w" and pc: "prod (chan w) = P_Publish x h"
  shows "weak_ok k (push_store x h w) \<and> lossy_step (chan w) (chan (push_store x h w))"
proof -
  define i where "i = node_of h w"
  define w' where "w' = push_store x h w"
  have pn: "p_node w = Some i" using pc by (simp add: p_node_def i_def)
  note cl = weak_claims(1) [OF ok pn] and own = claimed_owner(1) [OF ok pn]
  have h: "h = of_nat (published w)" using weak_head(3) [OF ok pc] by blast
  define u where "u = see_seq i (length (hist w i)) (p_view w)"
  have w'_eq: "w' = w\<lparr>raced := False, hist := (hist w)(i := hist w i @ [(h + 1, u)]), p_view := u,
      chan := (chan w)\<lparr>ring := write_seq i (h + 1) (ring (chan w)), prod := P_Advance h,
                       sent := sent (chan w) @ [x]\<rparr>\<rparr>"
    using own ok
    by (simp add: w'_def push_store_def release_store_def i_def u_def Let_def owner_def store_unordered_def weak_ok_def)
  have step: "lossy_step (chan w) (chan w')"
    using spsc_step.push_publish [OF pc] by (simp add: w'_eq i_def node_of_def lossy_exact)
  have same: "same_consumer w w'" by (simp add: w'_eq same_consumer_def) (simp add: write_seq_def)
  note sameD = same_consumerD [OF same]
  have view: "bounded (p_view w) w" "msgs_ok w" using ok by (simp_all add: weak_ok_def)
  have st: "msgs_ok w'" "bounded u w'" "\<And>v. bounded v w \<Longrightarrow> bounded v w'"
    using within_store [OF view refl, where i = i and x = "h + 1"] by (simp_all add: w'_eq u_def)
  have pub: "published w' = Suc (published w)" by (simp add: w'_eq published_def)
  have wr: "writing w' = (\<lambda>l. 0)" by (rule ext) (simp add: w'_eq writing_def)
  have "node_ok k w' l" if l: "l < 2 ^ k" for l
  proof (cases "l = i")
    case True
    then show ?thesis
      using push_store_node [OF ok pc i_def, of w'] sameD pub wr by (simp add: w'_eq u_def)
  next
    case False
    moreover have "writing w l = 0" using pc False by (simp add: writing_def i_def)
    moreover have "visits k (Suc (published w)) l = visits k (published w) l"
      using l cl False by (simp add: visits_Suc)
    ultimately show ?thesis
      using ok l sameD pub wr
      by (intro node_ok_cong [of k w l w']) (simp_all add: weak_ok_def w'_eq u_def)
  qed
  moreover have "p_owns w'" by (simp add: p_owns_def p_node_def w'_eq)
  moreover have "c_owns w'"
    using weak_claims(3) [OF ok pn] claimed_owner(2) [OF ok] sameD by (auto simp: c_owns_def owner_def w'_eq)
  moreover have "eff_head (chan w') = of_nat (published w')" unfolding pub by (simp add: w'_eq eff_head_def h)
  ultimately have "weak_ok k w'"
    using ok weak_ok_channel [OF ok step] sameD st
    by (simp add: weak_ok_def) (simp add: w'_eq u_def)
  with step show ?thesis by (simp add: w'_def)
qed

lemma weak_pop_store_ok:
  assumes ok: "weak_ok k w" and pc: "cons (chan w) = C_Release t x"
  shows "weak_ok k (pop_store t x w) \<and> lossy_step (chan w) (chan (pop_store t x w))"
proof -
  define i where "i = node_of t w"
  define w' where "w' = pop_store t x w"
  have cn: "c_node w = Some i" using pc by (simp add: c_node_def i_def)
  note cl = weak_claims(2) [OF ok cn] and own = claimed_owner(2) [OF ok cn]
  have t: "t = of_nat (released w)" using weak_tail(3) [OF ok pc] by blast
  have cap: "capacity (ring (chan w)) = 2 ^ k" using ok by (auto simp: weak_ok_def channel_at_def geometry_def)
  define u where "u = see_seq i (length (hist w i)) (c_view w)"
  have w'_eq: "w' = w\<lparr>raced := False, hist := (hist w)(i := hist w i @ [(t + 2 ^ k, u)]), c_view := u,
      chan := (chan w)\<lparr>ring := write_seq i (t + 2 ^ k) (ring (chan w)), cons := C_Advance t x\<rparr>\<rparr>"
    using own ok
    by (simp add: w'_def pop_store_def release_store_def i_def u_def cap Let_def owner_def store_unordered_def weak_ok_def)
  have step: "lossy_step (chan w) (chan w')"
    using spsc_step.pop_release [OF pc] by (simp add: w'_eq i_def node_of_def cap lossy_exact)
  have same: "same_producer w w'" by (simp add: w'_eq same_producer_def) (simp add: write_seq_def)
  note sameD = same_producerD [OF same]
  have view: "bounded (c_view w) w" "msgs_ok w" using ok by (simp_all add: weak_ok_def)
  have st: "msgs_ok w'" "bounded u w'" "\<And>v. bounded v w \<Longrightarrow> bounded v w'"
    using within_store [OF view refl, where i = i and x = "t + 2 ^ k"] by (simp_all add: w'_eq u_def)
  have rel: "released w' = Suc (released w)" using pc by (simp add: w'_eq released_def in_hand_def)
  have rd: "reading w' = (\<lambda>l. 0)" by (rule ext) (simp add: w'_eq reading_def)
  have "node_ok k w' l" if l: "l < 2 ^ k" for l
  proof (cases "l = i")
    case True
    then show ?thesis
      using pop_store_node [OF ok pc i_def, of w'] sameD rel rd by (simp add: w'_eq u_def)
  next
    case False
    moreover have "reading w l = 0" using pc False by (simp add: reading_def i_def)
    moreover have "visits k (Suc (released w)) l = visits k (released w) l"
      using l cl False by (simp add: visits_Suc)
    ultimately show ?thesis
      using ok l sameD rel rd
      by (intro node_ok_cong [of k w l w']) (simp_all add: weak_ok_def w'_eq u_def)
  qed
  moreover have "c_owns w'" by (simp add: c_owns_def c_node_def w'_eq)
  moreover have "p_owns w'"
    using weak_claims(3) [OF ok _ cn] claimed_owner(1) [OF ok] sameD by (auto simp: p_owns_def owner_def w'_eq)
  moreover have "eff_tail (chan w') = of_nat (released w')" unfolding rel by (simp add: w'_eq eff_tail_def t)
  ultimately have "weak_ok k w'"
    using ok weak_ok_channel [OF ok step] sameD st
    by (simp add: weak_ok_def) (simp add: w'_eq u_def)
  with step show ?thesis by (simp add: w'_def)
qed


subsection \<open>Every run\<close>

lemma weak_step_ok:
  assumes "weak_step w w'" and "weak_ok k w"
  shows "weak_ok k w' \<and> lossy_step (chan w) (chan w')"
  using assms(1)
proof (cases rule: weak_step.cases)
  case weak_push_start
  then show ?thesis using weak_push_start_ok [OF assms(2)] by simp
next
  case weak_push_load
  then show ?thesis using weak_push_load_ok [OF assms(2)] by simp
next
  case weak_push_data
  then show ?thesis using weak_push_data_ok [OF assms(2)] by simp
next
  case weak_push_store
  then show ?thesis using weak_push_store_ok [OF assms(2)] by simp
next
  case weak_push_finish
  then show ?thesis using weak_push_finish_ok [OF assms(2)] by simp
next
  case weak_pop_start
  then show ?thesis using weak_pop_start_ok [OF assms(2)] by simp
next
  case weak_pop_load
  then show ?thesis using weak_pop_load_ok [OF assms(2)] by simp
next
  case weak_pop_data
  then show ?thesis using weak_pop_data_ok [OF assms(2)] by simp
next
  case weak_pop_store
  then show ?thesis using weak_pop_store_ok [OF assms(2)] by simp
next
  case weak_pop_finish
  then show ?thesis using weak_pop_finish_ok [OF assms(2)] by simp
qed

lemma weak_new_ok:
  assumes "1 \<le> k" and "k < 64" and "spsc_new d (2 ^ k) = Inr q"
  shows "weak_ok k (weak_new q)"
proof -
  have q: "geometry k q" "head_pos q = 0" "tail_pos q = 0" "ring_ok k 0 0 (sequences q)"
    using spsc_new_ok [OF assms(1,2), of d] assms(3) by auto
  have "channel_at k 0 (channel_new q)"
    using q by (simp add: channel_at_def channel_new_def pc_defs)
  moreover have "sequences q ! i = of_nat i" if "i < 2 ^ k" for i
    using q(4) that by (simp add: ring_ok_def ring_at_def)
  then have "node_ok k (weak_new q) i" if "i < 2 ^ k" for i
    using that by (simp add: node_ok_def weak_new_def channel_new_def published_def released_def in_hand_def
        writing_def reading_def view_new_def seq_value_def)
  ultimately show ?thesis
    using q
    by (auto simp: weak_ok_def msgs_within_def within_def p_owns_def c_owns_def p_node_def c_node_def
        weak_new_def channel_new_def view_new_def published_def released_def pc_defs)
qed

lemma weak_reach:
  assumes "weak_ok k w" and "weak_step\<^sup>*\<^sup>* w w'"
  shows "weak_ok k w' \<and> lossy_step\<^sup>*\<^sup>* (chan w) (chan w')"
  using assms(2)
proof (induction rule: rtranclp_induct)
  case base
  then show ?case using assms(1) by simp
next
  case (step u v)
  then have "weak_ok k v \<and> lossy_step (chan u) (chan v)" by (intro weak_step_ok) auto
  with step.IH show ?case by (auto intro: rtranclp.rtrancl_into_rtrancl)
qed

text \<open>Conversely a thread can always read the latest message, so no interleaving is lost.\<close>

lemma load_last:
  assumes ok: "weak_ok k w" and v: "bounded v w" and i: "i < 2 ^ k" and j: "Suc j = length (hist w i)"
  shows "readable i j v (hist w)" and "fst (acquire_load i j v (hist w)) = sequences (ring (chan w)) ! i"
proof -
  have "seen_seq v i < length (hist w i)" using v by (simp add: within_def)
  then show "readable i j v (hist w)" using j by (simp add: readable_def)
  show "fst (acquire_load i j v (hist w)) = sequences (ring (chan w)) ! i"
    using ok i j last_at [of "hist w i" j] by (simp add: weak_ok_def node_ok_def acquire_load_def)
qed

lemma push_load_latest:
  assumes "weak_ok k w" and pc: "prod (chan w) = P_Head x h"
  shows "\<exists>w'. weak_step w w' \<and> chan w' =
    (chan w)\<lparr>prod := if sequences (ring (chan w)) ! slot h (ring (chan w)) \<noteq> h then P_Idle else P_Write x h\<rparr>"
proof -
  have ok: "weak_ok k w" "bounded (p_view w) w" using assms(1) by (auto simp: weak_ok_def)
  have i: "node_of h w < 2 ^ k" using weak_head(1) [OF ok(1) pc] weak_pos(3) [OF ok(1)] by simp
  then obtain j where j: "Suc j = length (hist w (node_of h w))"
    using ok(1) by (auto simp: weak_ok_def node_ok_def)
  note l = load_last [OF ok i j]
  show ?thesis
    using weak_push_load [OF pc l(1)] l(2)
    by (intro exI [of _ "push_load x h j w"]) (simp add: push_load_def node_of_def case_prod_unfold)
qed

lemma pop_load_latest:
  assumes "weak_ok k w" and pc: "cons (chan w) = C_Tail t"
  shows "\<exists>w'. weak_step w w' \<and> chan w' =
    (chan w)\<lparr>cons := if sequences (ring (chan w)) ! slot t (ring (chan w)) \<noteq> t + 1 then C_Idle else C_Read t\<rparr>"
proof -
  have ok: "weak_ok k w" "bounded (c_view w) w" using assms(1) by (auto simp: weak_ok_def)
  have i: "node_of t w < 2 ^ k" using weak_tail(1) [OF ok(1) pc] weak_pos(3) [OF ok(1)] by simp
  then obtain j where j: "Suc j = length (hist w (node_of t w))"
    using ok(1) by (auto simp: weak_ok_def node_ok_def)
  note l = load_last [OF ok i j]
  show ?thesis
    using weak_pop_load [OF pc l(1)] l(2)
    by (intro exI [of _ "pop_load t j w"]) (simp add: pop_load_def node_of_def case_prod_unfold)
qed

lemma weak_step_exact:
  assumes ok: "weak_ok k w" and "spsc_step (chan w) c'"
  shows "\<exists>w'. weak_step w w' \<and> chan w' = c'"
  using assms(2)
proof (cases rule: spsc_step.cases)
  case (push_call x)
  then show ?thesis using weak_push_start [of w x]
    by (intro exI [of _ "push_start x w"]) (simp add: push_start_def)
next
  case push_refuse
  then show ?thesis using push_load_latest [OF ok] by simp
next
  case push_claim
  then show ?thesis using push_load_latest [OF ok] by simp
next
  case (push_write x h)
  then show ?thesis using weak_push_data [of w x h]
    by (intro exI [of _ "push_data x h w"]) (simp add: push_data_def node_of_def Let_def)
next
  case (push_publish x h)
  then show ?thesis using weak_push_store [of w x h]
    by (intro exI [of _ "push_store x h w"]) (simp add: push_store_def release_store_def node_of_def Let_def)
next
  case push_advance
  then show ?thesis using weak_push_finish by (intro exI) (auto simp: push_finish_def)
next
  case pop_call
  then show ?thesis using weak_pop_start by (intro exI) (auto simp: pop_start_def)
next
  case pop_none
  then show ?thesis using pop_load_latest [OF ok] by simp
next
  case pop_claim
  then show ?thesis using pop_load_latest [OF ok] by simp
next
  case (pop_read t)
  then show ?thesis using weak_pop_data [of w t]
    by (intro exI [of _ "pop_data t w"]) (simp add: pop_data_def node_of_def Let_def)
next
  case (pop_release t x)
  then show ?thesis using weak_pop_store [of w t x]
    by (intro exI [of _ "pop_store t x w"]) (simp add: pop_store_def release_store_def node_of_def Let_def)
next
  case (pop_advance t x)
  then show ?thesis using weak_pop_finish [of w t x]
    by (intro exI [of _ "pop_finish t x w"]) (simp add: pop_finish_def)
qed

lemma weak_covers_interleaving:
  assumes "weak_ok k w" and "spsc_step\<^sup>*\<^sup>* (chan w) c"
  shows "\<exists>w'. weak_step\<^sup>*\<^sup>* w w' \<and> chan w' = c \<and> weak_ok k w'"
  using assms(2)
proof (induction rule: rtranclp_induct)
  case base
  then show ?case using assms(1) by blast
next
  case (step c c')
  then obtain u where u: "weak_step\<^sup>*\<^sup>* w u" "chan u = c" "weak_ok k u" by blast
  with step.hyps(2) obtain v where "weak_step u v" "chan v = c'" using weak_step_exact by blast
  with u weak_step_ok show ?case by (metis rtranclp.rtrancl_into_rtrancl)
qed

text \<open>
  C2. Under the release/acquire memory model, where a load of a sequence number may read any stale
  value that the thread has not yet seen overwritten, the queue has no data race and orders all
  stores to each sequence number; every run is an interleaving of the two threads' accesses
  in which a call may also give up although there was room (or an element), and every plain
  interleaving is such a run; and the elements popped are a prefix of the elements pushed, with
  at most \<open>2 ^ k + 1\<close> outstanding.
\<close>
theorem spsc_weak_memory:
  assumes "1 \<le> k" and "k < 64" and "spsc_new d (2 ^ k) = Inr q"
    and "weak_step\<^sup>*\<^sup>* (weak_new q) w"
  shows "\<not> raced w \<and> lossy_step\<^sup>*\<^sup>* (channel_new q) (chan w) \<and>
    (\<exists>rest. sent (chan w) = received (chan w) @ rest \<and> length rest \<le> 2 ^ k + 1) \<and>
    {c. spsc_step\<^sup>*\<^sup>* (channel_new q) c} \<subseteq> chan ` {u. weak_step\<^sup>*\<^sup>* (weak_new q) u}"
proof -
  have new: "chan (weak_new q) = channel_new q" by (simp add: weak_new_def)
  have "{c. spsc_step\<^sup>*\<^sup>* (channel_new q) c} \<subseteq> chan ` {u. weak_step\<^sup>*\<^sup>* (weak_new q) u}"
    using weak_covers_interleaving [OF weak_new_ok [OF assms(1-3)], unfolded new] by blast
  moreover have w: "weak_ok k w" "lossy_step\<^sup>*\<^sup>* (channel_new q) (chan w)"
    using weak_reach [OF weak_new_ok [OF assms(1-3)] assms(4)] by (simp_all add: weak_new_def)
  then obtain n where n: "channel_at k n (chan w)" by (auto simp: weak_ok_def)
  have "length (in_hand (chan w)) \<le> 1" by (simp add: in_hand_def split: consumer.split)
  ultimately show ?thesis
    using w n channel_slots(3) [OF n] by (auto simp: weak_ok_def channel_at_def)
qed

lemma weak_more: "weak_step\<^sup>*\<^sup>* w u \<Longrightarrow> weak_step u v \<Longrightarrow> weak_step\<^sup>*\<^sup>* w v"
  by (rule rtranclp.rtrancl_into_rtrancl)

text \<open>
  A run with a stale read: the element 7 is published, the consumer's first \<open>try_pop\<close> still reads
  the sequence number from before and answers \<open>nullopt\<close>, its second reads the new one.
\<close>

definition stale_weak :: "nat weak" where
  "stale_weak = pop_load 0 0 (pop_start (push_finish 0 (push_store 7 0 (push_data 7 0
     (push_load 7 0 0 (push_start 7 (weak_new sample_ring)))))))"

definition sample_weak :: "nat weak" where
  "sample_weak = pop_finish 0 7 (pop_store 0 7 (pop_data 0 (pop_load 0 1 (pop_start stale_weak))))"

lemmas weak_eval = push_start_def push_load_def push_data_def push_store_def push_finish_def
  pop_start_def pop_load_def pop_data_def pop_store_def pop_finish_def weak_new_def channel_new_def
  sample_ring_def node_of_def slot_def readable_def acquire_load_def release_store_def view_new_def
  use_unordered_def store_unordered_def write_data_def write_seq_def Let_def

lemma stale_weak_eval:
  "cons (chan stale_weak) = C_Idle" "sent (chan stale_weak) = [7]" "received (chan stale_weak) = []"
  "weak_step\<^sup>*\<^sup>* (weak_new sample_ring) stale_weak"
proof -
  show "cons (chan stale_weak) = C_Idle" "sent (chan stale_weak) = [7]" "received (chan stale_weak) = []"
    by (simp_all add: stale_weak_def weak_eval)
  show "weak_step\<^sup>*\<^sup>* (weak_new sample_ring) stale_weak"
    unfolding stale_weak_def
    apply (rule weak_more [OF _ weak_pop_load])
    apply (rule weak_more [OF _ weak_pop_start])
    apply (rule weak_more [OF _ weak_push_finish])
    apply (rule weak_more [OF _ weak_push_store])
    apply (rule weak_more [OF _ weak_push_data])
    apply (rule weak_more [OF _ weak_push_load])
    apply (rule weak_more [OF _ weak_push_start])
    apply (simp_all add: weak_eval)
    done
qed


lemma sample_weak_reached: "weak_step\<^sup>*\<^sup>* (weak_new sample_ring) sample_weak"
  unfolding sample_weak_def
  apply (rule weak_more [OF _ weak_pop_finish])
   apply (rule weak_more [OF _ weak_pop_store])
    apply (rule weak_more [OF _ weak_pop_data])
     apply (rule weak_more [OF _ weak_pop_load])
       apply (rule weak_more [OF stale_weak_eval(4) weak_pop_start])
       apply (simp_all add: stale_weak_eval(1))
     apply (simp_all add: stale_weak_def weak_eval view_join_def)
  done

theorem spsc_weak_memory_witness:
  "\<not> raced sample_weak \<and> sent (chan sample_weak) = [7] \<and> received (chan sample_weak) = [7] \<and>
   (\<exists>rest. sent (chan sample_weak) = received (chan sample_weak) @ rest \<and> length rest \<le> 3)"
proof -
  have "received (chan sample_weak) = [7]" "sent (chan sample_weak) = [7]"
    by (simp_all add: sample_weak_def stale_weak_def weak_eval view_join_def)
  then show ?thesis
    using spsc_weak_memory [OF _ _ sample_ring_new sample_weak_reached] by simp
qed

end
