(* ===== verification/Mpsc_Weak.thy ===== *)
theory Mpsc_Weak
  imports Mpsc Weak_Memory
begin

text \<open>
  \<open>MPSCQueue\<close> of \<open>include/lock_free_queue.hpp\<close> under the memory model of C++: the producers and the
  consumer of \<open>Mpsc\<close>, with the orders written in the code. The \<open>next\<close> pointer of a node is loaded
  with \<open>acquire\<close> and stored with \<open>release\<close>, the head is exchanged with \<open>acq_rel\<close>, the tail belongs
  to the consumer. Making and deleting a node are plain accesses to all of it, and an address can
  be given out again after its node was deleted.
\<close>

subsection \<open>The two kinds of thread\<close>

text \<open>
  \<open>nexts\<close> has the stores to the \<open>next\<close> pointer kept at an address, over all the nodes that have lived
  there; \<open>born\<close> is the index of the one that made the present node. \<open>mtouched\<close> counts what the
  consumer did there: its loads of \<open>next\<close>, its reads of the data, its deletes. \<open>head_view\<close> is the view
  of the last exchange, \<open>freed\<close> what \<open>delete\<close> tells the next \<open>new\<close> of the same address (the C++ memory
  management functions synchronise so). \<open>mraced\<close> is set when the node is made, changed, read or
  deleted by a thread that does not come after what it has to come after.
\<close>

record 'a mweak =
  mchan :: "'a mchannel"
  nexts :: "addr option history"
  born :: "addr \<Rightarrow> nat"
  mtouched :: "addr \<Rightarrow> nat"
  head_view :: view
  freed :: "addr \<Rightarrow> view"
  mp_view :: "nat \<Rightarrow> view"
  mc_view :: view
  mraced :: bool

text \<open>The constructor happens before the threads start; its node is at \<open>mtail\<close>.\<close>

definition mweak_new :: "'a mpsc \<Rightarrow> 'a mweak" where
  "mweak_new q = \<lparr>mchan = mchannel_new q, nexts = (\<lambda>a. [(None, view_new)]), born = (\<lambda>a. 0),
     mtouched = (\<lambda>a. 0), head_view = view_new, freed = (\<lambda>a. view_new), mp_view = (\<lambda>i. view_new),
     mc_view = view_new, mraced = False\<rparr>"

text \<open>The node at \<open>a\<close> was made before now.\<close>

definition unborn :: "addr \<Rightarrow> view \<Rightarrow> 'a mweak \<Rightarrow> bool" where
  "unborn a v w \<longleftrightarrow> seen_seq v a < born w a"

definition mpush_new :: "nat \<Rightarrow> addr \<Rightarrow> 'a \<Rightarrow> 'a mweak \<Rightarrow> 'a mweak" where
  "mpush_new i a x w =
     (let c = mchan w; u = view_join (mp_view w i) (freed w a);
          (h, v) = release_store a None u (nexts w)
      in w\<lparr>mraced := mraced w \<or> store_unordered a u (nexts w) \<or> use_unordered a u (mtouched w),
           nexts := h, born := (born w)(a := length (nexts w a)), mp_view := (mp_view w)(i := v),
           mchan := c\<lparr>mq := new_node a x (mq c), mprods := (mprods c)(i := M_New a)\<rparr>\<rparr>)"

definition mpush_exchange :: "nat \<Rightarrow> addr \<Rightarrow> 'a mweak \<Rightarrow> 'a mweak" where
  "mpush_exchange i a w =
     (let c = mchan w; v = view_join (mp_view w i) (head_view w); (prev, q) = exchange_head a (mq c)
      in w\<lparr>head_view := v, mp_view := (mp_view w)(i := v),
           mchan := c\<lparr>mq := q, mprods := (mprods c)(i := M_Link prev a),
                      enqueued := enqueued c @ [elem_of (mq c) a]\<rparr>\<rparr>)"

definition mpush_link :: "nat \<Rightarrow> addr \<Rightarrow> addr \<Rightarrow> 'a mweak \<Rightarrow> 'a mweak option" where
  "mpush_link i p a w =
     (let c = mchan w; v = mp_view w i; (h, u) = release_store p (Some a) v (nexts w)
      in case link_node p a (mq c) of
           None \<Rightarrow> None
         | Some q \<Rightarrow> Some (w\<lparr>mraced := mraced w \<or> unborn p v w \<or> store_unordered p v (nexts w),
             nexts := h, mp_view := (mp_view w)(i := u),
             mchan := c\<lparr>mq := q, mprods := (mprods c)(i := M_Idle)\<rparr>\<rparr>))"

definition touch :: "addr \<Rightarrow> 'a mweak \<Rightarrow> 'a mweak" where
  "touch a w = w\<lparr>mtouched := (mtouched w)(a := Suc (mtouched w a)),
                 mc_view := see_use a (Suc (mtouched w a)) (mc_view w)\<rparr>"

definition mpop_start :: "'a mweak \<Rightarrow> 'a mweak" where
  "mpop_start w = w\<lparr>mchan := (mchan w)\<lparr>mcons := MC_Tail (mtail (mq (mchan w)))\<rparr>\<rparr>"

definition mpop_load :: "addr \<Rightarrow> nat \<Rightarrow> 'a mweak \<Rightarrow> 'a mweak" where
  "mpop_load t j w =
     (let w1 = touch t w; (s, v) = acquire_load t j (mc_view w1) (nexts w)
      in w1\<lparr>mraced := mraced w \<or> unborn t (mc_view w) w, mc_view := v,
            mchan := (mchan w)\<lparr>mcons := (case s of None \<Rightarrow> MC_Idle | Some n \<Rightarrow> MC_Next t n)\<rparr>\<rparr>)"

definition mpop_read :: "addr \<Rightarrow> addr \<Rightarrow> 'a mweak \<Rightarrow> 'a mweak" where
  "mpop_read t n w =
     (touch n w)\<lparr>mraced := mraced w \<or> unborn n (mc_view w) w,
                 mchan := (mchan w)\<lparr>mcons := MC_Data t n (elem_of (mq (mchan w)) n)\<rparr>\<rparr>"

definition mpop_store :: "addr \<Rightarrow> addr \<Rightarrow> 'a \<Rightarrow> 'a mweak \<Rightarrow> 'a mweak" where
  "mpop_store t n x w =
     (let c = mchan w in w\<lparr>mchan := c\<lparr>mq := store_tail n (mq c), mcons := MC_Delete t x\<rparr>\<rparr>)"

definition mpop_delete :: "addr \<Rightarrow> 'a \<Rightarrow> 'a mweak \<Rightarrow> 'a mweak option" where
  "mpop_delete t x w =
     (let c = mchan w; w1 = touch t w
      in case delete_node t (mq c) of
           None \<Rightarrow> None
         | Some q \<Rightarrow> Some (w1\<lparr>mraced := mraced w \<or> store_unordered t (mc_view w) (nexts w) \<or>
               use_unordered t (mc_view w) (mtouched w),
             freed := (freed w)(t := mc_view w1),
             mchan := c\<lparr>mq := q, mcons := MC_Idle, delivered := delivered c @ [x]\<rparr>\<rparr>))"

inductive mweak_step :: "'a mweak \<Rightarrow> 'a mweak \<Rightarrow> bool" where
  mweak_new_node: "mprods (mchan w) i = M_Idle \<Longrightarrow> nodes (mq (mchan w)) a = None \<Longrightarrow>
    mweak_step w (mpush_new i a x w)"
| mweak_exchange: "mprods (mchan w) i = M_New a \<Longrightarrow> mweak_step w (mpush_exchange i a w)"
| mweak_link: "mprods (mchan w) i = M_Link p a \<Longrightarrow> mpush_link i p a w = Some w' \<Longrightarrow> mweak_step w w'"
| mweak_start: "mcons (mchan w) = MC_Idle \<Longrightarrow> mweak_step w (mpop_start w)"
| mweak_load: "mcons (mchan w) = MC_Tail t \<Longrightarrow> nodes (mq (mchan w)) t \<noteq> None \<Longrightarrow>
    readable t j (mc_view w) (nexts w) \<Longrightarrow> mweak_step w (mpop_load t j w)"
| mweak_read: "mcons (mchan w) = MC_Next t n \<Longrightarrow> nodes (mq (mchan w)) n \<noteq> None \<Longrightarrow>
    mweak_step w (mpop_read t n w)"
| mweak_store: "mcons (mchan w) = MC_Data t n x \<Longrightarrow> mweak_step w (mpop_store t n x w)"
| mweak_delete: "mcons (mchan w) = MC_Delete t x \<Longrightarrow> mpop_delete t x w = Some w' \<Longrightarrow> mweak_step w w'"

text \<open>The interleaving of \<open>Mpsc\<close> in which a pop may, besides, miss the next node.\<close>

inductive mlossy_step :: "'a mchannel \<Rightarrow> 'a mchannel \<Rightarrow> bool" where
  mlossy_exact: "mpsc_step c c' \<Longrightarrow> mlossy_step c c'"
| mlossy_pop: "mcons c = MC_Tail t \<Longrightarrow> mlossy_step c (c\<lparr>mcons := MC_Idle\<rparr>)"

subsection \<open>The invariant\<close>

abbreviation mbounded :: "view \<Rightarrow> 'a mweak \<Rightarrow> bool" where
  "mbounded v w \<equiv> within v (nexts w) (mtouched w)"

text \<open>What is stored at the address of a node that lives, of a list node, of no node.\<close>

definition live_ok :: "'a mweak \<Rightarrow> addr \<Rightarrow> bool" where
  "live_ok w a \<longleftrightarrow> fst (nexts w a ! born w a) = None \<and>
     (case next_of (mq (mchan w)) a of
        None \<Rightarrow> length (nexts w a) = Suc (born w a)
      | Some b \<Rightarrow> length (nexts w a) = Suc (Suc (born w a)) \<and> fst (nexts w a ! Suc (born w a)) = Some b \<and>
          (a \<in> set (chain (mq (mchan w))) \<longrightarrow> \<not> unborn b (snd (nexts w a ! Suc (born w a))) w))"

definition dead_ok :: "'a mweak \<Rightarrow> addr \<Rightarrow> bool" where
  "dead_ok w a \<longleftrightarrow> Suc (seen_seq (freed w a) a) = length (nexts w a) \<and>
     seen_use (freed w a) a = mtouched w a"

definition mp_knows :: "'a mweak \<Rightarrow> bool" where
  "mp_knows w \<longleftrightarrow> (\<forall>i a. mprods (mchan w) i = M_New a \<longrightarrow> \<not> unborn a (mp_view w i) w) \<and>
     (\<forall>i p a. mprods (mchan w) i = M_Link p a \<longrightarrow>
        \<not> unborn p (mp_view w i) w \<and> \<not> unborn a (mp_view w i) w)"

definition mc_knows :: "'a mweak \<Rightarrow> bool" where
  "mc_knows w \<longleftrightarrow> (\<forall>a. seen_use (mc_view w) a = mtouched w a) \<and>
     \<not> unborn (mtail (mq (mchan w))) (mc_view w) w \<and>
     (case mcons (mchan w) of
        MC_Next t n \<Rightarrow> Suc (seen_seq (mc_view w) t) = length (nexts w t) \<and> \<not> unborn n (mc_view w) w
      | MC_Data t n x \<Rightarrow> Suc (seen_seq (mc_view w) t) = length (nexts w t) \<and> \<not> unborn n (mc_view w) w
      | MC_Delete t x \<Rightarrow> Suc (seen_seq (mc_view w) t) = length (nexts w t)
      | _ \<Rightarrow> True)"

definition mviews_ok :: "'a mweak \<Rightarrow> bool" where
  "mviews_ok w \<longleftrightarrow> msgs_within (nexts w) (mtouched w) \<and> mbounded (head_view w) w \<and>
     mbounded (mc_view w) w \<and> (\<forall>i. mbounded (mp_view w i) w) \<and> (\<forall>a. mbounded (freed w a) w)"

definition mweak_ok :: "'a mweak \<Rightarrow> bool" where
  "mweak_ok w \<longleftrightarrow> \<not> mraced w \<and> mchannel_ok (mchan w) \<and> mviews_ok w \<and>
     (\<forall>a. if nodes (mq (mchan w)) a = None then dead_ok w a else live_ok w a) \<and>
     \<not> unborn (mhead (mq (mchan w))) (head_view w) w \<and> mp_knows w \<and> mc_knows w"


lemma mweak_okD:
  assumes "mweak_ok w"
  shows "\<not> mraced w" and "mchannel_ok (mchan w)" and "mviews_ok w"
    and "nodes (mq (mchan w)) a = None \<Longrightarrow> dead_ok w a"
    and "nodes (mq (mchan w)) a \<noteq> None \<Longrightarrow> live_ok w a"
    and "\<not> unborn (mhead (mq (mchan w))) (head_view w) w" and "mp_knows w" and "mc_knows w"
  using assms unfolding mweak_ok_def by (simp, simp, simp, metis, metis, simp, simp, simp)

text \<open>What the interleaving already gives about addresses.\<close>

lemma in_dom_Some: "a \<in> dom m \<Longrightarrow> \<exists>y. m a = Some y"
  by blast

lemma succ_in_ex: "a \<in> set xs \<Longrightarrow> a \<noteq> last xs \<Longrightarrow> \<exists>b. succ_in xs a b"
proof (induction xs)
  case (Cons x xs)
  show ?case
  proof (cases xs)
    case Nil
    with Cons.prems show ?thesis by simp
  next
    case (Cons y ys)
    show ?thesis
    proof (cases "a = x")
      case True
      then show ?thesis using Cons by (intro exI [of _ y]) simp
    next
      case False
      then obtain b where "succ_in xs a b" using Cons.IH Cons.prems Cons by auto
      then show ?thesis using Cons by auto
    qed
  qed
qed simp

lemma chan_alive:
  assumes "mchannel_ok c"
  shows "mhead (mq c) \<in> set (chain (mq c))" and "mtail (mq c) \<in> set (chain (mq c))"
    and "a \<in> set (chain (mq c)) \<Longrightarrow> nodes (mq c) a \<noteq> None"
    and "mprods c i = M_New a \<Longrightarrow> nodes (mq c) a \<noteq> None \<and> a \<notin> set (chain (mq c)) \<and> next_of (mq c) a = None"
    and "mprods c i = M_Link p a \<Longrightarrow> p \<in> set (chain (mq c)) \<and> a \<in> set (chain (mq c)) \<and>
      next_of (mq c) p = None"
    and "a \<in> set (chain (mq c)) \<Longrightarrow> next_of (mq c) a = Some b \<Longrightarrow> b \<in> set (chain (mq c))"
proof -
  note ok = mchannel_okD [OF assms]
  note l = linked_parts [OF ok(1)]
  show "mhead (mq c) \<in> set (chain (mq c))" using l(2,5) by (metis last_in_set)
  show "mtail (mq c) \<in> set (chain (mq c))" by (rule mtail_in_chain [OF ok(1)])
  show "nodes (mq c) a \<noteq> None" if "a \<in> set (chain (mq c))" using that l(3) by blast
  show "nodes (mq c) a \<noteq> None \<and> a \<notin> set (chain (mq c)) \<and> next_of (mq c) a = None" if "mprods c i = M_New a"
    using ok(4) [OF that] by (auto simp: private_node_def)
  show "p \<in> set (chain (mq c)) \<and> a \<in> set (chain (mq c)) \<and> next_of (mq c) p = None" if "mprods c i = M_Link p a"
  proof -
    have o: "open_link c p a" using that by (auto simp: open_link_def)
    then show ?thesis using succ_in_set [OF l(8) [OF o]] l(7) [OF l(8) [OF o]] by simp
  qed
  show "b \<in> set (chain (mq c))" if ab: "a \<in> set (chain (mq c))" "next_of (mq c) a = Some b"
  proof -
    have "a \<noteq> last (chain (mq c))" using ab(2) l(5,6) by auto
    then obtain d where d: "succ_in (chain (mq c)) a d" using succ_in_ex ab(1) by blast
    then have "d = b" using l(7) [OF d] ab(2) by (auto split: if_splits)
    with d show ?thesis using succ_in_set by blast
  qed
qed

text \<open>What the consumer holds.\<close>

lemma cons_alive:
  assumes "mchannel_ok c"
  shows "mcons c = MC_Tail t \<Longrightarrow> t = mtail (mq c)"
    and "mcons c = MC_Next t n \<Longrightarrow> t = mtail (mq c) \<and> next_of (mq c) t = Some n \<and> n \<in> set (chain (mq c))"
    and "mcons c = MC_Data t n x \<Longrightarrow> t = mtail (mq c) \<and> next_of (mq c) t = Some n \<and> n \<in> set (chain (mq c))"
    and "mcons c = MC_Delete t x \<Longrightarrow> nodes (mq c) t \<noteq> None \<and> t \<notin> set (chain (mq c))"
proof -
  have ok: "mcons_ok c" using assms by (rule mchannel_okD(2))
  note mt = chan_alive(6) [OF assms chan_alive(2) [OF assms]]
  show "mcons c = MC_Tail t \<Longrightarrow> t = mtail (mq c)" using ok by (simp add: mcons_ok_def)
  show "mcons c = MC_Next t n \<Longrightarrow> t = mtail (mq c) \<and> next_of (mq c) t = Some n \<and> n \<in> set (chain (mq c))"
    using ok mt by (simp add: mcons_ok_def) blast
  show "mcons c = MC_Data t n x \<Longrightarrow> t = mtail (mq c) \<and> next_of (mq c) t = Some n \<and> n \<in> set (chain (mq c))"
    using ok mt by (simp add: mcons_ok_def) blast
  show "mcons c = MC_Delete t x \<Longrightarrow> nodes (mq c) t \<noteq> None \<and> t \<notin> set (chain (mq c))"
    using ok by (auto simp: mcons_ok_def)
qed

lemma mlossy_ok:
  assumes "mlossy_step c c'" and "mchannel_ok c"
  shows "mchannel_ok c'"
  using assms(1)
proof (cases rule: mlossy_step.cases)
  case mlossy_exact
  then show ?thesis using mchannel_step assms(2) by blast
next
  case (mlossy_pop t)
  have "open_link c' = open_link c" using mlossy_pop by (simp add: open_link_def fun_eq_iff)
  then show ?thesis
    using mchannel_okD [OF assms(2)] mlossy_pop
    by (auto simp: mchannel_ok_def mprods_ok_def mcons_ok_def m_in_hand_def private_node_def)
qed

lemma unborn_mono:
  assumes "\<not> unborn a v w" and "seen_seq v a \<le> seen_seq v' a" and "born w' a = born w a"
  shows "\<not> unborn a v' w'"
  using assms by (simp add: unborn_def)

lemma live_length:
  assumes "live_ok w a"
  shows "Suc (born w a) \<le> length (nexts w a)"
    and "next_of (mq (mchan w)) a = None \<Longrightarrow> length (nexts w a) = Suc (born w a)"
  using assms by (auto simp: live_ok_def split: option.splits)

text \<open>A step that stores no \<open>next\<close> pointer and touches no node.\<close>

lemma live_ok_cong:
  assumes "live_ok w a" and "nexts w' a = nexts w a" and "born w' a = born w a"
    and "\<And>b. next_of (mq (mchan w)) a = Some b \<Longrightarrow> a \<in> set (chain (mq (mchan w))) \<Longrightarrow> born w' b = born w b"
    and "next_of (mq (mchan w')) a = next_of (mq (mchan w)) a"
    and "next_of (mq (mchan w)) a \<noteq> None \<Longrightarrow> a \<in> set (chain (mq (mchan w'))) \<Longrightarrow> a \<in> set (chain (mq (mchan w)))"
  shows "live_ok w' a"
  using assms by (auto simp: live_ok_def unborn_def split: option.splits)

lemma dead_ok_cong:
  assumes "dead_ok w a" and "nexts w' a = nexts w a" and "freed w' a = freed w a" and "mtouched w' a = mtouched w a"
  shows "dead_ok w' a"
  using assms by (simp add: dead_ok_def)


lemma mweak_okI:
  assumes "mweak_ok w" and "mlossy_step (mchan w) (mchan w')" and "\<not> mraced w'" and "mviews_ok w'"
    and "\<And>a. nodes (mq (mchan w')) a = None \<Longrightarrow> dead_ok w' a"
    and "\<And>a. nodes (mq (mchan w')) a \<noteq> None \<Longrightarrow> live_ok w' a"
    and "\<not> unborn (mhead (mq (mchan w'))) (head_view w') w'" and "mp_knows w'" and "mc_knows w'"
  shows "mweak_ok w' \<and> mlossy_step (mchan w) (mchan w')"
  using assms mlossy_ok [OF assms(2) mweak_okD(2) [OF assms(1)]] by (simp add: mweak_ok_def)

subsection \<open>The steps of the consumer\<close>

lemma mpop_start_ok:
  assumes ok: "mweak_ok w" and pc: "mcons (mchan w) = MC_Idle"
  shows "mweak_ok (mpop_start w) \<and> mlossy_step (mchan w) (mchan (mpop_start w))"
proof (rule mweak_okI [OF ok])
  note D = mweak_okD [OF ok]
  note eq = mpop_start_def
  show "mlossy_step (mchan w) (mchan (mpop_start w))"
    using c_load [OF pc] by (simp add: eq mlossy_exact)
  show "\<not> mraced (mpop_start w)" "mviews_ok (mpop_start w)"
      "\<not> unborn (mhead (mq (mchan (mpop_start w)))) (head_view (mpop_start w)) (mpop_start w)"
    using D(1,3,6) by (simp_all add: eq mviews_ok_def unborn_def)
  show "mp_knows (mpop_start w)" "mc_knows (mpop_start w)"
    using D(7,8) by (simp_all add: mp_knows_def mc_knows_def unborn_def eq)
  show "dead_ok (mpop_start w) a" if "nodes (mq (mchan (mpop_start w))) a = None" for a
    by (rule dead_ok_cong [of w]) (use that D(4) [of a] in \<open>simp_all add: eq\<close>)
  show "live_ok (mpop_start w) a" if "nodes (mq (mchan (mpop_start w))) a \<noteq> None" for a
    by (rule live_ok_cong [of w]) (use that D(5) [of a] in \<open>simp_all add: eq\<close>)
qed

lemma touch_selects [simp]:
  "mchan (touch a w) = mchan w" "nexts (touch a w) = nexts w" "born (touch a w) = born w"
  "head_view (touch a w) = head_view w" "mp_view (touch a w) = mp_view w" "freed (touch a w) = freed w"
  "mraced (touch a w) = mraced w" "mtouched (touch a w) = (mtouched w)(a := Suc (mtouched w a))"
  "mc_view (touch a w) = see_use a (Suc (mtouched w a)) (mc_view w)"
  by (simp_all add: touch_def)

lemma touch_bounded: "mbounded v w \<Longrightarrow> mbounded v (touch a w)"
  by (erule within_mono) simp_all

lemma touch_views:
  assumes "mviews_ok w"
  shows "mviews_ok (touch a w)"
proof -
  have "msgs_within (nexts (touch a w)) (mtouched (touch a w))"
    by (rule msgs_within_mono [of _ "mtouched w"]) (use assms in \<open>simp_all add: mviews_ok_def\<close>)
  moreover have "mbounded (mc_view (touch a w)) (touch a w)"
    using assms by (auto simp: mviews_ok_def within_def le_Suc_eq)
  ultimately show ?thesis
    using assms touch_bounded [of _ w a] unfolding mviews_ok_def by (metis touch_selects(4-6))
qed

lemma mpop_read_ok:
  assumes ok: "mweak_ok w" and pc: "mcons (mchan w) = MC_Next t n" and alive: "nodes (mq (mchan w)) n \<noteq> None"
  shows "mweak_ok (mpop_read t n w) \<and> mlossy_step (mchan w) (mchan (mpop_read t n w))"
proof (rule mweak_okI [OF ok])
  note D = mweak_okD [OF ok]
  have "\<not> unborn n (mc_view w) w" using D(8) pc by (simp add: mc_knows_def)
  then have eq: "mpop_read t n w = (touch n w)\<lparr>mraced := False,
      mchan := (mchan w)\<lparr>mcons := MC_Data t n (elem_of (mq (mchan w)) n)\<rparr>\<rparr>"
    using D(1) by (simp add: mpop_read_def)
  show "mlossy_step (mchan w) (mchan (mpop_read t n w))"
    using c_read [OF pc] alive by (auto simp: eq elem_of_def intro!: mlossy_exact)
  show "\<not> mraced (mpop_read t n w)"
      "\<not> unborn (mhead (mq (mchan (mpop_read t n w)))) (head_view (mpop_read t n w)) (mpop_read t n w)"
    using D(6) by (simp_all add: eq unborn_def)
  show "mviews_ok (mpop_read t n w)" using touch_views [OF D(3), of n] by (simp add: mviews_ok_def eq)
  show "mp_knows (mpop_read t n w)" "mc_knows (mpop_read t n w)"
    using D(7,8) pc by (simp_all add: mp_knows_def mc_knows_def unborn_def eq)
  show "dead_ok (mpop_read t n w) a" if "nodes (mq (mchan (mpop_read t n w))) a = None" for a
  proof (rule dead_ok_cong [of w])
    have "a \<noteq> n" using that alive by (auto simp: eq)
    then show "mtouched (mpop_read t n w) a = mtouched w a" by (simp add: eq)
  qed (use that D(4) [of a] in \<open>simp_all add: eq\<close>)
  show "live_ok (mpop_read t n w) a" if "nodes (mq (mchan (mpop_read t n w))) a \<noteq> None" for a
    by (rule live_ok_cong [of w]) (use that D(5) [of a] in \<open>simp_all add: eq\<close>)
qed

lemma mpop_store_ok:
  assumes ok: "mweak_ok w" and pc: "mcons (mchan w) = MC_Data t n x"
  shows "mweak_ok (mpop_store t n x w) \<and> mlossy_step (mchan w) (mchan (mpop_store t n x w))"
proof (rule mweak_okI [OF ok])
  note D = mweak_okD [OF ok]
  have eq: "mpop_store t n x w = w\<lparr>mchan := (mchan w)\<lparr>mq := store_tail n (mq (mchan w)), mcons := MC_Delete t x\<rparr>\<rparr>"
    by (simp add: mpop_store_def Let_def)
  have st: "nodes (store_tail n (mq (mchan w))) = nodes (mq (mchan w))"
      "next_of (store_tail n (mq (mchan w))) = next_of (mq (mchan w))"
      "mhead (store_tail n (mq (mchan w))) = mhead (mq (mchan w))" "mtail (store_tail n (mq (mchan w))) = n"
      "chain (store_tail n (mq (mchan w))) = tl (chain (mq (mchan w)))"
    by (simp_all add: store_tail_def next_of_def fun_eq_iff)
  show "mlossy_step (mchan w) (mchan (mpop_store t n x w))"
    using c_store [OF pc] by (simp add: eq mlossy_exact)
  show "\<not> mraced (mpop_store t n x w)" "mviews_ok (mpop_store t n x w)"
      "\<not> unborn (mhead (mq (mchan (mpop_store t n x w)))) (head_view (mpop_store t n x w)) (mpop_store t n x w)"
    using D(1,3,6) by (simp_all add: eq mviews_ok_def unborn_def st)
  show "mp_knows (mpop_store t n x w)" "mc_knows (mpop_store t n x w)"
    using D(7,8) pc by (simp_all add: mp_knows_def mc_knows_def unborn_def eq st)
  show "dead_ok (mpop_store t n x w) a" if "nodes (mq (mchan (mpop_store t n x w))) a = None" for a
    by (rule dead_ok_cong [of w]) (use that D(4) [of a] in \<open>simp_all add: eq st\<close>)
  show "live_ok (mpop_store t n x w) a" if "nodes (mq (mchan (mpop_store t n x w))) a \<noteq> None" for a
  proof (rule live_ok_cong [of w])
    show "a \<in> set (chain (mq (mchan (mpop_store t n x w)))) \<Longrightarrow> a \<in> set (chain (mq (mchan w)))"
      by (cases "chain (mq (mchan w))") (simp_all add: eq st)
  qed (use that D(5) [of a] in \<open>simp_all add: eq st\<close>)
qed

lemma mpop_delete_ok:
  assumes ok: "mweak_ok w" and pc: "mcons (mchan w) = MC_Delete t x" and del: "mpop_delete t x w = Some w'"
  shows "mweak_ok w' \<and> mlossy_step (mchan w) (mchan w')"
proof -
  note D = mweak_okD [OF ok]
  have kn: "Suc (seen_seq (mc_view w) t) = length (nexts w t)" "\<forall>a. seen_use (mc_view w) a = mtouched w a"
    using D(8) pc by (simp_all add: mc_knows_def)
  obtain q where q: "delete_node t (mq (mchan w)) = Some q"
    using del by (auto simp: mpop_delete_def Let_def split: option.splits)
  then have qe: "q = (mq (mchan w))\<lparr>nodes := (nodes (mq (mchan w)))(t := None)\<rparr>"
    by (simp add: delete_node_def split: if_splits)
  have eq: "w' = (touch t w)\<lparr>mraced := False, freed := (freed w)(t := mc_view (touch t w)),
      mchan := (mchan w)\<lparr>mq := q, mcons := MC_Idle, delivered := delivered (mchan w) @ [x]\<rparr>\<rparr>"
    using del kn D(1) q by (simp add: mpop_delete_def store_unordered_def use_unordered_def Let_def)
  show ?thesis
  proof (rule mweak_okI [OF ok])
    show "mlossy_step (mchan w) (mchan w')" using c_delete [OF pc q] by (simp add: eq mlossy_exact)
    show "\<not> mraced w'" "\<not> unborn (mhead (mq (mchan w'))) (head_view w') w'"
      using D(6) by (simp_all add: eq qe unborn_def)
    show "mviews_ok w'"
      using touch_views [OF D(3), of t] unfolding mviews_ok_def eq by (auto simp: fun_upd_def)
    show "mp_knows w'" "mc_knows w'"
      using D(7,8) by (simp_all add: mp_knows_def mc_knows_def unborn_def eq qe)
    show "dead_ok w' a" if "nodes (mq (mchan w')) a = None" for a
    proof (cases "a = t")
      case True
      then show ?thesis using kn(1) by (simp add: dead_ok_def eq)
    next
      case False
      show ?thesis by (rule dead_ok_cong [of w]) (use that False D(4) [of a] in \<open>simp_all add: eq qe\<close>)
    qed
    show "live_ok w' a" if a: "nodes (mq (mchan w')) a \<noteq> None" for a
    proof -
      have "a \<noteq> t" using a by (auto simp: eq qe)
      then show ?thesis
        by (intro live_ok_cong [of w a w']) (use a D(5) [of a] in \<open>simp_all add: eq qe next_of_def\<close>)
    qed
  qed
qed


lemma mpop_load_ok:
  assumes ok: "mweak_ok w" and pc: "mcons (mchan w) = MC_Tail t" and alive: "nodes (mq (mchan w)) t \<noteq> None"
    and load: "readable t j (mc_view w) (nexts w)"
  shows "mweak_ok (mpop_load t j w) \<and> mlossy_step (mchan w) (mchan (mpop_load t j w))"
proof (rule mweak_okI [OF ok])
  note D = mweak_okD [OF ok]
  have t: "t = mtail (mq (mchan w))" "t \<in> set (chain (mq (mchan w)))"
    using cons_alive(1) [OF D(2) pc] chan_alive(2) [OF D(2)] by simp_all
  have kn: "\<not> unborn t (mc_view w) w" "\<And>a. seen_use (mc_view w) a = mtouched w a"
    using D(8) t(1) by (simp_all add: mc_knows_def)
  define s where "s = fst (nexts w t ! j)"
  define v where "v = snd (acquire_load t j (mc_view (touch t w)) (nexts w))"
  define pc' :: "'a mcons" where "pc' = (case s of None \<Rightarrow> MC_Idle | Some n \<Rightarrow> MC_Next t n)"
  have eq: "mpop_load t j w = (touch t w)\<lparr>mraced := False, mc_view := v, mchan := (mchan w)\<lparr>mcons := pc'\<rparr>\<rparr>"
    using kn(1) D(1) by (simp add: mpop_load_def Let_def case_prod_unfold v_def s_def pc'_def acquire_load_def)
  have load': "readable t j (mc_view (touch t w)) (nexts (touch t w))" using load by (simp add: readable_def)
  note tv = touch_views [OF D(3), of t]
  have v: "mbounded v (touch t w)"
    using within_load [OF _ _ load'] tv by (simp add: mviews_ok_def v_def)
  have grow: "seen_seq (mc_view w) a \<le> seen_seq v a" for a
    using load_mono [OF load', of a] by (simp add: v_def)
  have msg: "mbounded (snd (nexts w t ! j)) w"
    using D(3) load unfolding mviews_ok_def msgs_within_def readable_def by (meson nth_mem)
  have own: "seen_use v a = mtouched (touch t w) a" for a
  proof -
    have "seen_use (snd (nexts w t ! j)) a \<le> mtouched w a" using msg by (simp add: within_def)
    then show ?thesis using kn(2) by (cases "a = t") (simp_all add: v_def acquire_load_def max_absorb1 le_SucI)
  qed
  have some: "next_of (mq (mchan w)) t = Some n \<and> Suc (seen_seq v t) = length (nexts w t) \<and> \<not> unborn n v w"
    if "s = Some n" for n
  proof -
    note live = D(5) [OF alive]
    have "j \<noteq> born w t" using live that by (auto simp: live_ok_def s_def)
    moreover have "born w t \<le> j" "j < length (nexts w t)" using load kn(1) by (simp_all add: readable_def unborn_def)
    moreover have "length (nexts w t) \<le> Suc (Suc (born w t))" using live by (simp add: live_ok_def split: option.splits)
    ultimately have "j = Suc (born w t)" by simp
    moreover have "seen_seq v t \<le> Suc (born w t)" if "length (nexts w t) = Suc (Suc (born w t))"
      using v that by (simp add: within_def) (metis less_Suc_eq_le)
    ultimately show ?thesis
      using live that load t(2)
      by (auto simp: live_ok_def s_def readable_def unborn_def v_def acquire_load_def split: option.splits)
  qed
  show "mlossy_step (mchan w) (mchan (mpop_load t j w))"
  proof (cases s)
    case None
    then show ?thesis using mlossy_pop [OF pc] by (simp add: eq pc'_def)
  next
    case (Some n)
    then obtain nd where "nodes (mq (mchan w)) t = Some nd" "next_node nd = Some n"
      using some alive by (auto simp: next_of_def)
    with Some show ?thesis using c_next [OF pc] by (simp add: eq pc'_def mlossy_exact)
  qed
  show "\<not> mraced (mpop_load t j w)"
      "\<not> unborn (mhead (mq (mchan (mpop_load t j w)))) (head_view (mpop_load t j w)) (mpop_load t j w)"
    using D(6) by (simp_all add: eq unborn_def)
  show "mviews_ok (mpop_load t j w)" using tv v by (simp add: mviews_ok_def eq)
  show "mp_knows (mpop_load t j w)" using D(7) by (simp add: mp_knows_def unborn_def eq)
  have "\<not> unborn (mtail (mq (mchan w))) v w" using kn(1) grow [of t] t(1) by (auto simp: unborn_def)
  then show "mc_knows (mpop_load t j w)"
    using own some by (auto simp: mc_knows_def eq pc'_def unborn_def split: option.split)
  show "dead_ok (mpop_load t j w) a" if "nodes (mq (mchan (mpop_load t j w))) a = None" for a
  proof (rule dead_ok_cong [of w])
    have "a \<noteq> t" using that alive by (auto simp: eq)
    then show "mtouched (mpop_load t j w) a = mtouched w a" by (simp add: eq)
  qed (use that D(4) [of a] in \<open>simp_all add: eq\<close>)
  show "live_ok (mpop_load t j w) a" if "nodes (mq (mchan (mpop_load t j w))) a \<noteq> None" for a
    by (rule live_ok_cong [of w]) (use that D(5) [of a] in \<open>simp_all add: eq\<close>)
qed

subsection \<open>The steps of the producers\<close>

lemma mpush_new_ok:
  assumes ok: "mweak_ok w" and pc: "mprods (mchan w) i = M_Idle" and free: "nodes (mq (mchan w)) a = None"
  shows "mweak_ok (mpush_new i a x w) \<and> mlossy_step (mchan w) (mchan (mpush_new i a x w))"
proof (rule mweak_okI [OF ok])
  note D = mweak_okD [OF ok] and c = chan_alive [OF mweak_okD(2) [OF ok]]
  define u where "u = view_join (mp_view w i) (freed w a)"
  have u: "mbounded u w" using D(3) by (simp add: mviews_ok_def u_def within_join)
  have "seen_seq u a < length (nexts w a)" "seen_use u a \<le> mtouched w a" using u by (simp_all add: within_def)
  then have ord: "Suc (seen_seq u a) = length (nexts w a)" "seen_use u a = mtouched w a"
    using D(4) [OF free] by (auto simp: dead_ok_def u_def)
  define v where "v = see_seq a (length (nexts w a)) u"
  define q where "q = new_node a x (mq (mchan w))"
  have q: "nodes q b = (if b = a then Some \<lparr>next_node = None, elem = x\<rparr> else nodes (mq (mchan w)) b)"
      "next_of q b = (if b = a then None else next_of (mq (mchan w)) b)"
      "mhead q = mhead (mq (mchan w))" "mtail q = mtail (mq (mchan w))" "chain q = chain (mq (mchan w))" for b
    by (simp_all add: q_def new_node_def next_of_def)
  have eq: "mpush_new i a x w = w\<lparr>mraced := False, nexts := (nexts w)(a := nexts w a @ [(None, v)]),
      born := (born w)(a := length (nexts w a)), mp_view := (mp_view w)(i := v),
      mchan := (mchan w)\<lparr>mq := q, mprods := (mprods (mchan w))(i := M_New a)\<rparr>\<rparr>"
    using ord D(1)
    by (simp add: mpush_new_def release_store_def store_unordered_def use_unordered_def Let_def u_def v_def q_def)
  have away: "b \<noteq> a" if "nodes (mq (mchan w)) b \<noteq> None" for b using that free by auto
  show "mlossy_step (mchan w) (mchan (mpush_new i a x w))"
    using m_new [OF pc free, of x] by (simp add: eq q_def mlossy_exact)
  have "mhead (mq (mchan w)) \<noteq> a" using away c(1,3) by blast
  then show "\<not> mraced (mpush_new i a x w)"
      "\<not> unborn (mhead (mq (mchan (mpush_new i a x w)))) (head_view (mpush_new i a x w)) (mpush_new i a x w)"
    using D(6) by (simp_all add: eq unborn_def q)
  show "mviews_ok (mpush_new i a x w)"
    using D(3) within_store [OF u _ refl, where i = a and x = None] by (simp add: mviews_ok_def eq v_def)
  show "mp_knows (mpush_new i a x w)"
    unfolding mp_knows_def
  proof (intro conjI allI impI)
    show "\<not> unborn b (mp_view (mpush_new i a x w) j) (mpush_new i a x w)"
      if "mprods (mchan (mpush_new i a x w)) j = M_New b" for j b
      using that D(7) away c(4) [of j b] by (auto simp: mp_knows_def eq unborn_def v_def split: if_splits)
    show "\<not> unborn b (mp_view (mpush_new i a x w) j) (mpush_new i a x w)"
        "\<not> unborn p (mp_view (mpush_new i a x w) j) (mpush_new i a x w)"
      if "mprods (mchan (mpush_new i a x w)) j = M_Link p b" for j p b
      using that D(7) away c(3) c(5) [of j p b] by (auto simp: mp_knows_def eq unborn_def split: if_splits)
  qed
  have tl: "mtail (mq (mchan w)) \<noteq> a" using away c(2,3) by blast
  have "t \<noteq> a \<and> n \<noteq> a" if "mcons (mchan w) = MC_Next t n" for t n
    using cons_alive(2) [OF D(2) that] away c(3) tl by blast
  moreover have "t \<noteq> a \<and> n \<noteq> a" if "mcons (mchan w) = MC_Data t n y" for t n y
    using cons_alive(3) [OF D(2) that] away c(3) tl by blast
  moreover have "t \<noteq> a" if "mcons (mchan w) = MC_Delete t y" for t y
    using cons_alive(4) [OF D(2) that] away by blast
  ultimately show "mc_knows (mpush_new i a x w)"
    using D(8) tl by (simp add: mc_knows_def eq unborn_def q split: mcons.splits)
  show "dead_ok (mpush_new i a x w) b" if "nodes (mq (mchan (mpush_new i a x w))) b = None" for b
    by (rule dead_ok_cong [of w]) (use that D(4) [of b] in \<open>simp_all add: eq q split: if_splits\<close>)
  show "live_ok (mpush_new i a x w) b" if b: "nodes (mq (mchan (mpush_new i a x w))) b \<noteq> None" for b
  proof (cases "b = a")
    case True
    then show ?thesis by (simp add: live_ok_def eq q nth_append)
  next
    case False
    show ?thesis
    proof (rule live_ok_cong [of w])
      fix d assume "next_of (mq (mchan w)) b = Some d" "b \<in> set (chain (mq (mchan w)))"
      then have "d \<noteq> a" using c(3,6) away by blast
      then show "born (mpush_new i a x w) d = born w d" by (simp add: eq)
    qed (use b False D(5) [of b] in \<open>simp_all add: eq q\<close>)
  qed
qed


lemma mpush_exchange_ok:
  assumes ok: "mweak_ok w" and pc: "mprods (mchan w) i = M_New a"
  shows "mweak_ok (mpush_exchange i a w) \<and> mlossy_step (mchan w) (mchan (mpush_exchange i a w))"
proof (rule mweak_okI [OF ok])
  note D = mweak_okD [OF ok] and c = chan_alive [OF mweak_okD(2) [OF ok]]
  define v where "v = view_join (mp_view w i) (head_view w)"
  have v: "mbounded v w" using D(3) by (simp add: mviews_ok_def v_def within_join)
  define q where "q = snd (exchange_head a (mq (mchan w)))"
  have q: "nodes q = nodes (mq (mchan w))" "next_of q = next_of (mq (mchan w))" "mhead q = a"
      "mtail q = mtail (mq (mchan w))" "chain q = chain (mq (mchan w)) @ [a]"
    by (simp_all add: q_def exchange_head_def next_of_def fun_eq_iff)
  have eq: "mpush_exchange i a w = w\<lparr>head_view := v, mp_view := (mp_view w)(i := v),
      mchan := (mchan w)\<lparr>mq := q, mprods := (mprods (mchan w))(i := M_Link (mhead (mq (mchan w))) a),
                         enqueued := enqueued (mchan w) @ [elem_of (mq (mchan w)) a]\<rparr>\<rparr>"
    by (simp add: mpush_exchange_def Let_def v_def q_def exchange_head_def)
  have mine: "\<not> unborn a v w" using D(7) pc by (auto simp: mp_knows_def unborn_def v_def)
  have prev: "\<not> unborn (mhead (mq (mchan w))) v w" using D(6) by (auto simp: unborn_def v_def)
  have na: "next_of (mq (mchan w)) a = None" using c(4) [OF pc] by simp
  show "mlossy_step (mchan w) (mchan (mpush_exchange i a w))"
    using m_exchange [OF pc] by (simp add: eq q_def exchange_head_def mlossy_exact)
  show "\<not> mraced (mpush_exchange i a w)"
      "\<not> unborn (mhead (mq (mchan (mpush_exchange i a w)))) (head_view (mpush_exchange i a w)) (mpush_exchange i a w)"
    using D(1) mine by (simp_all add: eq q unborn_def)
  show "mviews_ok (mpush_exchange i a w)" using D(3) v by (simp add: mviews_ok_def eq)
  show "mp_knows (mpush_exchange i a w)"
    using D(7) mine prev by (simp add: mp_knows_def eq unborn_def)
  show "mc_knows (mpush_exchange i a w)"
    using D(8) by (simp add: mc_knows_def eq unborn_def q cong: mcons.case_cong)
  show "dead_ok (mpush_exchange i a w) b" if "nodes (mq (mchan (mpush_exchange i a w))) b = None" for b
    by (rule dead_ok_cong [of w]) (use that D(4) [of b] in \<open>simp_all add: eq q\<close>)
  show "live_ok (mpush_exchange i a w) b" if "nodes (mq (mchan (mpush_exchange i a w))) b \<noteq> None" for b
    by (rule live_ok_cong [of w]) (use that na D(5) [of b] in \<open>auto simp: eq q\<close>)
qed

lemma mpush_link_ok:
  assumes ok: "mweak_ok w" and pc: "mprods (mchan w) i = M_Link p a" and link: "mpush_link i p a w = Some w'"
  shows "mweak_ok w' \<and> mlossy_step (mchan w) (mchan w')"
proof (rule mweak_okI [OF ok])
  note D = mweak_okD [OF ok] and c = chan_alive [OF mweak_okD(2) [OF ok]]
  define v where "v = mp_view w i"
  have v: "mbounded v w" using D(3) by (simp add: mviews_ok_def v_def)
  note pa = c(5) [OF pc]
  have live: "live_ok w p" using D(5) c(3) pa by blast
  have kn: "\<not> unborn p v w" "\<not> unborn a v w" using D(7) pc by (auto simp: mp_knows_def v_def)
  have "seen_seq v p < length (nexts w p)" using v by (simp add: within_def)
  then have ord: "Suc (seen_seq v p) = length (nexts w p)" "length (nexts w p) = Suc (born w p)"
    using live_length(2) [OF live] pa kn(1) by (simp_all add: unborn_def)
  obtain q where l: "link_node p a (mq (mchan w)) = Some q"
    using link by (auto simp: mpush_link_def Let_def release_store_def split: option.splits)
  then obtain nd where "nodes (mq (mchan w)) p = Some nd"
      "q = (mq (mchan w))\<lparr>nodes := (nodes (mq (mchan w)))(p \<mapsto> nd\<lparr>next_node := Some a\<rparr>)\<rparr>"
    by (auto simp: link_node_def split: option.splits)
  then have q: "(nodes q b = None) = (nodes (mq (mchan w)) b = None)"
      "next_of q b = (if b = p then Some a else next_of (mq (mchan w)) b)"
      "mhead q = mhead (mq (mchan w))" "mtail q = mtail (mq (mchan w))" "chain q = chain (mq (mchan w))" for b
    by (simp_all add: next_of_def)
  define u where "u = see_seq p (length (nexts w p)) v"
  have eq: "w' = w\<lparr>mraced := False, nexts := (nexts w)(p := nexts w p @ [(Some a, u)]),
      mp_view := (mp_view w)(i := u), mchan := (mchan w)\<lparr>mq := q, mprods := (mprods (mchan w))(i := M_Idle)\<rparr>\<rparr>"
    using link l kn ord D(1)
    by (simp add: mpush_link_def Let_def release_store_def store_unordered_def u_def v_def [symmetric])
  show "mlossy_step (mchan w) (mchan w')" using m_link [OF pc l] by (simp add: eq mlossy_exact)
  show "\<not> mraced w'" "\<not> unborn (mhead (mq (mchan w'))) (head_view w') w'"
    using D(6) by (simp_all add: eq q unborn_def)
  show "mviews_ok w'"
    using D(3) within_store [OF v _ refl, where i = p and x = "Some a"] by (simp add: mviews_ok_def eq u_def)
  show "mp_knows w'" using D(7) by (simp add: mp_knows_def eq unborn_def)
  have "t \<noteq> p" if "mcons (mchan w) = MC_Next t n" for t n
    using cons_alive(2) [OF D(2) that] pa by auto
  moreover have "t \<noteq> p" if "mcons (mchan w) = MC_Data t n y" for t n y
    using cons_alive(3) [OF D(2) that] pa by auto
  moreover have "t \<noteq> p" if "mcons (mchan w) = MC_Delete t y" for t y
    using cons_alive(4) [OF D(2) that] pa by auto
  ultimately show "mc_knows w'" using D(8) by (simp add: mc_knows_def eq unborn_def q split: mcons.splits)
  show "dead_ok w' b" if b: "nodes (mq (mchan w')) b = None" for b
  proof (rule dead_ok_cong [of w])
    have "b \<noteq> p" using b c(3) [of p] pa by (auto simp: eq q)
    then show "nexts w' b = nexts w b" by (simp add: eq)
  qed (use b D(4) [of b] in \<open>simp_all add: eq q\<close>)
  show "live_ok w' b" if b: "nodes (mq (mchan w')) b \<noteq> None" for b
  proof (cases "b = p")
    case True
    have "seen_seq u a \<ge> born w a" using kn(2) ord by (auto simp: unborn_def u_def)
    then show ?thesis
      using True live ord pa by (simp add: live_ok_def eq q unborn_def nth_append)
  next
    case False
    show ?thesis by (rule live_ok_cong [of w]) (use b False D(5) [of b] in \<open>simp_all add: eq q\<close>)
  qed
qed


subsection \<open>Every run\<close>

lemma mweak_step_ok:
  assumes "mweak_step w w'" and "mweak_ok w"
  shows "mweak_ok w' \<and> mlossy_step (mchan w) (mchan w')"
  using assms(1)
proof (cases rule: mweak_step.cases)
  case mweak_new_node
  then show ?thesis using mpush_new_ok [OF assms(2)] by simp
next
  case mweak_exchange
  then show ?thesis using mpush_exchange_ok [OF assms(2)] by simp
next
  case mweak_link
  then show ?thesis using mpush_link_ok [OF assms(2)] by simp
next
  case mweak_start
  then show ?thesis using mpop_start_ok [OF assms(2)] by simp
next
  case mweak_load
  then show ?thesis using mpop_load_ok [OF assms(2)] by simp
next
  case mweak_read
  then show ?thesis using mpop_read_ok [OF assms(2)] by simp
next
  case mweak_store
  then show ?thesis using mpop_store_ok [OF assms(2)] by simp
next
  case mweak_delete
  then show ?thesis using mpop_delete_ok [OF assms(2)] by simp
qed

lemma mweak_new_ok: "mweak_ok (mweak_new (mpsc_new alloc d))"
proof -
  have "mchannel_ok (mchannel_new (mpsc_new alloc d))" by (rule mchannel_reach) (rule rtranclp.rtrancl_refl)
  then show ?thesis
    by (simp add: mweak_ok_def mweak_new_def mviews_ok_def msgs_within_def within_def view_new_def
        dead_ok_def live_ok_def unborn_def mp_knows_def mc_knows_def mchannel_new_def mpsc_new_def next_of_def Let_def)
qed

lemma mweak_reach:
  assumes "mweak_step\<^sup>*\<^sup>* (mweak_new (mpsc_new alloc d)) w"
  shows "mweak_ok w \<and> mlossy_step\<^sup>*\<^sup>* (mchannel_new (mpsc_new alloc d)) (mchan w)"
  using assms
proof (induction rule: rtranclp_induct)
  case base
  then show ?case using mweak_new_ok [of alloc d] by (simp add: mweak_new_def)
next
  case (step u v)
  then have "mweak_ok v \<and> mlossy_step (mchan u) (mchan v)" by (intro mweak_step_ok) auto
  with step.IH show ?case by (auto intro: rtranclp.rtrancl_into_rtrancl)
qed

text \<open>A step of the interleaving is a step here: the consumer can read the latest pointer.\<close>

lemma mpop_load_latest:
  assumes ok: "mweak_ok w" and pc: "mcons (mchan w) = MC_Tail t" and nd: "nodes (mq (mchan w)) t = Some nd"
  shows "\<exists>w'. mweak_step w w' \<and>
    mchan w' = (mchan w)\<lparr>mcons := (case next_node nd of None \<Rightarrow> MC_Idle | Some n \<Rightarrow> MC_Next t n)\<rparr>"
proof -
  have live: "live_ok w t" using mweak_okD(5) [OF ok] nd by simp
  have "seen_seq (mc_view w) t < length (nexts w t)"
    using mweak_okD(3) [OF ok] by (simp add: mviews_ok_def within_def)
  moreover obtain j where j: "length (nexts w t) = Suc j" "fst (nexts w t ! j) = next_node nd"
    using live nd by (auto simp: live_ok_def next_of_def split: option.splits)
  ultimately have "readable t j (mc_view w) (nexts w)" by (simp add: readable_def)
  then have "mweak_step w (mpop_load t j w)" using mweak_load [OF pc] nd by simp
  moreover have "mchan (mpop_load t j w) =
      (mchan w)\<lparr>mcons := (case next_node nd of None \<Rightarrow> MC_Idle | Some n \<Rightarrow> MC_Next t n)\<rparr>"
    using j by (simp add: mpop_load_def Let_def case_prod_unfold acquire_load_def)
  ultimately show ?thesis by blast
qed

lemma mweak_step_exact:
  assumes ok: "mweak_ok w" and "mpsc_step (mchan w) c'"
  shows "\<exists>w'. mweak_step w w' \<and> mchan w' = c'"
  using assms(2)
proof (cases rule: mpsc_step.cases)
  case (m_new i a x)
  then show ?thesis using mweak_new_node [of w i a x]
    by (intro exI [of _ "mpush_new i a x w"]) (simp add: mpush_new_def release_store_def Let_def)
next
  case (m_exchange i a prev q')
  then show ?thesis using mweak_exchange [of w i a]
    by (intro exI [of _ "mpush_exchange i a w"]) (simp add: mpush_exchange_def Let_def)
next
  case (m_link i p a q')
  then obtain w' where "mpush_link i p a w = Some w'" "mchan w' = c'"
    by (simp add: mpush_link_def release_store_def Let_def)
  with m_link(2) show ?thesis using mweak_link [of w i p a w'] by blast
next
  case c_load
  then show ?thesis using mweak_start [of w] by (intro exI [of _ "mpop_start w"]) (simp add: mpop_start_def)
next
  case c_none
  then show ?thesis using mpop_load_latest [OF ok] by fastforce
next
  case c_next
  then show ?thesis using mpop_load_latest [OF ok] by fastforce
next
  case (c_read t n nn)
  then show ?thesis using mweak_read [of w t n]
    by (intro exI [of _ "mpop_read t n w"]) (simp add: mpop_read_def elem_of_def)
next
  case (c_store t n x)
  then show ?thesis using mweak_store [of w t n x]
    by (intro exI [of _ "mpop_store t n x w"]) (simp add: mpop_store_def Let_def)
next
  case (c_delete t x q')
  then obtain w' where "mpop_delete t x w = Some w'" "mchan w' = c'"
    by (simp add: mpop_delete_def Let_def)
  with c_delete(2) show ?thesis using mweak_delete [of w t x w'] by blast
qed

lemma mweak_covers_interleaving:
  assumes "mweak_ok w" and "mpsc_step\<^sup>*\<^sup>* (mchan w) c"
  shows "\<exists>w'. mweak_step\<^sup>*\<^sup>* w w' \<and> mchan w' = c \<and> mweak_ok w'"
  using assms(2)
proof (induction rule: rtranclp_induct)
  case base
  then show ?case using assms(1) by blast
next
  case (step c c')
  then obtain u where u: "mweak_step\<^sup>*\<^sup>* w u" "mchan u = c" "mweak_ok u" by blast
  with step.hyps(2) obtain v where "mweak_step u v" "mchan v = c'" using mweak_step_exact by blast
  with u mweak_step_ok show ?case by (metis rtranclp.rtrancl_into_rtrancl)
qed

text \<open>
  C3. Under the memory model of C++, for any number of producers and any reuse of addresses: a node
  is made, linked, read and deleted only by threads that come after everything they must come
  after (no data race, no use after free); every run is an interleaving of the accesses in which
  a pop may also miss the next node, and every plain interleaving is such a run; and the popped
  elements are a prefix of the pushed ones in the order of the exchanges.
\<close>
theorem mpsc_weak_memory:
  assumes "mweak_step\<^sup>*\<^sup>* (mweak_new (mpsc_new alloc d)) w"
  shows "\<not> mraced w \<and> mlossy_step\<^sup>*\<^sup>* (mchannel_new (mpsc_new alloc d)) (mchan w) \<and>
    (\<exists>rest. enqueued (mchan w) = delivered (mchan w) @ rest) \<and>
    {c. mpsc_step\<^sup>*\<^sup>* (mchannel_new (mpsc_new alloc d)) c}
      \<subseteq> mchan ` {u. mweak_step\<^sup>*\<^sup>* (mweak_new (mpsc_new alloc d)) u}"
proof -
  have new: "mchan (mweak_new (mpsc_new alloc d)) = mchannel_new (mpsc_new alloc d)" by (simp add: mweak_new_def)
  have "{c. mpsc_step\<^sup>*\<^sup>* (mchannel_new (mpsc_new alloc d)) c}
      \<subseteq> mchan ` {u. mweak_step\<^sup>*\<^sup>* (mweak_new (mpsc_new alloc d)) u}"
    using mweak_covers_interleaving [OF mweak_new_ok [of alloc d], unfolded new] by blast
  then show ?thesis
    using mweak_reach [OF assms] mchannel_okD(3) [of "mchan w"] mweak_okD(1,2) [of w] by auto
qed


text \<open>
  A run with a stale read and a reused address: producer 0 pushes 7, the consumer's first
  \<open>try_pop\<close> misses it, the second takes it and deletes the first node, and producer 1 gets that
  node's address for its push of 8.
\<close>

definition stale_mweak :: "nat mweak" where
  "stale_mweak = mpop_load 0 0 (mpop_start (the (mpush_link 0 0 1
     (mpush_exchange 0 1 (mpush_new 0 1 7 (mweak_new (mpsc_new (\<lambda>h. 0) 0)))))))"

definition sample_mweak :: "nat mweak" where
  "sample_mweak = mpush_exchange 1 0 (mpush_new 1 0 8 (the (mpop_delete 0 7
     (mpop_store 0 1 7 (mpop_read 0 1 (mpop_load 0 1 (mpop_start stale_mweak)))))))"

lemmas mweak_eval = mpush_new_def mpush_exchange_def mpush_link_def mpop_start_def mpop_load_def mpop_read_def
  mpop_store_def mpop_delete_def touch_def mweak_new_def mchannel_new_def mpsc_new_def new_node_def
  exchange_head_def link_node_def store_tail_def delete_node_def elem_of_def readable_def acquire_load_def
  release_store_def view_new_def view_join_def see_seq_def see_use_def unborn_def use_unordered_def
  store_unordered_def Let_def

lemma mweak_more: "mweak_step\<^sup>*\<^sup>* w u \<Longrightarrow> mweak_step u v \<Longrightarrow> mweak_step\<^sup>*\<^sup>* w v"
  by (rule rtranclp.rtrancl_into_rtrancl)

lemma mweak_link_the:
  "mprods (mchan w) i = M_Link p a \<Longrightarrow> mpush_link i p a w \<noteq> None \<Longrightarrow> mweak_step w (the (mpush_link i p a w))"
  using mweak_link by fastforce

lemma mweak_delete_the:
  "mcons (mchan w) = MC_Delete t x \<Longrightarrow> mpop_delete t x w \<noteq> None \<Longrightarrow> mweak_step w (the (mpop_delete t x w))"
  using mweak_delete by fastforce

lemma stale_mweak_reached: "mweak_step\<^sup>*\<^sup>* (mweak_new (mpsc_new (\<lambda>h. 0) 0)) stale_mweak"
  unfolding stale_mweak_def
  apply (rule mweak_more [OF _ mweak_load])
     apply (rule mweak_more [OF _ mweak_start])
      apply (rule mweak_more [OF _ mweak_link_the])
        apply (rule mweak_more [OF _ mweak_exchange])
         apply (rule mweak_more [OF _ mweak_new_node])
           apply (rule rtranclp.rtrancl_refl)
          apply (simp_all add: mweak_eval)
  done

lemma sample_mweak_reached: "mweak_step\<^sup>*\<^sup>* (mweak_new (mpsc_new (\<lambda>h. 0) 0)) sample_mweak"
  unfolding sample_mweak_def
  apply (rule mweak_more [OF _ mweak_exchange])
   apply (rule mweak_more [OF _ mweak_new_node])
     apply (rule mweak_more [OF _ mweak_delete_the])
       apply (rule mweak_more [OF _ mweak_store])
        apply (rule mweak_more [OF _ mweak_read])
          apply (rule mweak_more [OF _ mweak_load])
             apply (rule mweak_more [OF stale_mweak_reached mweak_start])
             apply (simp_all add: stale_mweak_def mweak_eval)
  done

theorem mpsc_weak_memory_witness:
  "\<not> mraced sample_mweak \<and> enqueued (mchan sample_mweak) = [7, 8] \<and> delivered (mchan sample_mweak) = [7] \<and>
   (\<exists>rest. enqueued (mchan sample_mweak) = delivered (mchan sample_mweak) @ rest)"
proof -
  have "enqueued (mchan sample_mweak) = [7, 8]" "delivered (mchan sample_mweak) = [7]"
    by (simp_all add: sample_mweak_def stale_mweak_def mweak_eval)
  then show ?thesis using mpsc_weak_memory [OF sample_mweak_reached] by simp
qed

end
