(* ===== verification/Console.thy ===== *)
theory Console
  imports Binary64
begin

text \<open>
  \<open>std::cout\<close> as the programs use it: the text written so far and the two format settings
  that stay in force from one output to the next, \<open>std::fixed\<close> and \<open>std::setprecision\<close>. An
  integer is printed in decimal, a \<open>double\<close> in the fixed format with the exact value rounded to
  the given number of decimals, ties to even. No program prints a \<open>double\<close> in the default
  format: that would be \<open>None\<close> here.
\<close>

subsection \<open>Decimal numbers\<close>

definition digit :: "nat \<Rightarrow> char" where
  "digit d = char_of (48 + d)"

fun dec :: "nat \<Rightarrow> string" where
  "dec n = (if n < 10 then [digit n] else dec (n div 10) @ [digit (n mod 10)])"

declare dec.simps [simp del]

definition dec_int :: "int \<Rightarrow> string" where
  "dec_int i = (if i < 0 then ''-'' @ dec (nat (- i)) else dec (nat i))"

definition pad :: "nat \<Rightarrow> string \<Rightarrow> string" where
  "pad n s = replicate (n - length s) (CHR ''0'') @ s"

definition fixed_text :: "nat \<Rightarrow> double \<Rightarrow> string" where
  "fixed_text n x =
     (let m = nat (round_even (\<bar>x\<bar> * 10 ^ n))
      in (if x < 0 then ''-'' else '''') @ dec (m div 10 ^ n) @
         (if n = 0 then '''' else ''.'' @ pad n (dec (m mod 10 ^ n))))"

text \<open>What a reader makes of such a text.\<close>

definition dec_value :: "string \<Rightarrow> nat" where
  "dec_value s = foldl (\<lambda>v c. v * 10 + (of_char c - 48)) 0 s"

definition read_fixed :: "string \<Rightarrow> rat" where
  "read_fixed s =
     (let neg = (s \<noteq> [] \<and> hd s = CHR ''-'');
          t = (if neg then tl s else s);
          whole = takeWhile (\<lambda>c. c \<noteq> CHR ''.'') t;
          frac = drop (Suc (length whole)) t;
          v = of_nat (dec_value whole) + of_nat (dec_value frac) / 10 ^ length frac
      in if neg then - v else v)"

definition read_int :: "string \<Rightarrow> int" where
  "read_int s = (if s \<noteq> [] \<and> hd s = CHR ''-'' then - int (dec_value (tl s)) else int (dec_value s))"

subsection \<open>Numbers read back\<close>

definition is_digit :: "char \<Rightarrow> bool" where
  "is_digit c \<longleftrightarrow> c \<in> digit ` {..<10}"

lemma of_char_digit: "d < 10 \<Longrightarrow> of_char (digit d) = (48 + d :: nat)"
  by (simp add: digit_def)

lemma digit_is_digit [simp]: "d < 10 \<Longrightarrow> is_digit (digit d)"
  by (auto simp: is_digit_def)

lemma digit_table:
  "digit 0 = CHR ''0''" "digit (Suc 0) = CHR ''1''" "digit 2 = CHR ''2''" "digit 3 = CHR ''3''" "digit 4 = CHR ''4''"
  "digit 5 = CHR ''5''" "digit 6 = CHR ''6''" "digit 7 = CHR ''7''" "digit 8 = CHR ''8''" "digit 9 = CHR ''9''"
  by code_simp+

lemma is_digit_neq: "is_digit c \<Longrightarrow> c \<noteq> CHR ''.'' \<and> c \<noteq> CHR ''-''"
proof -
  assume "is_digit c"
  then obtain d where d: "d < 10" "c = digit d" by (auto simp: is_digit_def)
  have "of_char c \<noteq> (46::nat)" "of_char c \<noteq> (45::nat)" using of_char_digit [OF d(1)] d(2) by simp_all
  then show ?thesis by auto
qed

lemma dec_digits: "\<forall>c\<in>set (dec n). is_digit c"
proof (induction n rule: dec.induct)
  case (1 n)
  then show ?case by (subst dec.simps) auto
qed

lemma dec_not_empty [simp]: "dec n \<noteq> []"
  by (subst dec.simps) simp

lemma dec_value_snoc: "dec_value (s @ [c]) = dec_value s * 10 + (of_char c - 48)"
  by (simp add: dec_value_def)

lemma dec_value_dec [simp]: "dec_value (dec n) = n"
proof (induction n rule: dec.induct)
  case (1 n)
  show ?case
  proof (cases "n < 10")
    case True
    then show ?thesis by (subst dec.simps) (simp add: dec_value_def of_char_digit)
  next
    case False
    then have "dec n = dec (n div 10) @ [digit (n mod 10)]" by (subst dec.simps) simp
    with False 1 show ?thesis by (simp add: dec_value_snoc of_char_digit)
  qed
qed

lemma dec_value_Nil [simp]: "dec_value [] = 0"
  by (simp add: dec_value_def)

lemma dec_inj: "dec m = dec n \<Longrightarrow> m = n"
  by (metis dec_value_dec)

lemma dec_value_zeros [simp]: "dec_value (replicate k (CHR ''0'') @ s) = dec_value s"
  by (induction k) (simp_all add: dec_value_def)

lemma length_dec: "n < 10 ^ k \<Longrightarrow> 0 < k \<Longrightarrow> length (dec n) \<le> k"
proof (induction n arbitrary: k rule: dec.induct)
  case (1 n)
  show ?case
  proof (cases "n < 10")
    case True
    then show ?thesis using 1(3) by (subst dec.simps) simp
  next
    case False
    obtain j where j: "k = Suc j" using 1(3) by (cases k) auto
    have "0 < j" using 1(2) False j by (cases j) auto
    moreover have "n div 10 < 10 ^ j" using 1(2) by (simp add: j less_mult_imp_div_less)
    ultimately have "length (dec (n div 10)) \<le> j" using 1(1) False by blast
    with False j show ?thesis by (subst dec.simps) simp
  qed
qed

lemma pad_ok:
  assumes "m < 10 ^ n" and "0 < n"
  shows "length (pad n (dec m)) = n" and "dec_value (pad n (dec m)) = m"
  using length_dec [OF assms] by (simp_all add: pad_def)

lemma takeWhile_digits:
  assumes "\<forall>c\<in>set s. is_digit c"
  shows "takeWhile (\<lambda>c. c \<noteq> CHR ''.'') (s @ CHR ''.'' # t) = s" and "takeWhile (\<lambda>c. c \<noteq> CHR ''.'') s = s"
  using assms is_digit_neq by (auto simp: takeWhile_append2 takeWhile_eq_all_conv)

lemma dec_hd: "hd (dec n) \<noteq> CHR ''-''"
  using dec_digits [of n] is_digit_neq by (metis dec_not_empty hd_in_set)

lemma read_int_dec [simp]: "read_int (dec_int i) = i"
  using dec_hd [of "nat i"] by (simp add: read_int_def dec_int_def)

lemma round_even_nonneg: "0 \<le> x \<Longrightarrow> 0 \<le> round_even x"
  using round_even_mono [of 0 x] round_even_of_int [of 0] by simp

lemma read_digits:
  assumes "m' = m mod 10 ^ n" and "0 < n"
  shows "read_fixed (dec (m div 10 ^ n) @ CHR ''.'' # pad n (dec m')) = of_nat m / 10 ^ n"
proof -
  let ?w = "dec (m div 10 ^ n)" and ?f = "pad n (dec m')"
  have f: "length ?f = n" "dec_value ?f = m'" using pad_ok [of m' n] assms by simp_all
  have hd: "hd (?w @ CHR ''.'' # ?f) \<noteq> CHR ''-''" using dec_hd [of "m div 10 ^ n"] by simp
  have "m = m div 10 ^ n * 10 ^ n + m'" by (simp only: assms(1) div_mult_mod_eq)
  then have "(of_nat m :: rat) = of_nat (m div 10 ^ n * 10 ^ n + m')" by (rule arg_cong)
  also have "\<dots> = of_nat (m div 10 ^ n) * 10 ^ n + of_nat m'" by simp
  finally have "(of_nat m :: rat) / 10 ^ n = of_nat (m div 10 ^ n) + of_nat m' / 10 ^ n"
    by (simp add: field_simps)
  then show ?thesis
    using hd f takeWhile_digits(1) [OF dec_digits, of "m div 10 ^ n" ?f]
    by (simp add: read_fixed_def Let_def)
qed

lemma read_whole: "read_fixed (dec m) = of_nat m"
proof -
  have "takeWhile (\<lambda>c. c \<noteq> CHR ''.'') (dec m) = dec m" by (rule takeWhile_digits(2)) (rule dec_digits)
  then show ?thesis
    using dec_hd [of m] by (simp add: read_fixed_def Let_def del: takeWhile_eq_all_conv)
qed

lemma read_negative: "read_fixed (CHR ''-'' # s) = - read_fixed s" if "s = [] \<or> hd s \<noteq> CHR ''-''"
  using that by (auto simp: read_fixed_def Let_def)

lemma read_fixed_text: "read_fixed (fixed_text n x) = of_int (round_even (x * 10 ^ n)) / 10 ^ n"
proof -
  define m where "m = nat (round_even (\<bar>x\<bar> * 10 ^ n))"
  define t where "t = dec (m div 10 ^ n) @ (if n = 0 then '''' else ''.'' @ pad n (dec (m mod 10 ^ n)))"
  have tx: "fixed_text n x = (if x < 0 then ''-'' else '''') @ t"
    by (simp add: fixed_text_def m_def t_def Let_def)
  have t: "read_fixed t = of_nat m / 10 ^ n"
    using read_digits [of "m mod 10 ^ n" m n] read_whole [of m] by (cases "n = 0") (simp_all add: t_def)
  have hd: "hd t \<noteq> CHR ''-''" using dec_hd by (simp add: t_def)
  have "0 \<le> round_even (\<bar>x\<bar> * 10 ^ n)" by (intro round_even_nonneg) simp
  then have m: "(of_nat m :: rat) = of_int (round_even (\<bar>x\<bar> * 10 ^ n))" by (simp add: m_def)
  show ?thesis
  proof (cases "x < 0")
    case True
    then have "round_even (x * 10 ^ n) = - round_even (\<bar>x\<bar> * 10 ^ n)"
      using round_even_minus [of "\<bar>x\<bar> * 10 ^ n"] by simp
    with True tx t m read_negative [of t] hd show ?thesis by simp
  next
    case False
    with tx t m show ?thesis by simp
  qed
qed

lemma fixed_text_error: "\<bar>read_fixed (fixed_text n x) - x\<bar> \<le> 1 / (2 * 10 ^ n)"
proof -
  have "\<bar>of_int (round_even (x * 10 ^ n)) - x * 10 ^ n\<bar> \<le> 1 / 2" by (rule round_even_near)
  then have "\<bar>of_int (round_even (x * 10 ^ n)) - x * 10 ^ n\<bar> / 10 ^ n \<le> 1 / 2 / 10 ^ n"
    by (rule divide_right_mono) simp
  moreover have "of_int (round_even (x * 10 ^ n)) / 10 ^ n - x =
      (of_int (round_even (x * 10 ^ n)) - x * 10 ^ n) / 10 ^ n"
    by (simp add: field_simps)
  ultimately show ?thesis by (simp add: read_fixed_text abs_divide mult.commute)
qed


subsection \<open>Rounding errors of prices\<close>

lemma fl_error: "\<bar>fl x - x\<bar> \<le> 2 powi grid_exp x / 2"
proof (cases "x = 0")
  case False
  define g where "g = (2 powi grid_exp x :: rat)"
  have g: "0 < g" by (simp add: g_def)
  have "\<bar>of_int (round_even (x / g)) - x / g\<bar> \<le> 1 / 2" by (rule round_even_near)
  then have "\<bar>of_int (round_even (x / g)) - x / g\<bar> * g \<le> 1 / 2 * g"
    using g by (intro mult_right_mono) simp_all
  moreover have "of_int (round_even (x / g)) * g - x = (of_int (round_even (x / g)) - x / g) * g"
    using g by (simp add: field_simps)
  then have "\<bar>of_int (round_even (x / g)) * g - x\<bar> = \<bar>of_int (round_even (x / g)) - x / g\<bar> * g"
    using g by (simp add: abs_mult)
  ultimately show ?thesis using False by (simp add: fl_def g_def)
qed simp

lemma grid_exp_small:
  assumes "x \<noteq> 0" and "\<bar>x\<bar> < 2 powi (k + 1)" and "- 1022 \<le> k"
  shows "grid_exp x \<le> k - 52"
proof -
  have "(2 powi rat_exp \<bar>x\<bar> :: rat) < 2 powi (k + 1)"
    using rat_exp_bounds(1) [of "\<bar>x\<bar>"] assms(1,2) by simp
  then have "rat_exp \<bar>x\<bar> < k + 1" using powi2_le_iff [of "k + 1" "rat_exp \<bar>x\<bar>"] by linarith
  then show ?thesis using assms(3) by (simp add: grid_exp_def)
qed

lemma round_even_close:
  assumes "\<bar>x - of_int n\<bar> < 1 / 2"
  shows "round_even x = n"
proof -
  have "\<bar>of_int (round_even x) - x\<bar> \<le> 1 / 2" by (rule round_even_near)
  with assms have "\<bar>of_int (round_even x) - of_int n :: rat\<bar> < 1" by linarith
  then have "of_int \<bar>round_even x - n\<bar> < (1 :: rat)" by simp
  then have "\<bar>round_even x - n\<bar> < 1" by (simp only: of_int_less_1_iff)
  then show ?thesis by simp
qed

text \<open>A price in ten-thousandths of a dollar, divided and printed with two decimals.\<close>

definition price_double :: "int \<Rightarrow> double" where
  "price_double p = fl (fl (of_int p) / 10000)"

lemma price_cents:
  assumes "\<bar>c\<bar> \<le> 2 ^ 46"
  shows "round_even (price_double (c * 100) * 10 ^ 2) = c"
proof (cases "c = 0")
  case True
  then show ?thesis by (simp add: price_double_def round_even_of_int [of 0, simplified])
next
  case False
  define x where "x = (of_int c / 100 :: rat)"
  have "\<bar>c * 100\<bar> \<le> 2 ^ 53" using assms by simp
  then have "fl (of_int (c * 100)) = of_int (c * 100)" by (rule fl_of_int)
  then have px: "price_double (c * 100) = fl x" by (simp add: price_double_def x_def)
  have "(of_int \<bar>c\<bar> :: rat) \<le> of_int (2 ^ 46)" using assms by (simp only: of_int_le_iff)
  then have "\<bar>x\<bar> < 2 powi (40 + 1)" by (simp add: x_def)
  then have "grid_exp x \<le> 40 - 52" using False by (intro grid_exp_small) (simp_all add: x_def)
  then have "(2 powi grid_exp x :: rat) \<le> 2 powi (- 12)" by (simp only: powi2_le_iff)
  moreover have "(2 powi (- 12) :: rat) = 1 / 4096" by (simp add: power_int_minus)
  ultimately have "\<bar>fl x - x\<bar> \<le> 1 / 8192" using fl_error [of x] by linarith
  then have "\<bar>fl x - x\<bar> * 100 \<le> 1 / 8192 * 100" by (rule mult_right_mono) simp
  moreover have "fl x * 100 - of_int c = (fl x - x) * 100" by (simp add: x_def)
  then have "\<bar>fl x * 100 - of_int c\<bar> = \<bar>fl x - x\<bar> * 100" by (simp only: abs_mult abs_numeral)
  ultimately have "\<bar>fl x * 100 - of_int c\<bar> \<le> 1 / 8192 * 100" by simp
  then have "\<bar>fl x * 100 - of_int c\<bar> < 1 / 2" by (rule le_less_trans) simp
  then show ?thesis unfolding px by (intro round_even_close) simp
qed

text \<open>The stream.\<close>

record console =
  shown :: string
  fixed_format :: bool
  digits :: nat

definition console_new :: console where
  "console_new = \<lparr>shown = [], fixed_format = False, digits = 6\<rparr>"

text \<open>
  What one \<open>operator<<\<close> is given. A quotient whose divisor is zero is infinite or no number.
\<close>

datatype quotient = Finite double | Infinite | Not_a_number

datatype item = Str string | Num int | Dbl quotient | Fixed | Precision nat

definition quotient :: "double \<Rightarrow> double \<Rightarrow> quotient" where
  \<comment> \<open>for a dividend that is not negative\<close>
  "quotient a b = (if b \<noteq> 0 then Finite (fl (a / b)) else if a = 0 then Not_a_number else Infinite)"

text \<open>The sign of a NaN is not specified, so its text is not.\<close>

fun put :: "item \<Rightarrow> console \<Rightarrow> console option" where
  "put (Str s) c = Some (c\<lparr>shown := shown c @ s\<rparr>)"
| "put (Num i) c = Some (c\<lparr>shown := shown c @ dec_int i\<rparr>)"
| "put (Dbl (Finite x)) c =
     (if fixed_format c then Some (c\<lparr>shown := shown c @ fixed_text (digits c) x\<rparr>) else None)"
| "put (Dbl Infinite) c = Some (c\<lparr>shown := shown c @ ''inf''\<rparr>)"
| "put (Dbl Not_a_number) c = None"
| "put Fixed c = Some (c\<lparr>fixed_format := True\<rparr>)"
| "put (Precision n) c = Some (c\<lparr>digits := n\<rparr>)"

fun put_all :: "item list \<Rightarrow> console \<Rightarrow> console option" where
  "put_all [] c = Some c"
| "put_all (i # is') c = (case put i c of None \<Rightarrow> None | Some d \<Rightarrow> put_all is' d)"

lemma put_all_append: "put_all (xs @ ys) c = (case put_all xs c of None \<Rightarrow> None | Some d \<Rightarrow> put_all ys d)"
  by (induction xs arbitrary: c) (simp_all split: option.splits)


text \<open>Once the format is fixed, everything but a NaN can be printed.\<close>

lemma put_all_fixed:
  assumes "fixed_format c" and "Dbl Not_a_number \<notin> set xs"
  shows "\<exists>d. put_all xs c = Some d \<and> fixed_format d"
  using assms
proof (induction xs arbitrary: c)
  case (Cons x xs)
  have "\<exists>d. put x c = Some d \<and> fixed_format d"
    using Cons.prems by (cases "(x, c)" rule: put.cases) auto
  with Cons show ?case by auto
qed simp

lemma quotient_number: "a \<noteq> 0 \<Longrightarrow> quotient a b \<noteq> Not_a_number"
  by (simp add: quotient_def)


end
