(* ===== verification/Tsc.thy ===== *)
theory Tsc
  imports Console Latency
begin

text \<open>
  The time stamp counter (\<open>include/latency_tracker.hpp\<close>, \<open>include/timer.hpp\<close>) and how good the
  times are that \<open>Timer\<close> makes of it. The instructions are parameters: each takes a state of the
  processor and returns the registers \<open>EAX\<close> and \<open>EDX\<close> and the state after it.
\<close>

subsection \<open>Reading the counter\<close>

type_synonym 'c instr = "'c \<Rightarrow> (u32 \<times> u32) \<times> 'c"

text \<open>\<open>((uint64_t)hi << 32) | lo\<close>\<close>

definition join_halves :: "u32 \<Rightarrow> u32 \<Rightarrow> u64" where
  "join_halves hi lo = push_bit 32 (ucast hi) OR ucast lo"

definition perf_rdtsc :: "'c instr \<Rightarrow> 'c \<Rightarrow> u64 \<times> 'c" where
  "perf_rdtsc rdtsc c = (let ((lo, hi), c1) = rdtsc c in (join_halves hi lo, c1))"

definition rdtsc_start :: "'c instr \<Rightarrow> 'c \<Rightarrow> u64 \<times> 'c" where
  "rdtsc_start rdtscp c = (let ((lo, hi), c1) = rdtscp c in (join_halves hi lo, c1))"

definition rdtsc_end :: "'c instr \<Rightarrow> ('c \<Rightarrow> 'c) \<Rightarrow> 'c \<Rightarrow> u64 \<times> 'c" where
  "rdtsc_end rdtscp lfence c = (let ((lo, hi), c1) = rdtscp c in (join_halves hi lo, lfence c1))"

definition timer_rdtsc :: "'c instr \<Rightarrow> 'c \<Rightarrow> u64 \<times> 'c" where
  "timer_rdtsc rdtsc c = (let ((lo, hi), c1) = rdtsc c in (join_halves hi lo, c1))"

definition timer_rdtscp :: "'c instr \<Rightarrow> 'c \<Rightarrow> u64 \<times> 'c" where
  "timer_rdtscp rdtscp c = (let ((lo, hi), c1) = rdtscp c in (join_halves hi lo, c1))"

text \<open>
  The pattern of the program: \<open>rdtsc_start\<close>, the code to be measured, \<open>rdtsc_end\<close>, the difference
  in 64 bits. \<open>BM_LatencyMeasurement\<close> measures nothing that way.
\<close>

definition timed :: "'c instr \<Rightarrow> ('c \<Rightarrow> 'c) \<Rightarrow> ('c \<Rightarrow> 'c) \<Rightarrow> 'c \<Rightarrow> u64 \<times> 'c" where
  "timed rdtscp lfence body c =
     (let (start, c1) = rdtsc_start rdtscp c;
          (fin, c2) = rdtsc_end rdtscp lfence (body c1)
      in (fin - start, c2))"

definition bm_latency_measurement :: "'c instr \<Rightarrow> ('c \<Rightarrow> 'c) \<Rightarrow> 'c \<Rightarrow> 'c" where
  "bm_latency_measurement rdtscp lfence c = snd (timed rdtscp lfence (\<lambda>c. c) c)"

text \<open>
  What the manual of the processor says of the instruction: the registers are the two halves of
  a counter, read at a moment between its beginning and its end; the counter never goes back.
\<close>

definition reads_counter :: "('c \<Rightarrow> nat) \<Rightarrow> 'c instr \<Rightarrow> bool" where
  "reads_counter ticks instr \<longleftrightarrow>
     (\<forall>c. \<exists>n. ticks c \<le> n \<and> n \<le> ticks (snd (instr c)) \<and> fst (instr c) = (of_nat n, of_nat (n div 2 ^ 32)))"

lemma join_halves_of_nat: "join_halves (of_nat (n div 2 ^ 32)) (of_nat n) = (of_nat n :: u64)"
proof (rule bit_word_eqI)
  fix i assume "i < LENGTH(64)"
  moreover have "n div 2 ^ 32 = drop_bit 32 n" by (simp only: drop_bit_eq_div)
  ultimately show "bit (join_halves (of_nat (n div 2 ^ 32)) (of_nat n)) i = bit (of_nat n :: u64) i"
    by (auto simp: join_halves_def bit_simps)
qed

lemma join_halves_inj: "join_halves hi lo = join_halves hi' lo' \<longleftrightarrow> hi = hi' \<and> lo = lo'"
proof
  assume eq: "join_halves hi lo = join_halves hi' lo'"
  have no_bit: "\<not> bit l (32 + n)" for l :: u32 and n
    using bit_imp_le_length [of l "32 + n"] by auto
  have "ucast (drop_bit 32 (join_halves h l)) = h" and "ucast (join_halves h l) = l" for h l
    by (auto intro!: bit_word_eqI simp: join_halves_def bit_simps no_bit)
  then show "hi = hi' \<and> lo = lo'" using eq by metis
qed simp

lemma reads_counterE:
  assumes "reads_counter ticks instr"
  obtains n c1 where "ticks c \<le> n" "n \<le> ticks c1" "instr c = ((of_nat n, of_nat (n div 2 ^ 32)), c1)"
proof -
  obtain n where n: "ticks c \<le> n" "n \<le> ticks (snd (instr c))" "fst (instr c) = (of_nat n, of_nat (n div 2 ^ 32))"
    using assms by (auto simp: reads_counter_def)
  then have "instr c = ((of_nat n, of_nat (n div 2 ^ 32)), snd (instr c))" by (cases "instr c") auto
  with n show thesis by (intro that) auto
qed

text \<open>
  A measured difference covers the code between the two readings and nothing outside of them,
  also when the low half or the whole counter wraps around on the way.
\<close>
theorem timed_measures_body:
  assumes "reads_counter ticks rdtscp"
    and "\<And>c. ticks c \<le> ticks (body c)" and "\<And>c. ticks c \<le> ticks (lfence c)"
    and "ticks (snd (timed rdtscp lfence body c)) < ticks c + 2 ^ 64"
  shows "ticks (body (snd (rdtsc_start rdtscp c))) - ticks (snd (rdtsc_start rdtscp c)) \<le>
      unat (fst (timed rdtscp lfence body c)) \<and>
    unat (fst (timed rdtscp lfence body c)) \<le> ticks (snd (timed rdtscp lfence body c)) - ticks c"
proof -
  obtain n c1 where n: "ticks c \<le> n" "n \<le> ticks c1" "rdtscp c = ((of_nat n, of_nat (n div 2 ^ 32)), c1)"
    using reads_counterE [OF assms(1)] .
  obtain m c2 where m: "ticks (body c1) \<le> m" "m \<le> ticks c2"
      "rdtscp (body c1) = ((of_nat m, of_nat (m div 2 ^ 32)), c2)"
    using reads_counterE [OF assms(1)] .
  have timed: "timed rdtscp lfence body c = (of_nat m - of_nat n, lfence c2)"
    by (simp add: timed_def rdtsc_start_def rdtsc_end_def n(3) m(3) join_halves_of_nat [simplified])
  have le: "n \<le> m" using n(2) m(1) assms(2) [of c1] by linarith
  have "m - n < 2 ^ 64" using assms(3) [of c2] assms(4) n(1) m(2) timed by simp
  then have "unat (of_nat m - of_nat n :: u64) = m - n"
    using le by (simp flip: of_nat_diff add: unat_of_nat_small)
  moreover have "ticks (body c1) - ticks c1 \<le> m - n" "m - n \<le> ticks (lfence c2) - ticks c"
    using n(1,2) m(1,2) le assms(3) [of c2] by linarith+
  ultimately show ?thesis using n(3) by (simp add: timed rdtsc_start_def)
qed

text \<open>
  A processor to try it on: its state is the counter, every instruction takes a few ticks, and it
  starts just before the low half of the registers wraps around.
\<close>

definition toy_rdtscp :: "nat instr" where
  "toy_rdtscp n = ((of_nat (n + 20), of_nat ((n + 20) div 2 ^ 32)), n + 30)"

lemma toy_reads_counter: "reads_counter (\<lambda>n. n) toy_rdtscp"
  unfolding reads_counter_def toy_rdtscp_def
  by (intro allI, rule_tac x = "c + 20" in exI) simp

theorem timed_measures_body_witness:
  "unat (fst (timed toy_rdtscp (\<lambda>n. n + 5) (\<lambda>n. n + 100) (2 ^ 32 - 50))) \<in> {100..165}"
proof -
  have fin: "snd (timed toy_rdtscp (\<lambda>n. n + 5) (\<lambda>n. n + 100) (2 ^ 32 - 50)) = 2 ^ 32 + 115"
    by (simp add: timed_def rdtsc_start_def rdtsc_end_def toy_rdtscp_def)
  have start: "snd (rdtsc_start toy_rdtscp (2 ^ 32 - 50)) = 2 ^ 32 - 20"
    by (simp add: rdtsc_start_def toy_rdtscp_def)
  show ?thesis
    using timed_measures_body [OF toy_reads_counter, of "\<lambda>n. n + 100" "\<lambda>n. n + 5" "2 ^ 32 - 50"] fin start
    by simp
qed

subsection \<open>Calibration under Windows\<close>

text \<open>
  The \<open>_WIN32\<close> branch of \<open>calibrate\<close>: a second clock, \<open>counter_start\<close> to \<open>counter_end\<close> at \<open>freq\<close> ticks a
  second, says how long the sleep has been. \<open>None\<close> is a division by zero.
\<close>

definition calibrate_windows :: "i64 \<Rightarrow> i64 \<Rightarrow> i64 \<Rightarrow> u64 \<Rightarrow> u64 \<Rightarrow> timer \<Rightarrow> timer option" where
  "calibrate_windows freq counter_start counter_end tsc_start tsc_end t =
     (if freq = 0 then None
      else
        let elapsed_sec = fl (of_i64 (counter_end - counter_start) / of_i64 freq);
            divisor = fl (elapsed_sec * 10 ^ 6)
        in if divisor = 0 then None
           else Some (t\<lparr>freq_mhz := fl (of_u64 (tsc_end - tsc_start) / divisor)\<rparr>))"

subsection \<open>Relative errors\<close>

text \<open>
  \<open>close k x y\<close>: the positive numbers \<open>x\<close> and \<open>y\<close> are \<open>k\<close> roundings apart, each a factor of at most \<open>g\<close>.
\<close>

definition g :: rat where
  "g = 2 ^ 53 / (2 ^ 53 - 1)"

definition close :: "nat \<Rightarrow> rat \<Rightarrow> rat \<Rightarrow> bool" where
  "close k x y \<longleftrightarrow> 0 < x \<and> 0 < y \<and> y \<le> x * g ^ k \<and> x \<le> y * g ^ k"

lemma g_pos [simp]: "0 < g" and g_ge_1 [simp]: "1 \<le> g"
  by (simp_all add: g_def)

lemma fl_relative:
  assumes "2 powi (- 1022) \<le> x"
  shows "\<bar>fl x - x\<bar> \<le> x / 2 ^ 53"
proof -
  have x: "0 < x" using assms powi2_pos [of "- 1022"] by (rule less_le_trans [rotated])
  have "- 1022 \<le> rat_exp x"
    using rat_exp_less [of x "- 1022"] rat_exp_bounds(2) [OF x] assms powi2_le_iff [of "- 1022" "rat_exp x + 1"]
      less_le_trans le_less_trans powi2_le_iff
    by (metis add_le_cancel_right linorder_not_le order_le_less_trans zless_add1_eq zle_add1_eq_le)
  then have "grid_exp x = rat_exp x - 52" using x by (simp add: grid_exp_def)
  then have "(2 powi grid_exp x / 2 :: rat) = 2 powi rat_exp x / 2 ^ 53" by (simp add: power_int_diff)
  also have "\<dots> \<le> x / 2 ^ 53" using rat_exp_bounds(1) [OF x] by (rule divide_right_mono) simp
  finally show ?thesis using fl_error [of x] by linarith
qed

lemma close_refl: "0 < x \<Longrightarrow> close 0 x x"
  by (simp add: close_def)

lemma close_fl_1: "2 powi (- 1022) \<le> x \<Longrightarrow> close 1 (fl x) x"
proof -
  assume x: "2 powi (- 1022) \<le> x"
  then have pos: "0 < x" using powi2_pos [of "- 1022"] by (rule less_le_trans [rotated])
  have "x - x / 2 ^ 53 \<le> fl x" "fl x \<le> x + x / 2 ^ 53" using fl_relative [OF x] by linarith+
  then have "x * (1 - 1 / 2 ^ 53) \<le> fl x" "fl x \<le> x * (1 + 1 / 2 ^ 53)" by (simp_all add: algebra_simps)
  moreover have "x * (1 + 1 / 2 ^ 53) \<le> x * g" using pos by (intro mult_left_mono) (simp_all add: g_def)
  moreover have "x * (1 - 1 / 2 ^ 53) * g = x" by (simp add: g_def)
  moreover have "0 < x * (1 - 1 / 2 ^ 53)" using pos by simp
  ultimately have "0 < fl x" "x * (1 - 1 / 2 ^ 53) * g \<le> fl x * g" "fl x \<le> x * g" "x * (1 - 1 / 2 ^ 53) * g = x"
    by (blast intro: order_trans less_le_trans mult_right_mono less_imp_le [OF g_pos])+
  with pos show ?thesis by (simp only: close_def power_one_right)
qed

lemma close_trans:
  assumes "close j x y" and "close k y z"
  shows "close (j + k) x z"
proof -
  have "z \<le> y * g ^ k" "y * g ^ k \<le> x * g ^ j * g ^ k" "x \<le> y * g ^ j" "y * g ^ j \<le> z * g ^ k * g ^ j"
    using assms by (auto simp: close_def intro: mult_right_mono)
  then have "z \<le> x * g ^ j * g ^ k" "x \<le> z * g ^ k * g ^ j" by (blast intro: order_trans)+
  then show ?thesis using assms by (simp add: close_def power_add mult_ac)
qed

lemma close_scale: "close k x y \<Longrightarrow> 0 < c \<Longrightarrow> close k (x * c) (y * c)"
  by (auto simp: close_def mult.assoc mult.commute [of c] simp flip: mult.assoc intro: mult_right_mono)

lemma close_inverse: "close k x y \<Longrightarrow> close k (1 / x) (1 / y)"
  by (auto simp: close_def field_simps)

lemma close_divide:
  assumes "close j x y" and "close k u v"
  shows "close (j + k) (x / u) (y / v)"
proof -
  have "0 < u" "0 < y" using assms by (simp_all add: close_def)
  then have "close j (x * (1 / u)) (y * (1 / u))" "close k (1 / u * y) (1 / v * y)"
    using close_scale [OF assms(1), of "1 / u"] close_scale [OF close_inverse [OF assms(2)]] by simp_all
  then have "close j (x / u) (y / u)" "close k (y / u) (y / v)" by simp_all
  then show ?thesis by (rule close_trans)
qed

text \<open>One more rounding, of a number that is not tiny.\<close>

lemma close_half:
  assumes "close k x y" and "k \<le> 10"
  shows "y / 2 \<le> x"
proof -
  have "g ^ k \<le> g ^ 10" using assms(2) by (intro power_increasing) simp_all
  also have "\<dots> \<le> 2" by (simp add: g_def power_divide)
  finally have "x * g ^ k \<le> x * 2" using assms(1) by (intro mult_left_mono) (simp_all add: close_def)
  moreover have "y \<le> x * g ^ k" using assms(1) by (simp add: close_def)
  ultimately have "y \<le> x * 2" by (rule order_trans [rotated])
  then show ?thesis by simp
qed

lemma close_fl:
  assumes "close k x y" and "k \<le> 10" and "1 / 2 ^ 200 \<le> y"
  shows "close (Suc k) (fl x) y"
proof -
  have "(2 powi (- 1022) :: rat) \<le> 2 powi (- 201)" by (simp only: powi2_le_iff)
  also have "\<dots> = 1 / 2 ^ 200 / 2" by (simp add: power_int_minus)
  also have "\<dots> \<le> x" using close_half [OF assms(1,2)] divide_right_mono [OF assms(3), of 2] by simp
  finally have "close 1 (fl x) x" by (rule close_fl_1)
  from close_trans [OF this assms(1)] show ?thesis by simp
qed

lemma close_error:
  assumes "close k x y" and "k \<le> 6"
  shows "\<bar>x - y\<bar> \<le> 7 / 2 ^ 53 * y"
proof -
  have xy: "0 < x" "0 < y" "y \<le> x * g ^ k" "x \<le> y * g ^ k" using assms(1) by (simp_all add: close_def)
  have g6: "g ^ k \<le> g ^ 6" using assms(2) by (intro power_increasing) simp_all
  have "g ^ 6 \<le> 1 + 7 / 2 ^ 53" by (simp add: g_def power_divide)
  then have "y * g ^ k \<le> y * (1 + 7 / 2 ^ 53)" using xy(2) g6 by (intro mult_left_mono order_trans [OF g6]) simp_all
  with xy(4) have "x \<le> y * (1 + 7 / 2 ^ 53)" by (rule order_trans)
  moreover have "y * (1 - 7 / 2 ^ 53) \<le> x"
  proof -
    have "y * (1 - 7 / 2 ^ 53) \<le> x * g ^ k * (1 - 7 / 2 ^ 53)" using xy(3) by (rule mult_right_mono) simp
    also have "\<dots> \<le> x * g ^ 6 * (1 - 7 / 2 ^ 53)" using g6 xy(1) by (intro mult_right_mono mult_left_mono) simp_all
    also have "\<dots> = x * (g ^ 6 * (1 - 7 / 2 ^ 53))" by simp
    also have "\<dots> \<le> x * 1" using xy(1) by (intro mult_left_mono) (simp_all add: g_def power_divide)
    finally show ?thesis by simp
  qed
  moreover have "y * (1 + 7 / 2 ^ 53) = y + 7 / 2 ^ 53 * y" "y * (1 - 7 / 2 ^ 53) = y - 7 / 2 ^ 53 * y"
    by (simp_all add: field_simps)
  ultimately have "x - y \<le> 7 / 2 ^ 53 * y" "- (x - y) \<le> 7 / 2 ^ 53 * y" by simp_all
  then show ?thesis by (rule abs_leI)
qed

lemma close_word:
  "w \<noteq> 0 \<Longrightarrow> close 1 (of_u64 w) (of_int (uint w)) \<and> 1 \<le> (of_int (uint w) :: rat)"
proof -
  assume "w \<noteq> 0"
  then have "1 \<le> uint w" using uint_ge_0 [of w] by (metis int_one_le_iff_zero_less linorder_neqE_linordered_idom not_le uint_0_iff)
  then have "(1 :: rat) \<le> of_int (uint w)" by (simp only: of_int_1_le_iff)
  then show ?thesis
    using close_fl [OF close_refl, of "of_int (uint w)"] by (simp add: of_u64_def)
qed

subsection \<open>How accurate the timer is\<close>

definition cycles_of :: "u64 \<Rightarrow> rat" where
  "cycles_of w = of_int (uint w)"

lemma cycles_upper: "cycles_of w \<le> 2 ^ 64"
proof -
  have "uint w \<le> 2 ^ 64" using uint_bounded [of w] by simp
  then have "cycles_of w \<le> of_int (2 ^ 64)" unfolding cycles_of_def by (simp only: of_int_le_iff)
  then show ?thesis by simp
qed

lemma divide_lower:
  assumes "1 \<le> x" and "0 < y" and "y \<le> (2 :: rat) ^ n" and "n \<le> 200"
  shows "1 / 2 ^ 200 \<le> x / y"
proof -
  have "(2 :: rat) ^ n \<le> 2 ^ 200" using assms(4) by (intro power_increasing) simp_all
  then have "y \<le> 2 ^ 200" using assms(3) by linarith
  then show ?thesis using assms(1,2) by (intro frac_le) simp_all
qed

lemma calibrate_close:
  assumes "tsc_start \<noteq> tsc_end"
  shows "close 2 (freq_mhz (calibrate tsc_start tsc_end t)) (cycles_of (tsc_end - tsc_start) / 100000)"
proof -
  have d: "close 1 (of_u64 (tsc_end - tsc_start)) (cycles_of (tsc_end - tsc_start))"
      "1 \<le> cycles_of (tsc_end - tsc_start)"
    using close_word [of "tsc_end - tsc_start"] assms by (simp_all add: cycles_of_def)
  have "1 / 2 ^ 200 \<le> cycles_of (tsc_end - tsc_start) / 100000"
    using d(2) by (intro divide_lower [where n = 17]) simp_all
  with close_fl [OF close_scale [OF d(1), of "1 / 100000"]] show ?thesis
    by (simp add: calibrate_def numeral_2_eq_2)
qed

text \<open>
  The Windows branch measures the sleep, and finds the true frequency to within seven
  roundings however long it was.
\<close>

lemma close_signed: "0 < sint w \<Longrightarrow> close 1 (of_i64 w) (of_int (sint w)) \<and> 1 \<le> (of_int (sint w) :: rat)"
proof -
  assume "0 < sint w"
  then have "1 \<le> sint w" by simp
  then have "(1 :: rat) \<le> of_int (sint w)" by (simp only: of_int_1_le_iff)
  then show ?thesis
    using close_fl [OF close_refl, of "of_int (sint w)"] by (simp add: of_i64_def)
qed

lemma signed_upper: "(of_int (sint (w :: i64)) :: rat) \<le> 2 ^ 64"
proof -
  have "sint w \<le> 2 ^ 64" using sint_lt [of w] by simp
  then have "(of_int (sint w) :: rat) \<le> of_int (2 ^ 64)" by (simp only: of_int_le_iff)
  then show ?thesis by simp
qed

lemma calibrate_windows_accuracy:
  assumes "0 < sint freq" and "0 < sint (counter_end - counter_start)" and "tsc_start \<noteq> tsc_end"
    and "true_mhz = cycles_of (tsc_end - tsc_start) / (of_int (sint (counter_end - counter_start)) / of_int (sint freq) * 10 ^ 6)"
  shows "\<exists>t'. calibrate_windows freq counter_start counter_end tsc_start tsc_end t = Some t' \<and>
    \<bar>freq_mhz t' - true_mhz\<bar> \<le> 7 / 2 ^ 53 * true_mhz"
proof -
  let ?n = "of_int (sint (counter_end - counter_start)) :: rat" and ?q = "of_int (sint freq) :: rat"
    and ?d = "cycles_of (tsc_end - tsc_start)"
  define elapsed where "elapsed = fl (of_i64 (counter_end - counter_start) / of_i64 freq)"
  define divisor where "divisor = fl (elapsed * 10 ^ 6)"
  note n = close_signed [OF assms(2)] and q = close_signed [OF assms(1)]
  have d: "close 1 (of_u64 (tsc_end - tsc_start)) ?d" "1 \<le> ?d"
    using close_word [of "tsc_end - tsc_start"] assms(3) by (simp_all add: cycles_of_def)
  have low: "1 / 2 ^ 200 \<le> ?n / ?q" using n q signed_upper by (intro divide_lower [where n = 64]) simp_all
  have "close 3 elapsed (?n / ?q)"
    using close_fl [OF close_divide [OF conjunct1 [OF n] conjunct1 [OF q]] _ low]
    by (simp add: elapsed_def eval_nat_numeral)
  from close_scale [OF this, of "10 ^ 6"]
  have div: "close 4 divisor (?n / ?q * 10 ^ 6)" using close_fl low by (fastforce simp: divisor_def)
  have "?n / ?q \<le> ?n / 1" using n q by (intro frac_le) simp_all
  then have "?n / ?q \<le> 2 ^ 64" using signed_upper [of "counter_end - counter_start"] by simp
  then have "?n / ?q * 10 ^ 6 \<le> 2 ^ 64 * 10 ^ 6" by (rule mult_right_mono) simp
  then have "?n / ?q * 10 ^ 6 \<le> 2 ^ 90" by (rule order_trans) simp
  then have "1 / 2 ^ 200 \<le> ?d / (?n / ?q * 10 ^ 6)" using d(2) n q by (intro divide_lower [where n = 90]) simp_all
  from close_fl [OF close_divide [OF d(1) div] _ this]
  have "close 6 (fl (of_u64 (tsc_end - tsc_start) / divisor)) true_mhz"
    unfolding assms(4) by (simp add: eval_nat_numeral)
  then have "\<bar>fl (of_u64 (tsc_end - tsc_start) / divisor) - true_mhz\<bar> \<le> 7 / 2 ^ 53 * true_mhz"
    by (rule close_error) simp
  moreover have "divisor \<noteq> 0" using div by (simp add: close_def)
  moreover have "freq \<noteq> 0" using assms(1) by auto
  ultimately show ?thesis by (simp add: calibrate_windows_def Let_def elapsed_def divisor_def)
qed

text \<open>
  C15. After a calibration over a sleep that lasted \<open>us\<close> microseconds, a time of \<open>cycles\<close> is reported
  as its true length times \<open>100000 / us\<close>, to within seven roundings: exactly if the sleep was of
  100 ms, too short by the part that the sleep was too long.
\<close>
theorem timer_accuracy:
  assumes "tsc_start \<noteq> tsc_end" and "0 < us" and "cycles \<noteq> 0"
    and "true_ns = cycles_of cycles / (cycles_of (tsc_end - tsc_start) / us) * 1000"
  shows "\<exists>ns. timer_cycles_to_ns cycles (calibrate tsc_start tsc_end t) = Some ns \<and>
    \<bar>ns - true_ns * (100000 / us)\<bar> \<le> 7 / 2 ^ 53 * (true_ns * (100000 / us))"
proof -
  let ?f = "freq_mhz (calibrate tsc_start tsc_end t)" and ?d = "cycles_of (tsc_end - tsc_start)"
  have c: "close 1 (of_u64 cycles) (cycles_of cycles)" "1 \<le> cycles_of cycles"
    using close_word [OF assms(3)] by (simp_all add: cycles_of_def)
  have d: "1 \<le> ?d" "?d \<le> 2 ^ 64" using close_word [of "tsc_end - tsc_start"] assms(1) cycles_upper
    by (simp_all add: cycles_of_def)
  note f = calibrate_close [OF assms(1), of t]
  have low: "1 / 2 ^ 200 \<le> cycles_of cycles / (?d / 100000)" using c(2) d by (intro divide_lower [where n = 64]) simp_all
  have "close 4 (fl (of_u64 cycles / ?f)) (cycles_of cycles / (?d / 100000))"
    using close_fl [OF close_divide [OF c(1) f] _ low] by (simp add: eval_nat_numeral)
  from close_scale [OF this, of 1000]
  have "close 5 (fl (fl (of_u64 cycles / ?f) * 1000)) (cycles_of cycles / (?d / 100000) * 1000)"
    using close_fl low by fastforce
  moreover have "true_ns * (100000 / us) = cycles_of cycles / (?d / 100000) * 1000"
    using assms(2) by (simp add: assms(4))
  ultimately have "\<bar>fl (fl (of_u64 cycles / ?f) * 1000) - true_ns * (100000 / us)\<bar> \<le>
      7 / 2 ^ 53 * (true_ns * (100000 / us))"
    using close_error [of 5] by (simp only:)
  moreover have "?f \<noteq> 0" using f by (simp add: close_def)
  ultimately show ?thesis by (simp add: timer_cycles_to_ns_def)
qed

text \<open>Three thousand cycles at 3 GHz, after a sleep of 100 ms.\<close>

theorem timer_accuracy_witness:
  "\<exists>ns. timer_cycles_to_ns 3000 (calibrate 0 300000000 timer_new) = Some ns \<and> \<bar>ns - 1000\<bar> \<le> 7 / 2 ^ 53 * 1000"
  using timer_accuracy [of 0 300000000 100000 3000 1000 timer_new] by (simp add: cycles_of_def)

end
