(* ===== verification/Bench_Report.thy ===== *)
theory Bench_Report
  imports Console Bench Latency Pipeline "HOL-Library.Monad_Syntax"
begin

text \<open>
  What \<open>src/benchmark.cpp\<close> and \<open>benchmarks/full_pipeline_benchmark.cpp\<close> print. Each report is the
  list of what is given to \<open>std::cout\<close>, in order; the durations measured are arguments. \<open>None\<close> is a
  percentile whose index is an undefined conversion. \<open>std::endl\<close> is a newline.
\<close>

definition nl :: string where
  "nl = [CHR 0x0A]"

text \<open>The Greek letter mu, two bytes of UTF-8.\<close>

definition mu :: string where
  "mu = [CHR 0xCE, CHR 0xBC]"

subsection \<open>The benchmark program\<close>

text \<open>
  The end of \<open>benchmark_queue\<close> and of \<open>benchmark_memory_pool\<close>: two operations per iteration, in a
  \<open>duration\<close> of nanoseconds.
\<close>

definition rate_lines :: "nat \<Rightarrow> i64 \<Rightarrow> item list" where
  "rate_lines iterations duration =
     (let ops_per_sec = quotient (of_nat iterations * 2) (fl (of_i64 duration / 10 ^ 9));
          latency_ns = quotient (of_i64 duration) (of_nat iterations * 2)
      in [Str ''Throughput: '', Fixed, Precision 0, Dbl ops_per_sec, Str ('' ops/sec'' @ nl),
          Str ''Latency: '', Fixed, Precision 2, Dbl latency_ns, Str ('' ns/op'' @ nl)])"


definition queue_report :: "i64 \<Rightarrow> item list" where
  "queue_report duration =
     [Str (nl @ ''=== Lock-Free SPSC Queue Benchmark ==='' @ nl),
      Str ''Operations: '', Num (1000000 * 2), Str nl] @ rate_lines 1000000 duration"

definition pool_report :: "i64 \<Rightarrow> item list" where
  "pool_report duration =
     [Str (nl @ ''=== Memory Pool Benchmark ==='' @ nl),
      Str ''Allocations: '', Num 1000000, Str nl] @ rate_lines 1000000 duration"

text \<open>The lines with the percentiles of a \<open>LatencyStats\<close>.\<close>

definition pct_line :: "string \<Rightarrow> double \<Rightarrow> lat_stats \<Rightarrow> item list option" where
  "pct_line name p s = do { w \<leftarrow> ls_percentile p s; Some [Str name, Num (uint w), Str ('' ns'' @ nl)] }"

definition pct_lines :: "lat_stats \<Rightarrow> item list option" where
  "pct_lines s = do {
     a \<leftarrow> pct_line ''p50: '' (fl (50 / 100)) s;
     b \<leftarrow> pct_line ''p95: '' (fl (95 / 100)) s;
     c \<leftarrow> pct_line ''p99: '' (fl (99 / 100)) s;
     d \<leftarrow> pct_line ''p99.9: '' (fl (999 / 1000)) s;
     Some (a @ b @ c @ d) }"

definition parsing_report :: "lat_stats \<Rightarrow> item list option" where
  "parsing_report stats = do {
     ps \<leftarrow> pct_lines stats;
     Some ([Str (nl @ ''=== Message Parsing Benchmark ==='' @ nl),
            Str ''Messages parsed: '', Num 100000, Str nl,
            Str ''Average latency: '', Fixed, Precision 2, Dbl (Finite (ls_average stats)), Str ('' ns'' @ nl)] @ ps @
           [Str ''Throughput: '', Fixed, Precision 0, Dbl (quotient (10 ^ 9) (ls_average stats)),
            Str ('' msgs/sec'' @ nl)]) }"

definition order_book_report :: "lat_stats \<Rightarrow> item list option" where
  "order_book_report stats = do {
     ps \<leftarrow> pct_lines stats;
     Some ([Str (nl @ ''=== Order Book Benchmark ==='' @ nl),
            Str ''Operations: '', Num 100000, Str nl,
            Str ''Average latency: '', Fixed, Precision 2, Dbl (Finite (ls_average stats)), Str ('' ns'' @ nl)] @ ps @
           [Str ''Max latency: '', Num (uint (ls_max stats)), Str ('' ns'' @ nl),
            Str ''Throughput: '', Fixed, Precision 0, Dbl (quotient (10 ^ 9) (ls_average stats)),
            Str ('' ops/sec'' @ nl)]) }"

text \<open>Here the total is in microseconds.\<close>

definition end_to_end_report :: "i64 \<Rightarrow> lat_stats \<Rightarrow> item list option" where
  "end_to_end_report total_duration stats = do {
     ps \<leftarrow> pct_lines stats;
     Some ([Str (nl @ ''=== End-to-End Pipeline Benchmark ==='' @ nl),
            Str ''Messages processed: '', Num 100000, Str nl,
            Str ''Total time: '', Fixed, Precision 2, Dbl (Finite (fl (of_i64 total_duration / 1000))),
            Str ('' ms'' @ nl),
            Str ''Average latency: '', Fixed, Precision 2, Dbl (Finite (ls_average stats)), Str '' ns ('',
            Dbl (Finite (fl (ls_average stats / 1000))), Str ('' '' @ mu @ ''s)'' @ nl)] @ ps @
           [Str ''Throughput: '', Fixed, Precision 0,
            Dbl (quotient (fl (100000 * 10 ^ 6)) (of_i64 total_duration)), Str ('' msgs/sec'' @ nl)]) }"

text \<open>
  The statistics of a benchmark, from the latencies it records. A run of the parsing benchmark
  records its duration divided by the number of messages, both as unsigned integers.
\<close>

definition stats_of :: "u64 list \<Rightarrow> lat_stats" where
  "stats_of ls = fold ls_record ls ls_new"

definition parse_latency :: "i64 \<Rightarrow> u64" where
  "parse_latency duration = duration div 100000"

definition parsing_stats :: "i64 list \<Rightarrow> lat_stats" where
  "parsing_stats durations = stats_of (map parse_latency durations)"

text \<open>
  The output of \<open>main\<close> once its five benchmarks have ended, which print in turn. What they
  measure are arguments: the durations of the queue and the pool benchmark and of the runs of
  the parsing benchmark, and the latencies of the order book and the end-to-end benchmark.
\<close>

definition benchmark_output ::
  "i64 \<Rightarrow> i64 \<Rightarrow> i64 list \<Rightarrow> u64 list \<Rightarrow> i64 \<Rightarrow> u64 list \<Rightarrow> item list option" where
  "benchmark_output queue_ns pool_ns parse_ns book_ls total_us e2e_ls = do {
     p \<leftarrow> parsing_report (parsing_stats parse_ns);
     b \<leftarrow> order_book_report (stats_of book_ls);
     e \<leftarrow> end_to_end_report total_us (stats_of e2e_ls);
     Some ([Str (''Market Data Feed Handler - Performance Benchmarks'' @ nl),
            Str (replicate 50 (CHR ''='') @ nl)] @
           queue_report queue_ns @ pool_report pool_ns @ p @ b @ e @
           [Str (nl @ ''=== Summary ==='' @ nl),
            Str (''All benchmarks demonstrate sub-10'' @ mu @ ''s latency for core operations'' @ nl),
            Str (''System capable of processing 100K+ messages/second'' @ nl)]) }"

text \<open>\<open>main\<close> itself: it only gets that far if its first benchmark ends.\<close>

definition benchmark_main ::
  "i64 \<Rightarrow> i64 \<Rightarrow> i64 list \<Rightarrow> u64 list \<Rightarrow> i64 \<Rightarrow> u64 list \<Rightarrow> item list option" where
  "benchmark_main queue_ns pool_ns parse_ns book_ls total_us e2e_ls = do {
     popped \<leftarrow> benchmark_queue 1000000 65536;
     benchmark_output queue_ns pool_ns parse_ns book_ls total_us e2e_ls }"

lemma benchmark_main_hangs: "benchmark_main queue_ns pool_ns parse_ns book_ls total_us e2e_ls = None"
  using benchmark_queue_spins [of 16 1000000] by (simp add: benchmark_main_def)

subsection \<open>The full pipeline program\<close>

text \<open>What is printed before and after the measurement, and when the file cannot be opened.\<close>

definition pipeline_opening :: "nat \<Rightarrow> nat \<Rightarrow> timer \<Rightarrow> item list" where
  "pipeline_opening loaded file_size t =
     [Str ''Loaded '', Num (int loaded), Str '' messages ('', Num (int file_size), Str ('' bytes)'' @ nl),
      Str (''Calibrating CPU frequency...'' @ nl),
      Str ''CPU frequency: '', Fixed, Precision 2, Dbl (Finite (get_freq_mhz t)), Str ('' MHz'' @ nl),
      Str (''Warmup...'' @ nl), Str (''Running benchmark...'' @ nl)]"

definition one_decimal :: "string \<Rightarrow> double \<Rightarrow> item list" where
  "one_decimal name x = [Str name, Fixed, Precision 1, Dbl (Finite x), Str ('' ns'' @ nl)]"

definition pipeline_results :: "double \<Rightarrow> pipeline_report \<Rightarrow> item list option" where
  "pipeline_results total_time_ns r = do {
     let total_time_sec = fl (total_time_ns / 10 ^ 9);
     let throughput = quotient (of_u64 (of_nat (pr_loaded r))) total_time_sec;
     q50 \<leftarrow> pr_p50 r; q90 \<leftarrow> pr_p90 r; q99 \<leftarrow> pr_p99 r; q999 \<leftarrow> pr_p999 r;
     Some ([Str nl, Str (''=== BENCHMARK RESULTS ==='' @ nl), Str nl,
            Str ''Messages parsed: '', Num (int (pr_loaded r)), Str nl,
            Str ''Total time: '', Fixed, Precision 3, Dbl (Finite (fl (total_time_sec * 1000))), Str ('' ms'' @ nl),
            Str ''Throughput: '', Fixed, Precision 0, Dbl throughput, Str ('' msgs/sec'' @ nl), Str nl,
            Str (''Latency (nanoseconds):'' @ nl)] @
           one_decimal ''  Min:  '' (pr_min r) @ one_decimal ''  Mean: '' (pr_mean r) @
           one_decimal ''  P50:  '' q50 @ one_decimal ''  P90:  '' q90 @ one_decimal ''  P99:  '' q99 @
           one_decimal ''  P99.9:'' q999 @ one_decimal ''  Max:  '' (pr_max r)) }"

text \<open>
  The whole program, on the file \<open>data/sample_itch.bin\<close> if it opens: the exit code, the output
  and the line on \<open>std::cerr\<close>. \<open>whole\<close> is the time stamp counter around the measured loop.
\<close>

definition full_pipeline_main ::
  "u8 list option \<Rightarrow> u64 \<Rightarrow> u64 \<Rightarrow> (nat \<Rightarrow> u64 \<times> u64) \<Rightarrow> u64 \<times> u64 \<Rightarrow> md_order \<Rightarrow>
   (int \<times> item list \<times> string) option" where
  "full_pipeline_main data tsc_start tsc_end clock whole uninit = do {
     r \<leftarrow> full_pipeline data tsc_start tsc_end clock uninit;
     (case r of
        Inl code \<Rightarrow> Some (code, [], ''Failed to open data/sample_itch.bin'' @ nl)
      | Inr rep \<Rightarrow> do {
          let t = calibrate tsc_start tsc_end timer_new;
          ns \<leftarrow> timer_cycles_to_ns (snd whole - fst whole) t;
          out \<leftarrow> pipeline_results ns rep;
          Some (0, pipeline_opening (pr_loaded rep) (length (the data)) t @ out, []) }) }"


subsection \<open>The report is always printable\<close>

lemma ls_percentile_defined:
  assumes "0 \<le> p" and "p \<le> 1" and "length (ls_samples s) \<le> 2 ^ 53"
  shows "\<exists>w. ls_percentile p s = Some w"
  using ls_percentile_rank [of s p] assms by (cases "ls_samples s = []") (auto simp: ls_percentile_def)

lemma pct_lines_defined:
  assumes "length (ls_samples s) \<le> 2 ^ 53"
  shows "\<exists>ls. pct_lines s = Some ls \<and> Dbl Not_a_number \<notin> set ls"
proof -
  have p: "0 \<le> fl x \<and> fl x \<le> 1" if "0 \<le> x" "x \<le> 1" for x
    using fl_nonneg [of x] fl_mono [of x 1] fl_of_int [of 1] that by simp
  have "\<exists>w. ls_percentile (fl (50 / 100)) s = Some w" by (rule ls_percentile_defined) (use assms p in auto)
  moreover have "\<exists>w. ls_percentile (fl (95 / 100)) s = Some w" by (rule ls_percentile_defined) (use assms p in auto)
  moreover have "\<exists>w. ls_percentile (fl (99 / 100)) s = Some w" by (rule ls_percentile_defined) (use assms p in auto)
  moreover have "\<exists>w. ls_percentile (fl (999 / 1000)) s = Some w" by (rule ls_percentile_defined) (use assms p in auto)
  ultimately show ?thesis by (auto simp: pct_lines_def pct_line_def)
qed

lemma stats_samples: "ls_samples (stats_of ls) = ls"
proof -
  have "ls_samples (fold ls_record ls s) = ls_samples s @ ls" for s
    by (induction ls arbitrary: s) (simp_all add: ls_record_def)
  then show ?thesis by (simp add: stats_of_def ls_new_def)
qed

text \<open>
  Were its benchmarks to end, the program would print its whole report whatever it measures; a duration or an average of
  zero shows as \<open>inf\<close>.
\<close>

lemma benchmark_report_printed:
  assumes "length ls1 \<le> 2 ^ 53" and "length ls2 \<le> 2 ^ 53" and "length ls3 \<le> 2 ^ 53"
  shows "\<exists>out c. benchmark_output d1 d2 ls1 ls2 d3 ls3 = Some out \<and> put_all out console_new = Some c"
proof -
  have "fl (100000 * 10 ^ 6) \<noteq> 0" using fl_of_int [of "10 ^ 11"] by simp
  note nums = quotient_number [OF this] quotient_number [of "10 ^ 9"]
  obtain a b e where abe: "parsing_report (parsing_stats ls1) = Some a" "order_book_report (stats_of ls2) = Some b"
      "end_to_end_report d3 (stats_of ls3) = Some e" "Dbl Not_a_number \<notin> set a \<union> set b \<union> set e"
    using pct_lines_defined [of "parsing_stats ls1"] pct_lines_defined [of "stats_of ls2"]
      pct_lines_defined [of "stats_of ls3"] assms nums [symmetric]
    by (auto simp: stats_samples parsing_stats_def parsing_report_def order_book_report_def end_to_end_report_def)
  let ?head = "[Str (''Market Data Feed Handler - Performance Benchmarks'' @ nl), Str (replicate 50 (CHR ''='') @ nl),
      Str (nl @ ''=== Lock-Free SPSC Queue Benchmark ==='' @ nl),
      Str ''Operations: '', Num (1000000 * 2), Str nl, Str ''Throughput: '', Fixed]"
  obtain rest where out: "benchmark_output d1 d2 ls1 ls2 d3 ls3 = Some (?head @ rest)" "Dbl Not_a_number \<notin> set rest"
    using abe quotient_number [of 2000000 "fl (of_i64 d1 / 10 ^ 9)", symmetric]
      quotient_number [of 2000000 "fl (of_i64 d2 / 10 ^ 9)", symmetric]
    by (auto simp: benchmark_output_def queue_report_def pool_report_def rate_lines_def Let_def quotient_def)
  obtain c where "put_all ?head console_new = Some c" "fixed_format c"
    by (simp add: console_new_def)
  with out put_all_fixed show ?thesis by (auto simp: put_all_append)
qed

text \<open>
  Parse runs of less than a nanosecond a message average to zero, and their throughput is
  printed as infinite.
\<close>

lemma fast_parsing_is_inf:
  assumes "\<forall>d\<in>set durations. d < 100000"
  shows "quotient (10 ^ 9) (ls_average (parsing_stats durations)) = Infinite"
proof -
  have zero: "ls_sum (fold ls_record (map parse_latency ds) s) = ls_sum s" if "\<forall>d\<in>set ds. d < 100000" for ds s
    using that by (induction ds arbitrary: s) (simp_all add: ls_record_def parse_latency_def div_word_less)
  have "ls_sum (parsing_stats durations) = 0"
    using zero [OF assms] by (simp add: parsing_stats_def stats_of_def ls_new_def)
  then show ?thesis by (simp add: ls_average_def quotient_def of_u64_def)
qed

lemma zero_duration_is_inf:
  "put_all (rate_lines 1000000 0) c =
     Some (c\<lparr>shown := shown c @ ''Throughput: '' @ ''inf'' @ '' ops/sec'' @ nl @ ''Latency: '' @ ''0.00'' @ '' ns/op'' @ nl,
            fixed_format := True, digits := 2\<rparr>)"
proof -
  have "fixed_text 2 0 = ''0.00''" by (simp add: fixed_text_def Let_def round_even_of_int [of 0, simplified] dec.simps pad_def digit_table)
  then show ?thesis by (simp add: rate_lines_def Let_def quotient_def of_i64_def)
qed

end
