(* ===== verification/Demo_Report.thy ===== *)
theory Demo_Report
  imports Bench_Report Demo Demo_Itch
begin

text \<open>
  What \<open>src/main.cpp\<close> prints: the banner and the usage text, the trading signals, the progress lines and the
  report of \<open>demo_complete_system\<close>, all of \<open>demo_itch_processing\<close>, and the two lines of
  \<open>generate_sample_data\<close>.
\<close>

subsection \<open>The complete demo\<close>

text \<open>The callback of the strategy; \<open>n\<close> is the number of signals before this one.\<close>

definition signal_line :: "nat \<Rightarrow> order_signal \<Rightarrow> item list" where
  "signal_line n sg =
     [Str ''[SIGNAL #'', Num (int n + 1), Str ''] '', Str (sg_symbol sg), Str '' '',
      Str (if sg_buy sg then ''BUY'' else ''SELL''), Str '' '', Num (uint (sg_size sg)), Str '' @ $'',
      Fixed, Precision 2, Dbl (Finite (sg_price sg)), Str nl]"

definition progress_line :: "nat \<Rightarrow> item list" where
  "progress_line i =
     (if (i + 1) mod 10000 = 0 then
        [Str ''  Processed: '', Num (int (i + 1)), Str '' / '', Num 50000, Str '' ('', Fixed, Precision 1,
         Dbl (Finite (fl (fl (100 * of_nat (i + 1)) / 50000))), Str (''%)'' @ nl)]
      else [])"

text \<open>The loop of the demo again, with what it prints.\<close>

definition new_signals :: "demo \<Rightarrow> demo \<Rightarrow> item list" where
  "new_signals s s' =
     concat (map (\<lambda>(n, sg). signal_line n sg)
       (enumerate (length (d_signals s)) (drop (length (d_signals s)) (d_signals s'))))"

fun demo_shown :: "(nat \<Rightarrow> bool \<times> bool) \<Rightarrow> nat \<Rightarrow> draw list \<Rightarrow> demo \<Rightarrow> (item list \<times> demo) option" where
  "demo_shown env i [] s = Some ([], s)"
| "demo_shown env i (d # ds) s =
     (if \<not> dr_running d then Some ([], s)
      else case demo_step env i d s of
             None \<Rightarrow> None
           | Some s1 \<Rightarrow>
               map_option (\<lambda>(out, s2). (new_signals s s1 @ progress_line i @ out, s2))
                 (demo_shown env (i + 1) ds s1))"

text \<open>A block of the report; the format settings of the lines before stay in force.\<close>

definition latency_lines :: "item list \<Rightarrow> string \<Rightarrow> latency_report \<Rightarrow> item list option" where
  "latency_lines settings unit r = do {
     avg \<leftarrow> rp_average r; q50 \<leftarrow> rp_p50 r; q95 \<leftarrow> rp_p95 r; q99 \<leftarrow> rp_p99 r; q999 \<leftarrow> rp_p999 r;
     Some ([Str ''  Average: ''] @ settings @ [Dbl (Finite avg), Str unit] @
           [Str ''  p50:     '', Dbl (Finite q50), Str unit, Str ''  p95:     '', Dbl (Finite q95), Str unit,
            Str ''  p99:     '', Dbl (Finite q99), Str unit, Str ''  p99.9:   '', Dbl (Finite q999), Str unit,
            Str nl]) }"

definition book_line :: "string \<Rightarrow> item list \<Rightarrow> book_report \<Rightarrow> item list" where
  "book_line name settings r =
     [Str name] @ settings @
     [Dbl (Finite (rp_bid r)), Str '' ('', Num (uint (rp_bid_size r)), Str '') | Ask $'',
      Dbl (Finite (rp_ask r)), Str '' ('', Num (uint (rp_ask_size r)), Str '') | Spread: $'',
      Dbl (Finite (rp_spread r)), Str '' | Orders: '', Num (int (rp_orders r)), Str nl]"

definition demo_report_lines :: "i64 \<Rightarrow> demo \<Rightarrow> item list option" where
  "demo_report_lines elapsed_ms s = do {
     let r = demo_report elapsed_ms s;
     queue \<leftarrow> latency_lines [Fixed, Precision 1] ('' ns'' @ nl) (rp_queue r);
     book \<leftarrow> latency_lines [] ('' ns'' @ nl) (rp_book r);
     pipeline \<leftarrow> latency_lines [Precision 2] ('' '' @ mu @ ''s'' @ nl) (rp_pipeline r);
     Some ([Str (nl @ ''=== Performance Results ==='' @ nl @ nl),
            Str ''Messages Processed: '', Num (int (rp_messages r)), Str nl,
            Str ''Total Time: '', Num (sint elapsed_ms), Str ('' ms'' @ nl),
            Str ''Throughput: '', Fixed, Precision 0, Dbl (quotient 50000000 (of_i64 elapsed_ms)),
            Str ('' msgs/sec'' @ nl @ nl), Str (''Message Queue Latency:'' @ nl)] @ queue @
           [Str (''Order Book Update Latency:'' @ nl)] @ book @
           [Str (''End-to-End Pipeline Latency:'' @ nl)] @ pipeline @
           [Str (''Order Book State:'' @ nl)] @
           book_line ''  AAPL:  Bid $'' [Fixed, Precision 2] (rp_books r ! 0) @
           book_line ''  MSFT:  Bid $'' [] (rp_books r ! 1) @
           book_line ''  GOOGL: Bid $'' [] (rp_books r ! 2) @
           [Str nl, Str ''Trading Signals Generated: '', Num (int (rp_signals r)), Str nl,
            Str ''Ticks Recorded: '', Num (int (rp_ticks r)), Str (nl @ nl),
            Str (''=== Demo Complete ==='' @ nl), Str (''Data saved to: demo_ticks.dat'' @ nl)]) }"

text \<open>The whole of \<open>demo_complete_system\<close>: what it prints and its final state.\<close>

definition demo_console ::
  "(nat \<Rightarrow> bool \<times> bool) \<Rightarrow> bool \<Rightarrow> recorder \<Rightarrow> draw list \<Rightarrow> i64 \<Rightarrow> (item list \<times> demo) option" where
  "demo_console env trunc_ok rc draws elapsed_ms =
     (case spsc_new blank_quote 4096 of
        Inl _ \<Rightarrow> None
      | Inr q \<Rightarrow> do {
          (out, s1) \<leftarrow> demo_shown env 0 (take 50000 draws) (demo_init q rc);
          let s = s1\<lparr>d_recorder := rc_flush trunc_ok (d_recorder s1)\<rparr>;
          rep \<leftarrow> demo_report_lines elapsed_ms s;
          Some ([Str (nl @ ''=== High-Performance Market Data Feed Handler Demo ==='' @ nl @ nl),
                 Str (''Initializing components...'' @ nl),
                 Str (nl @ ''Simulating live market data feed...'' @ nl),
                 Str (''Processing 50,000 messages across 3 symbols'' @ nl @ nl)] @ out @ rep, s) })"

subsection \<open>The ITCH demo\<close>

definition add_line :: "u64 \<Rightarrow> string \<Rightarrow> char \<Rightarrow> u64 \<Rightarrow> i64 \<Rightarrow> item list" where
  "add_line order_ref stock buy_sell shares px =
     [Str ''  [ADD] Order '', Num (uint order_ref), Str '' | '', Str stock, Str '' | '', Str [buy_sell], Str '' | '',
      Num (uint shares), Str '' @ $'', Fixed, Precision 2, Dbl (Finite (fl (of_i64 px / 10000))), Str nl]"

text \<open>What is printed for the message that has just been counted as number \<open>msg_count\<close>.\<close>

definition message_line :: "nat \<Rightarrow> itch_message \<Rightarrow> item list" where
  "message_line msg_count m =
     (case m of
        AddOrder a \<Rightarrow>
          (if msg_count \<le> 10 then
             add_line (ao_order_reference a) (stock_to_string (ao_stock a)) (char_of_u8 (ao_buy_sell a))
               (ucast (ao_shares a)) (ucast (ao_price a))
           else [])
      | _ \<Rightarrow> [])"


text \<open>
  The loop; \<open>cycles k\<close> is what the time stamp counter measures around call number \<open>k\<close> of
  \<open>parse_next\<close>.
\<close>

partial_function (option) itch_shown_loop ::
  "(nat \<Rightarrow> u64) \<Rightarrow> nat \<Rightarrow> parser \<Rightarrow> nat \<Rightarrow> ebook \<Rightarrow> lat_hist \<Rightarrow> item list \<Rightarrow>
   (nat \<times> ebook \<times> lat_hist \<times> item list) option" where
  "itch_shown_loop cycles k p msg_count book hist out =
     (if has_more p
      then (case parse_next p of
              None \<Rightarrow> None
            | Some (msg, p') \<Rightarrow>
                let hist' = lh_record (cycles k) hist
                in (case msg of
                      None \<Rightarrow> itch_shown_loop cycles (k + 1) p' msg_count book hist' out
                    | Some m \<Rightarrow>
                        itch_shown_loop cycles (k + 1) p' (msg_count + 1) (itch_apply m book) hist'
                          (out @ message_line (msg_count + 1) m)))
      else Some (msg_count, book, hist, out))"

definition itch_closing :: "nat \<Rightarrow> double \<Rightarrow> ebook \<Rightarrow> item list" where
  "itch_closing msg_count avg book =
     (let snap = e_snapshot book
      in [Str (nl @ ''Processed ''), Num (int msg_count), Str ('' ITCH messages'' @ nl),
          Str ''Average parse latency: '', Fixed, Precision 1, Dbl (Finite avg), Str ('' ns'' @ nl),
          Str (nl @ ''Final Order Book:'' @ nl),
          Str ''  Best Bid: $'', Fixed, Precision 2, Dbl (Finite (fl (of_i64 (snap_best_bid snap) / 10000))),
          Str '' ('', Num (uint (snap_best_bid_size snap)), Str ('')'' @ nl),
          Str ''  Best Ask: $'', Dbl (Finite (fl (of_i64 (snap_best_ask snap) / 10000))),
          Str '' ('', Num (uint (snap_best_ask_size snap)), Str ('')'' @ nl),
          Str ''  Total Orders: '', Num (int (total_orders book)), Str nl])"

definition itch_console :: "(nat \<Rightarrow> u64) \<Rightarrow> item list option" where
  "itch_console cycles = do {
     (msg_count, book, hist, out) \<leftarrow>
       itch_shown_loop cycles 0 (parser_new (demo_build [0..<100] 1000000 34200000000000)) 0
         (ebook_new ''AAPL'') lh_new [];
     avg \<leftarrow> to_u64 (lh_average hist);
     Some ([Str (nl @ ''=== NASDAQ ITCH 5.0 Processing Demo ==='' @ nl @ nl),
            Str (''Simulating ITCH message stream...'' @ nl @ nl)] @ out @
           itch_closing msg_count (cycles_to_ns avg 3) book) }"

subsection \<open>The sample data and the main program\<close>

definition sample_console :: "(nat \<Rightarrow> bool \<times> bool) \<Rightarrow> tick_draw list \<Rightarrow> (item list \<times> u8 list) option" where
  "sample_console env ds = do {
     (n, f) \<leftarrow> generate_sample_data env ds;
     Some ([Str (''Generating sample market data...'' @ nl), Str ''Generated '', Num (int n), Str ('' records'' @ nl)], f) }"

text \<open>The frame of the banner is drawn with box characters, three bytes of UTF-8 each.\<close>

definition box :: "nat \<Rightarrow> string" where
  "box n = [CHR 0xE2, CHR 0x95, char_of n]"

definition banner :: "item list" where
  "banner =
     [Str (box 0x94 @ concat (replicate 58 (box 0x90)) @ box 0x97 @ nl),
      Str (box 0x91 @ ''  High-Performance Market Data Feed Handler              '' @ box 0x91 @ nl),
      Str (box 0x91 @ ''  C++17 | Lock-Free | Sub-10'' @ mu @ ''s Latency                   '' @ box 0x91 @ nl),
      Str (box 0x9A @ concat (replicate 58 (box 0x90)) @ box 0x9D @ nl)]"

definition usage_lines :: "string \<Rightarrow> item list" where
  "usage_lines prog =
     [Str (nl @ ''Usage: ''), Str prog, Str ('' [mode]'' @ nl), Str (nl @ ''Modes:'' @ nl),
      Str (''  demo  - Run complete system demonstration (default)'' @ nl),
      Str (''  itch  - NASDAQ ITCH 5.0 processing demo'' @ nl),
      Str (''  live  - Same as demo'' @ nl @ nl)]"

text \<open>
  \<open>main\<close>: its output for the arguments of the program, the first being its name. What the three
  branches depend on is passed along: \<open>rc\<close> is the recorder on \<open>demo_ticks.dat\<close>.
\<close>

definition main_console ::
  "string list \<Rightarrow> (nat \<Rightarrow> bool \<times> bool) \<Rightarrow> bool \<Rightarrow> recorder \<Rightarrow> draw list \<Rightarrow> i64 \<Rightarrow> (nat \<Rightarrow> u64) \<Rightarrow>
   item list option" where
  "main_console args env trunc_ok rc draws elapsed_ms cycles =
     map_option (\<lambda>out. banner @ out)
       (case main_mode args of
          Complete_System \<Rightarrow> map_option fst (demo_console env trunc_ok rc draws elapsed_ms)
        | Itch_Processing \<Rightarrow> itch_console cycles
        | Usage \<Rightarrow> Some (usage_lines (hd args)))"

subsection \<open>The printing loops compute what the loops without output compute\<close>

lemma demo_shown_loop: "map_option snd (demo_shown env i ds s) = demo_loop env i ds s"
  by (induction env i ds s rule: demo_shown.induct)
    (auto simp: option.map_comp comp_def case_prod_unfold split: option.splits)

lemma demo_console_state:
  "demo_console env trunc_ok rc draws ms = Some (out, s) \<Longrightarrow> demo_complete_system env trunc_ok rc draws = Some s"
  using demo_shown_loop [of env 0 "take 50000 draws"]
  by (auto simp: demo_console_def demo_complete_system_def Let_def split: sum.splits Option.bind_splits)
    (metis (no_types, lifting) option.simps(9) snd_conv)


subsection \<open>The output of the ITCH demo\<close>

lemma itch_shown_messages:
  assumes "\<forall>m\<in>set ms. valid_message m"
  shows "itch_shown_loop cycles k (parser_at (pre @ concat (map encode_message ms)) (length pre)) n b h out =
    Some (n + length ms, fold itch_apply ms b, fold lh_record (map cycles [k..<k + length ms]) h,
      out @ concat (map (\<lambda>(i, m). message_line i m) (enumerate (n + 1) ms)))"
  using assms
proof (induction ms arbitrary: pre n b k h out)
  case Nil
  show ?case by (simp add: itch_shown_loop.simps itch.more_iff)
next
  case (Cons m ms)
  let ?buf = "pre @ encode_message m @ concat (map encode_message ms)"
  have "has_more (parser_at ?buf (length pre))"
    using itch.encode_nonempty [of m] by (cases "encode_message m") (simp_all add: itch.more_iff)
  moreover have "parse_next (parser_at ?buf (length pre)) =
      Some (Some m, parser_at ?buf (length (pre @ encode_message m)))"
    using Cons.prems itch.parse_encoded [of m pre "concat (map encode_message ms)"] by simp
  moreover have "[k..<k + length (m # ms)] = k # [k + 1..<k + 1 + length ms]"
    by (simp add: upt_conv_Cons del: upt_Suc)
  ultimately show ?case
    using Cons.IH [where pre = "pre @ encode_message m" and k = "k + 1" and n = "n + 1" and b = "itch_apply m b"
        and h = "lh_record (cycles k) h" and out = "out @ message_line (n + 1) m"] Cons.prems
    by (subst itch_shown_loop.simps) (simp add: Let_def del: upt_Suc)
qed

text \<open>The size at a price after the adds, on either side.\<close>

lemma itch_adds_depth:
  assumes "distinct (map ao_order_reference ms)"
    and "\<forall>m\<in>set ms. ao_order_reference m \<notin> dom (orders b) \<and> (buy m \<or> ao_buy_sell m = ch CHR ''S'')"
  shows "depth_of bid_before (e_bids (fold itch_apply (map AddOrder ms) b)) =
      fold (\<lambda>m d. if buy m then spec_add (ucast (ao_price m)) (ucast (ao_shares m)) d else d) ms
        (depth_of bid_before (e_bids b)) \<and>
    depth_of ask_before (e_asks (fold itch_apply (map AddOrder ms) b)) =
      fold (\<lambda>m d. if \<not> buy m then spec_add (ucast (ao_price m)) (ucast (ao_shares m)) d else d) ms
        (depth_of ask_before (e_asks b))"
  using assms
proof (induction ms arbitrary: b)
  case (Cons m ms)
  let ?b = "itch_apply (AddOrder m) b"
  have fresh: "orders b (ao_order_reference m) = None" using Cons.prems(2) by (simp add: domIff)
  have sides: "e_bids ?b = (if buy m then level_add bid_before (ucast (ao_price m)) (ucast (ao_shares m)) (e_bids b) else e_bids b)"
    "e_asks ?b = (if buy m then e_asks b else level_add ask_before (ucast (ao_price m)) (ucast (ao_shares m)) (e_asks b))"
    using Cons.prems(2) itch_apply_sides [OF fresh, of "CHR ''B''"] itch_apply_sides [OF fresh, of "CHR ''S''"]
    by (auto simp: buy_def ch_eq_iff)
  have "\<forall>k\<in>set ms. ao_order_reference k \<notin> dom (orders ?b) \<and> (buy k \<or> ao_buy_sell k = ch CHR ''S'')"
  proof
    fix k assume k: "k \<in> set ms"
    then have "ao_order_reference k \<noteq> ao_order_reference m"
      using Cons.prems(1) by (metis distinct.simps(2) imageI list.set_map list.simps(9))
    with k Cons.prems(2) show "ao_order_reference k \<notin> dom (orders ?b) \<and> (buy k \<or> ao_buy_sell k = ch CHR ''S'')"
      unfolding itch_apply_orders by simp
  qed
  then show ?case
    using Cons.IH [of ?b] Cons.prems(1)
    by (simp add: sides bid_side.depth_add ask_side.depth_add)
qed simp

lemma fold_spec_add_other:
  assumes "\<forall>m\<in>set ms. P m \<longrightarrow> f m \<noteq> p"
  shows "fold (\<lambda>m d. if P m then spec_add (f m) (g m) d else d) ms d p = d p"
  using assms by (induction ms arbitrary: d) (auto simp: spec_add_def)

lemma fold_spec_add_one:
  assumes "filter (\<lambda>m. P m \<and> f m = p) ms = [m]" and "d p = None"
  shows "fold (\<lambda>m d. if P m then spec_add (f m) (g m) d else d) ms d p = Some (g m, 1)"
  using assms
proof (induction ms arbitrary: d)
  case (Cons k ms)
  show ?case
  proof (cases "P k \<and> f k = p")
    case True
    then have "k = m" "filter (\<lambda>m. P m \<and> f m = p) ms = []" using Cons.prems(1) by simp_all
    with True Cons.prems(2) show ?thesis
      by (simp add: filter_empty_conv) (subst fold_spec_add_other, auto simp: spec_add_def)
  next
    case False
    then show ?thesis using Cons by (auto simp: spec_add_def)
  qed
qed simp


text \<open>The messages of the demo, field by field.\<close>

lemma demo_msgs_fields:
  "map (\<lambda>m. (ao_buy_sell m, ao_shares m, ao_stock m, ao_price m)) (demo_msgs is' ref ts) =
   map (\<lambda>i. (ch (if i mod 2 = 0 then CHR ''B'' else CHR ''S''), of_nat (100 + i * 10), map ch ''AAPL    '',
     of_nat (1500000 + i * 100))) (filter (\<lambda>i. i mod 3 = 0) is')"
  by (induction is' ref ts rule: demo_msgs.induct) (simp_all add: demo_msg_def)

lemma demo_indices: "filter (\<lambda>i. i mod 3 = 0) [0..<100] = map (\<lambda>j. 3 * j) [0..<34::nat]"
  by code_simp

lemma demo_msg_nth:
  assumes "j < 34"
  shows "ao_buy_sell (the_demo_msgs ! j) = ch (if even j then CHR ''B'' else CHR ''S'')"
    and "ao_shares (the_demo_msgs ! j) = of_nat (100 + 30 * j)"
    and "ao_stock (the_demo_msgs ! j) = map ch ''AAPL    ''"
    and "ao_price (the_demo_msgs ! j) = of_nat (1500000 + 300 * j)"
    and "ao_order_reference (the_demo_msgs ! j) = of_nat (1000000 + j)"
proof -
  let ?f = "\<lambda>m. (ao_buy_sell m, ao_shares m, ao_stock m, ao_price m)"
  have "?f (the_demo_msgs ! j) = map ?f the_demo_msgs ! j" using assms demo_msgs_count by simp
  also have "\<dots> = (ch (if 3 * j mod 2 = 0 then CHR ''B'' else CHR ''S''), of_nat (100 + 3 * j * 10),
      map ch ''AAPL    '', of_nat (1500000 + 3 * j * 100))"
    unfolding the_demo_msgs_def demo_msgs_fields demo_indices using assms by (simp del: upt_Suc upt_rec_numeral)
  finally have f: "?f (the_demo_msgs ! j) = \<dots>" .
  have "(3 * j mod 2 = 0) = even j" by presburger
  with f show "ao_buy_sell (the_demo_msgs ! j) = ch (if even j then CHR ''B'' else CHR ''S'')"
    and "ao_shares (the_demo_msgs ! j) = of_nat (100 + 30 * j)"
    and "ao_stock (the_demo_msgs ! j) = map ch ''AAPL    ''"
    and "ao_price (the_demo_msgs ! j) = of_nat (1500000 + 300 * j)"
    by (simp_all add: mult.commute)
  have "map ao_order_reference the_demo_msgs ! j = map (\<lambda>k. 1000000 + of_nat k) [0..<34] ! j"
    using demo_msgs_refs [of "[0..<100]" 1000000 34200000000000] demo_msgs_count
    unfolding the_demo_msgs_def [symmetric] by (simp del: upt_Suc upt_rec_numeral)
  then show "ao_order_reference (the_demo_msgs ! j) = of_nat (1000000 + j)"
    using assms demo_msgs_count by (simp del: upt_Suc upt_rec_numeral)
qed

text \<open>A price that is a whole number of cents.\<close>

definition cents_text :: "nat \<Rightarrow> string" where
  "cents_text c = dec (c div 100) @ ''.'' @ pad 2 (dec (c mod 100))"

lemma price_text:
  assumes "sint (px :: i64) = int c * 100" and "c \<le> 2 ^ 46"
  shows "fixed_text 2 (fl (of_i64 px / 10000)) = cents_text c"
proof -
  have d: "fl (of_i64 px / 10000) = price_double (int c * 100)"
    using assms(1) by (simp add: price_double_def of_i64_def)
  have "\<bar>int c\<bar> \<le> 2 ^ 46" using assms(2) by simp
  from price_cents [OF this] have r: "round_even (price_double (int c * 100) * 10 ^ 2) = int c" .
  have "0 \<le> fl (of_int (int c * 100))" by (rule fl_nonneg) simp
  then have "0 \<le> price_double (int c * 100)" unfolding price_double_def by (intro fl_nonneg) (rule divide_nonneg_nonneg, simp_all)
  with r show ?thesis unfolding d by (simp add: fixed_text_def cents_text_def Let_def)
qed

definition demo_add_text :: "nat \<Rightarrow> string" where
  "demo_add_text j =
     ''  [ADD] Order '' @ dec (1000000 + j) @ '' | AAPL | '' @ [if even j then CHR ''B'' else CHR ''S''] @ '' | '' @
     dec (100 + 30 * j) @ '' @ $'' @ cents_text (15000 + 3 * j) @ nl"

lemma small_word: "n < 2 ^ 32 \<Longrightarrow> uint (of_nat n :: u64) = int n" "n < 2 ^ 32 \<Longrightarrow> sint (of_nat n :: i64) = int n"
  by (simp_all add: uint_nat unat_of_nat_small sint_of_nat_u64 del: of_nat_numeral)

lemma put_demo_line:
  assumes "j < 10"
  shows "put_all (message_line (j + 1) (AddOrder (the_demo_msgs ! j))) c =
    Some (c\<lparr>shown := shown c @ demo_add_text j, fixed_format := True, digits := 2\<rparr>)"
proof -
  have j: "j < 34" using assms by simp
  note f = demo_msg_nth [OF j]
  have lt: "1500000 + 300 * j < 2 ^ 32" using j by simp
  have "int (1500000 + 300 * j) = int (15000 + 3 * j) * 100" by simp
  then have px: "sint (of_nat (1500000 + 300 * j) :: i64) = int (15000 + 3 * j) * 100"
    using small_word(2) [of "1500000 + 300 * j"] lt by (simp only:)
  have ws: "ucast (of_nat (100 + 30 * j) :: u32) = (of_nat (100 + 30 * j) :: u64)"
      "ucast (of_nat (1500000 + 300 * j) :: u32) = (of_nat (1500000 + 300 * j) :: i64)"
    by (rule ucast_of_nat_u32, use j in simp, rule ucast_of_nat_u32, use j in simp)
  have ints: "dec_int (uint (of_nat (1000000 + j) :: u64)) = dec (1000000 + j)"
      "dec_int (uint (of_nat (100 + 30 * j) :: u64)) = dec (100 + 30 * j)"
    using j small_word(1) [of "1000000 + j"] small_word(1) [of "100 + 30 * j"]
    by (simp_all add: dec_int_def del: of_nat_add of_nat_mult)
  have name: "stock_to_string (map ch ''AAPL    '') = ''AAPL''" by code_simp
  have cents: "fixed_text 2 (fl (of_i64 (of_nat (1500000 + 300 * j)) / 10000)) = cents_text (15000 + 3 * j)"
    using price_text [OF px] j by simp
  show ?thesis
    unfolding message_line_def itch_message.case add_line_def f ws char_of_u8_ch name
    using assms by (simp add: ints cents demo_add_text_def del: of_nat_add of_nat_mult)
qed


lemma put_demo_lines:
  assumes "n \<le> 10"
  shows "put_all (concat (map (\<lambda>j. message_line (j + 1) (AddOrder (the_demo_msgs ! j))) [i..<n])) c =
    Some (c\<lparr>shown := shown c @ concat (map demo_add_text [i..<n]),
            fixed_format := (fixed_format c \<or> i < n), digits := (if i < n then 2 else digits c)\<rparr>)"
proof (induction "n - i" arbitrary: i c)
  case (Suc m)
  then have i: "i < n" and up: "[i..<n] = i # [Suc i..<n]" by (simp_all add: upt_conv_Cons)
  have "i < 10" using i assms by simp
  then show ?case
    using Suc.hyps(1) [of "Suc i"] Suc.hyps(2) i unfolding up
    by (simp add: put_all_append put_demo_line [simplified] del: upt_Suc)
qed simp

lemma late_messages_silent:
  "concat (map (\<lambda>j. message_line (j + 1) (AddOrder (the_demo_msgs ! j))) [10..<n]) = []"
  by (auto simp: message_line_def)

lemma demo_lines_split:
  "concat (map (\<lambda>(i, m). message_line i m) (enumerate 1 (map AddOrder the_demo_msgs))) =
   concat (map (\<lambda>j. message_line (j + 1) (AddOrder (the_demo_msgs ! j))) [0..<10])"
proof -
  have "enumerate 1 (map AddOrder the_demo_msgs) = map (\<lambda>j. (j + 1, AddOrder (the_demo_msgs ! j))) [0..<34]"
    using demo_msgs_count by (intro nth_equalityI) (simp_all add: nth_enumerate_eq del: upt_Suc upt_rec_numeral)
  moreover have "[0..<34::nat] = [0..<10] @ [10..<34]"
    using upt_add_eq_append [of 0 10 24] by (simp del: upt_Suc upt_rec_numeral)
  ultimately show ?thesis using late_messages_silent [of 34] by (simp add: comp_def del: upt_Suc upt_rec_numeral)
qed

lemma demo_add_texts:
  "map demo_add_text [0..<10] =
     [''  [ADD] Order 1000000 | AAPL | B | 100 @ $150.00'' @ nl,
      ''  [ADD] Order 1000001 | AAPL | S | 130 @ $150.03'' @ nl,
      ''  [ADD] Order 1000002 | AAPL | B | 160 @ $150.06'' @ nl,
      ''  [ADD] Order 1000003 | AAPL | S | 190 @ $150.09'' @ nl,
      ''  [ADD] Order 1000004 | AAPL | B | 220 @ $150.12'' @ nl,
      ''  [ADD] Order 1000005 | AAPL | S | 250 @ $150.15'' @ nl,
      ''  [ADD] Order 1000006 | AAPL | B | 280 @ $150.18'' @ nl,
      ''  [ADD] Order 1000007 | AAPL | S | 310 @ $150.21'' @ nl,
      ''  [ADD] Order 1000008 | AAPL | B | 340 @ $150.24'' @ nl,
      ''  [ADD] Order 1000009 | AAPL | S | 370 @ $150.27'' @ nl]"
  by (simp add: upt_rec demo_add_text_def cents_text_def dec.simps pad_def digit_table)

text \<open>The best sizes of the final book.\<close>

lemma demo_at_price:
  assumes "j < 34"
  shows "buy (the_demo_msgs ! j) \<longleftrightarrow> even j"
    and "ucast (ao_price (the_demo_msgs ! j)) = (of_nat (1500000 + 300 * j) :: i64)"
    and "ucast (ao_shares (the_demo_msgs ! j)) = (of_nat (100 + 30 * j) :: u64)"
  using assms demo_msg_nth [OF assms]
  by (simp_all add: buy_def ch_eq_iff ucast_of_nat_u32 del: of_nat_add of_nat_mult)

lemma demo_filter:
  assumes "k < 34"
  shows "filter (\<lambda>m. (buy m \<longleftrightarrow> even k) \<and> ucast (ao_price m) = (of_nat (1500000 + 300 * k) :: i64)) the_demo_msgs =
    [the_demo_msgs ! k]"
proof -
  let ?P = "\<lambda>m. (buy m \<longleftrightarrow> even k) \<and> ucast (ao_price m) = (of_nat (1500000 + 300 * k) :: i64)"
  have P: "?P (the_demo_msgs ! j) \<longleftrightarrow> j = k" if "j < 34" for j
    using demo_at_price(1,2) [OF that] that assms of_nat_eq_iff_small [of "1500000 + 300 * j" "1500000 + 300 * k", where 'n = 64]
    by (auto simp del: of_nat_add of_nat_mult)
  have "filter ?P the_demo_msgs = filter ?P (map ((!) the_demo_msgs) [0..<34])"
    using map_nth [of the_demo_msgs] demo_msgs_count by (simp del: upt_Suc upt_rec_numeral)
  also have "\<dots> = map ((!) the_demo_msgs) (filter (\<lambda>j. ?P (the_demo_msgs ! j)) [0..<34])"
    by (simp only: filter_map comp_def)
  also have "filter (\<lambda>j. ?P (the_demo_msgs ! j)) [0..<34] = filter (\<lambda>j. j = k) [0..<34]"
    by (rule filter_cong [OF refl], rule P, simp del: upt_rec_numeral)
  also have "[0..<34] = [0..<k] @ k # [Suc k..<34]"
    using assms upt_add_eq_append [of 0 k "34 - k"] by (simp add: upt_conv_Cons del: upt_Suc upt_rec_numeral)
  also have "filter (\<lambda>j. j = k) \<dots> = [k]" by (simp add: filter_empty_conv del: upt_Suc upt_rec_numeral)
  finally show ?thesis by simp
qed

lemma demo_book_sizes: "e_best_bid_size the_demo_book = Some 1060" "e_best_ask_size the_demo_book = Some 130"
proof -
  let ?b = "ebook_new ''AAPL''"
  let ?px = "\<lambda>m. ucast (ao_price m) :: i64" and ?sz = "\<lambda>m. ucast (ao_shares m) :: u64"
  have b: "dom (orders ?b) = {}" "e_bids ?b = []" "e_asks ?b = []" by (simp_all add: ebook_new_def)
  have none: "depth_of lt [] = (\<lambda>p. None)" for lt by (simp add: depth_of_def fun_eq_iff)
  have "\<forall>m\<in>set the_demo_msgs. ao_order_reference m \<notin> dom (orders ?b) \<and> (buy m \<or> ao_buy_sell m = ch CHR ''S'')"
    using demo_prices(3) unfolding b(1) by blast
  note d = itch_adds_depth [OF demo_refs_distinct this, folded the_demo_book_def, unfolded b(2,3) none]
  have one: "filter (\<lambda>m. buy m \<and> ?px m = 1509600) the_demo_msgs = [the_demo_msgs ! 32]"
      "filter (\<lambda>m. \<not> buy m \<and> ?px m = 1500300) the_demo_msgs = [the_demo_msgs ! 1]"
    using demo_filter [of 32] demo_filter [of 1] by simp_all
  have "depth_of bid_before (e_bids the_demo_book) 1509600 = Some (1060, 1)"
    using d fold_spec_add_one [of buy ?px 1509600 the_demo_msgs "the_demo_msgs ! 32" "\<lambda>p. None" ?sz] one(1)
      demo_at_price(3) [of 32] by simp
  moreover have "depth_of ask_before (e_asks the_demo_book) 1500300 = Some (130, 1)"
    using d fold_spec_add_one [of "\<lambda>m. \<not> buy m" ?px 1500300 the_demo_msgs "the_demo_msgs ! 1" "\<lambda>p. None" ?sz] one(2)
      demo_at_price(3) [of 1] by simp
  moreover have "best_price (e_bids the_demo_book) = Some 1509600" "best_price (e_asks the_demo_book) = Some 1500300"
    using demo_book_best by (simp_all add: e_best_bid_def e_best_ask_def)
  ultimately show "e_best_bid_size the_demo_book = Some 1060" "e_best_ask_size the_demo_book = Some 130"
    using bid_side.best_size_depth [OF demo_book_levels(1)] ask_side.best_size_depth [OF demo_book_levels(2)]
    by (simp_all add: e_best_bid_size_def e_best_ask_size_def)
qed


lemma demo_book_snapshot:
  "snap_best_bid (e_snapshot the_demo_book) = 1509600" "snap_best_bid_size (e_snapshot the_demo_book) = 1060"
  "snap_best_ask (e_snapshot the_demo_book) = 1500300" "snap_best_ask_size (e_snapshot the_demo_book) = 130"
  by (simp_all add: e_snapshot_def demo_book_best demo_book_sizes value_or_def)

definition itch_closing_text :: "double \<Rightarrow> string" where
  "itch_closing_text avg =
     nl @ ''Processed 34 ITCH messages'' @ nl @ ''Average parse latency: '' @ fixed_text 1 avg @ '' ns'' @ nl @
     nl @ ''Final Order Book:'' @ nl @ ''  Best Bid: $150.96 (1060)'' @ nl @
     ''  Best Ask: $150.03 (130)'' @ nl @ ''  Total Orders: 34'' @ nl"

lemma put_closing:
  assumes "total_orders the_demo_book = 34"
  shows "put_all (itch_closing 34 avg the_demo_book) c =
    Some (c\<lparr>shown := shown c @ itch_closing_text avg, fixed_format := True, digits := 2\<rparr>)"
proof -
  have "fixed_text 2 (fl (of_i64 1509600 / 10000)) = cents_text 15096" by (rule price_text) simp_all
  moreover have "fixed_text 2 (fl (of_i64 1500300 / 10000)) = cents_text 15003" by (rule price_text) simp_all
  moreover have "cents_text 15096 = ''150.96''" "cents_text 15003 = ''150.03''" "dec_int 34 = ''34''"
      "dec_int 1060 = ''1060''" "dec_int 130 = ''130''"
    by (simp_all add: cents_text_def dec_int_def dec.simps pad_def digit_table)
  ultimately show ?thesis
    by (simp add: itch_closing_def itch_closing_text_def Let_def demo_book_snapshot assms)
qed


text \<open>The average of two or more latencies is always a defined number of cycles.\<close>

lemma lh_count_fold: "lh_count (fold lh_record ls h) = lh_count h + of_nat (length ls)"
  by (induction ls arbitrary: h) (simp_all add: lh_record_def ac_simps)

lemma lh_average_defined:
  assumes "2 \<le> lh_count h"
  shows "\<exists>c. to_u64 (lh_average h) = Some c"
proof -
  have two: "fl (2 powi e) = 2 powi e" if "- 1074 \<le> e" for e
    using fl_grid [of 1 e] that by simp
  have "uint (lh_sum h) \<le> 2 ^ 64" using uint_bounded [of "lh_sum h"] by simp
  then have "(of_int (uint (lh_sum h)) :: rat) \<le> of_int (2 ^ 64)" by (simp only: of_int_le_iff)
  then have "of_u64 (lh_sum h) \<le> fl (2 powi 64)" unfolding of_u64_def by (intro fl_mono) simp
  then have s: "of_u64 (lh_sum h) \<le> 2 ^ 64" using two [of 64] by simp
  have "(2::int) \<le> uint (lh_count h)" using assms by (simp add: word_le_def)
  then have "(of_int 2 :: rat) \<le> of_int (uint (lh_count h))" by (simp only: of_int_le_iff)
  then have "fl (of_int 2) \<le> of_u64 (lh_count h)" unfolding of_u64_def by (rule fl_mono)
  then have c: "2 \<le> of_u64 (lh_count h)" using fl_of_int [of 2] by simp
  have "(0::rat) \<le> of_int (uint (lh_sum h))" by (simp only: of_int_0_le_iff uint_ge_0)
  then have pos: "0 \<le> of_u64 (lh_sum h)" unfolding of_u64_def by (rule fl_nonneg)
  have "of_u64 (lh_sum h) / of_u64 (lh_count h) \<le> 2 ^ 64 / 2" using s c pos by (intro frac_le) simp_all
  then have "fl (of_u64 (lh_sum h) / of_u64 (lh_count h)) \<le> fl (2 powi 63)" by (intro fl_mono) simp
  then have "lh_average h \<le> 2 ^ 63" using two [of 63] by (simp add: lh_average_def)
  moreover have "0 \<le> fl (of_u64 (lh_sum h) / of_u64 (lh_count h))" using pos c by (intro fl_nonneg) simp
  then have "0 \<le> lh_average h" by (simp add: lh_average_def)
  ultimately show ?thesis by (simp add: to_u64_def)
qed

definition itch_opening_text :: string where
  "itch_opening_text =
     nl @ ''=== NASDAQ ITCH 5.0 Processing Demo ==='' @ nl @ nl @ ''Simulating ITCH message stream...'' @ nl @ nl @
     ''  [ADD] Order 1000000 | AAPL | B | 100 @ $150.00'' @ nl @
     ''  [ADD] Order 1000001 | AAPL | S | 130 @ $150.03'' @ nl @
     ''  [ADD] Order 1000002 | AAPL | B | 160 @ $150.06'' @ nl @
     ''  [ADD] Order 1000003 | AAPL | S | 190 @ $150.09'' @ nl @
     ''  [ADD] Order 1000004 | AAPL | B | 220 @ $150.12'' @ nl @
     ''  [ADD] Order 1000005 | AAPL | S | 250 @ $150.15'' @ nl @
     ''  [ADD] Order 1000006 | AAPL | B | 280 @ $150.18'' @ nl @
     ''  [ADD] Order 1000007 | AAPL | S | 310 @ $150.21'' @ nl @
     ''  [ADD] Order 1000008 | AAPL | B | 340 @ $150.24'' @ nl @
     ''  [ADD] Order 1000009 | AAPL | S | 370 @ $150.27'' @ nl"

lemma itch_loop_shown:
  "itch_shown_loop cycles 0 (parser_new (demo_build [0..<100] 1000000 34200000000000)) 0 (ebook_new ''AAPL'') lh_new [] =
   Some (34, the_demo_book, fold lh_record (map cycles [0..<34]) lh_new,
     concat (map (\<lambda>j. message_line (j + 1) (AddOrder (the_demo_msgs ! j))) [0..<10]))"
proof -
  have "\<forall>m\<in>set (map AddOrder the_demo_msgs). valid_message m"
    using demo_msgs_valid unfolding the_demo_msgs_def by auto
  from itch_shown_messages [OF this, of cycles 0 "[]" 0 "ebook_new ''AAPL''" lh_new "[]"] show ?thesis
    unfolding parser_new_def demo_build_encodes the_demo_msgs_def [symmetric] the_demo_book_def
    using demo_lines_split demo_msgs_count by (simp add: comp_def del: upt_Suc upt_rec_numeral)
qed

text \<open>
  C13. The ITCH demo prints exactly this, whatever the clock says, except for the one number
  that depends on it: the first ten of its 34 orders with their prices in dollars, and the final
  book, whose best bid is above its best ask.
\<close>
theorem itch_demo_output:
  "\<exists>out avg. itch_console cycles = Some out \<and>
     put_all out console_new =
       Some \<lparr>shown = itch_opening_text @ itch_closing_text avg, fixed_format = True, digits = 2\<rparr> \<and>
     (\<exists>c. avg = cycles_to_ns c 3 \<and> to_u64 (lh_average (fold lh_record (map cycles [0..<34]) lh_new)) = Some c)"
proof -
  let ?h = "fold lh_record (map cycles [0..<34]) lh_new"
  have "lh_count ?h = 34" by (simp add: lh_count_fold lh_new_def del: upt_Suc upt_rec_numeral)
  then obtain c where c: "to_u64 (lh_average ?h) = Some c" using lh_average_defined [of ?h] by auto
  let ?out = "[Str (nl @ ''=== NASDAQ ITCH 5.0 Processing Demo ==='' @ nl @ nl),
            Str (''Simulating ITCH message stream...'' @ nl @ nl)] @
            concat (map (\<lambda>j. message_line (j + 1) (AddOrder (the_demo_msgs ! j))) [0..<10]) @
            itch_closing 34 (cycles_to_ns c 3) the_demo_book"
  have "itch_console cycles = Some ?out" by (simp add: itch_console_def itch_loop_shown c)
  moreover have "put_all ?out console_new =
      Some \<lparr>shown = itch_opening_text @ itch_closing_text (cycles_to_ns c 3), fixed_format = True, digits = 2\<rparr>"
    using put_demo_lines [of 10 0] put_closing [OF demo_book_total]
    by (simp add: put_all_append demo_add_texts console_new_def itch_opening_text_def
        del: upt_Suc upt_rec_numeral)
  ultimately show ?thesis using c by blast
qed

end
