(* ===== verification/Feed_Kinds.thy ===== *)
theory Feed_Kinds
  imports Itch Iex
begin

text \<open>
  The message kinds that the two feed protocols name (the enums \<open>MessageType\<close> of
  \<open>include/itch_parser.hpp\<close> and \<open>include/iex_parser.hpp\<close>), which of them the parsers read, and what
  a client sees of a stream that also carries the others.
\<close>

subsection \<open>The kinds\<close>

datatype itch_kind =
  K_SystemEvent | K_StockDirectory | K_StockTradingAction | K_RegSHORestriction
| K_MarketParticipantPosition | K_MWCBDeclineLevel | K_MWCBStatus | K_IPOQuotingPeriod
| K_AddOrder | K_AddOrderMPID | K_OrderExecuted | K_OrderExecutedWithPrice | K_OrderCancel
| K_OrderDelete | K_OrderReplace | K_Trade | K_CrossTrade | K_BrokenTrade | K_NOII

fun itch_code :: "itch_kind \<Rightarrow> u8" where
  "itch_code K_SystemEvent = ch CHR ''S''"
| "itch_code K_StockDirectory = ch CHR ''R''"
| "itch_code K_StockTradingAction = ch CHR ''H''"
| "itch_code K_RegSHORestriction = ch CHR ''Y''"
| "itch_code K_MarketParticipantPosition = ch CHR ''L''"
| "itch_code K_MWCBDeclineLevel = ch CHR ''V''"
| "itch_code K_MWCBStatus = ch CHR ''W''"
| "itch_code K_IPOQuotingPeriod = ch CHR ''K''"
| "itch_code K_AddOrder = ch CHR ''A''"
| "itch_code K_AddOrderMPID = ch CHR ''F''"
| "itch_code K_OrderExecuted = ch CHR ''E''"
| "itch_code K_OrderExecutedWithPrice = ch CHR ''C''"
| "itch_code K_OrderCancel = ch CHR ''X''"
| "itch_code K_OrderDelete = ch CHR ''D''"
| "itch_code K_OrderReplace = ch CHR ''U''"
| "itch_code K_Trade = ch CHR ''P''"
| "itch_code K_CrossTrade = ch CHR ''Q''"
| "itch_code K_BrokenTrade = ch CHR ''B''"
| "itch_code K_NOII = ch CHR ''I''"

datatype iex_kind =
  I_SystemEvent | I_SecurityDirectory | I_TradingStatus | I_OperationalHalt | I_ShortSalePriceTest
| I_QuoteUpdate | I_TradeReport | I_OfficialPrice | I_TradeBreak | I_AuctionInformation | I_PriceLevelUpdate

fun iex_code :: "iex_kind \<Rightarrow> u8" where
  "iex_code I_SystemEvent = 0x53"
| "iex_code I_SecurityDirectory = 0x44"
| "iex_code I_TradingStatus = 0x48"
| "iex_code I_OperationalHalt = 0x4F"
| "iex_code I_ShortSalePriceTest = 0x50"
| "iex_code I_QuoteUpdate = 0x51"
| "iex_code I_TradeReport = 0x54"
| "iex_code I_OfficialPrice = 0x58"
| "iex_code I_TradeBreak = 0x42"
| "iex_code I_AuctionInformation = 0x41"
| "iex_code I_PriceLevelUpdate = 0x38"

text \<open>
  The template \<open>MessageParser<MsgType>\<close>: the size of the struct it names, for the ten types it is
  specialised for; any other does not compile (\<open>None\<close>).
\<close>

definition message_parser_size :: "u8 \<Rightarrow> nat option" where
  "message_parser_size t =
     (if t = ch CHR ''S'' then Some sizeof_system_event
      else if t = ch CHR ''R'' then Some sizeof_stock_directory
      else if t = ch CHR ''A'' then Some sizeof_add_order_msg
      else if t = ch CHR ''F'' then Some sizeof_add_order_mpid
      else if t = ch CHR ''E'' then Some sizeof_order_executed
      else if t = ch CHR ''C'' then Some sizeof_order_executed_with_price
      else if t = ch CHR ''X'' then Some sizeof_order_cancel
      else if t = ch CHR ''D'' then Some sizeof_order_delete
      else if t = ch CHR ''U'' then Some sizeof_order_replace
      else if t = ch CHR ''P'' then Some sizeof_trade_msg
      else None)"

text \<open>The kinds the switches have no case for.\<close>

definition itch_ignored :: "itch_kind list" where
  "itch_ignored =
     [K_StockTradingAction, K_RegSHORestriction, K_MarketParticipantPosition, K_MWCBDeclineLevel,
      K_MWCBStatus, K_IPOQuotingPeriod, K_CrossTrade, K_BrokenTrade, K_NOII]"

definition iex_ignored :: "iex_kind list" where
  "iex_ignored =
     [I_OperationalHalt, I_ShortSalePriceTest, I_OfficialPrice, I_TradeBreak, I_AuctionInformation]"

lemma message_parser_dispatch: "message_parser_size t = map_option fst (dispatch t)"
  by (simp add: message_parser_size_def dispatch_def)

lemma itch_code_inj: "itch_code k = itch_code l \<Longrightarrow> k = l"
  by (cases k; cases l; simp add: ch_eq_iff)

lemma iex_code_inj: "iex_code k = iex_code l \<Longrightarrow> k = l"
  by (cases k; cases l; simp)

lemma itch_dispatch_kinds: "dispatch (itch_code k) = None \<longleftrightarrow> k \<in> set itch_ignored"
  by (cases k) (simp_all add: dispatch_def itch_ignored_def ch_eq_iff)

lemma iex_dispatch_kinds: "iex_dispatch (iex_code k) = None \<longleftrightarrow> k \<in> set iex_ignored"
  by (cases k) (simp_all add: iex_dispatch_def iex_ignored_def)

subsection \<open>Streams with frames that are skipped\<close>

datatype 'm segment = Message 'm | Other "u8 list"

fun messages :: "'m segment list \<Rightarrow> 'm list" where
  "messages [] = []"
| "messages (Message m # ss) = m # messages ss"
| "messages (Other e # ss) = messages ss"

fun segment_bytes :: "('m \<Rightarrow> u8 list) \<Rightarrow> 'm segment \<Rightarrow> u8 list" where
  "segment_bytes enc (Message m) = enc m"
| "segment_bytes enc (Other e) = e"

fun segment_ok :: "('m \<Rightarrow> bool) \<Rightarrow> (u8 list \<Rightarrow> bool) \<Rightarrow> 'm segment \<Rightarrow> bool" where
  "segment_ok ok skip (Message m) = ok m"
| "segment_ok ok skip (Other e) = skip e"

locale skipping_parser = framed_parser +
  fixes skips :: "u8 list \<Rightarrow> bool"
  assumes parse_skipped: "skips e \<Longrightarrow>
      parse (at_offset (pre @ e @ post) (length pre)) =
        Some (None, at_offset (pre @ e @ post) (length pre + length e))"
    and skips_nonempty: "skips e \<Longrightarrow> e \<noteq> []"
begin

lemma parse_segment:
  assumes "segment_ok valid skips s"
  shows "parse (at_offset (pre @ segment_bytes encode s @ post) (length pre)) =
      Some (case s of Message m \<Rightarrow> Some m | Other e \<Rightarrow> None,
        at_offset (pre @ segment_bytes encode s @ post) (length (pre @ segment_bytes encode s)))"
    and "segment_bytes encode s \<noteq> []"
  using assms parse_encoded parse_skipped encode_nonempty skips_nonempty by (cases s; simp)+

lemma drain_segments_from:
  assumes "\<forall>s\<in>set ss. segment_ok valid skips s"
  shows "drain parse more (at_offset (pre @ concat (map (segment_bytes encode) ss)) (length pre)) acc =
    Some (acc @ messages ss)"
  using assms
proof (induction ss arbitrary: pre acc)
  case Nil
  then show ?case by (simp add: drain.simps more_iff)
next
  case (Cons s ss)
  let ?e = "segment_bytes encode s" and ?post = "concat (map (segment_bytes encode) ss)"
  have s: "segment_ok valid skips s" using Cons.prems by simp
  have "more (at_offset (pre @ ?e @ ?post) (length pre))"
    using parse_segment(2) [OF s] by (simp add: more_iff)
  then show ?case
    using Cons.IH [of "pre @ ?e"] Cons.prems parse_segment(1) [OF s, of pre ?post]
    by (subst drain.simps) (cases s; simp)
qed

lemma drain_segments:
  "\<forall>s\<in>set ss. segment_ok valid skips s \<Longrightarrow>
   drain parse more (at_offset (concat (map (segment_bytes encode) ss)) 0) [] = Some (messages ss)"
  using drain_segments_from [of ss "[]" "[]"] by simp

end

text \<open>
  An ITCH frame states its own length, so the parser can skip one of a kind it does not know,
  or one shorter than its struct. An IEX message does not: of an unknown one only the nine
  bytes of the header are skipped.
\<close>

definition itch_skips :: "u8 list \<Rightarrow> bool" where
  "itch_skips e \<longleftrightarrow> 3 \<le> length e \<and> length e < 2 ^ 16 \<and> take 2 e = be_bytes 2 (of_nat (length e) :: u16) \<and>
     (case dispatch (e ! 2) of None \<Rightarrow> True | Some (n, decode) \<Rightarrow> length e < n)"

definition iex_skips :: "u8 list \<Rightarrow> bool" where
  "iex_skips e \<longleftrightarrow> length e = 9 \<and> iex_dispatch (hd e) = None"

lemma itch_parse_skipped:
  assumes "itch_skips e"
  shows "parse_next (parser_at (pre @ e @ post) (length pre)) =
    Some (None, parser_at (pre @ e @ post) (length pre + length e))"
proof -
  let ?p = "parser_at (pre @ e @ post) (length pre)"
  have e: "3 \<le> length e" "length e < 2 ^ 16" "take 2 e = be_bytes 2 (of_nat (length e) :: u16)"
    using assms by (simp_all add: itch_skips_def)
  have len: "frame_length ?p = length e"
    using e by (simp add: frame_length_def parser_at_def be_be_bytes_full unat_of_nat_small)
  have "buffer ?p ! (offset ?p + 2) = e ! 2" using e(1) by (simp add: parser_at_def nth_append)
  then have "frame_message ?p = None"
    using assms len by (auto simp: frame_message_def itch_skips_def split: option.splits)
  then show ?thesis
    using e(1) len by (simp add: parse_next_eq frame_complete_def parser_at_def)
qed

lemma iex_parse_skipped:
  assumes "iex_skips e"
  shows "iex_parse_next (iex_at (pre @ e @ post) (length pre)) =
    Some (None, iex_at (pre @ e @ post) (length pre + length e))"
proof -
  have "hd (e @ post) = hd e" using assms by (cases e) (simp_all add: iex_skips_def)
  then show ?thesis
    using assms by (simp add: iex_parse_next_eq iex_at_def message_at_def advance_at_def iex_skips_def)
qed

interpretation itch_mixed: skipping_parser parse_next has_more parser_at encode_message valid_message itch_skips
  by unfold_locales (auto simp: itch_parse_skipped, simp add: itch_skips_def)

interpretation iex_mixed: skipping_parser iex_parse_next iex_has_more iex_at iex_encode iex_valid iex_skips
  by unfold_locales (auto simp: iex_parse_skipped, simp add: iex_skips_def)

text \<open>A message of an ignored kind, with any body.\<close>

definition itch_ignored_frame :: "itch_kind \<Rightarrow> u8 list \<Rightarrow> u8 list" where
  "itch_ignored_frame k body = be_bytes 2 (of_nat (3 + length body) :: u16) @ itch_code k # body"

definition iex_ignored_header :: "iex_kind \<Rightarrow> u64 \<Rightarrow> u8 list" where
  "iex_ignored_header k ts = iex_code k # le_bytes 8 ts"

lemma itch_ignored_skips:
  "k \<in> set itch_ignored \<Longrightarrow> length body < 2 ^ 16 - 3 \<Longrightarrow> itch_skips (itch_ignored_frame k body)"
  using itch_dispatch_kinds [of k]
  by (simp add: itch_skips_def itch_ignored_frame_def be_bytes_def nth_append)

lemma iex_ignored_skips: "k \<in> set iex_ignored \<Longrightarrow> iex_skips (iex_ignored_header k ts)"
  using iex_dispatch_kinds [of k] by (simp add: iex_skips_def iex_ignored_header_def)

lemma messages_append: "messages (xs @ ys) = messages xs @ messages ys"
  by (induction xs rule: messages.induct) simp_all

lemma messages_map: "messages (map Message ms) = ms"
  by (induction ms) simp_all

text \<open>
  C38. A well-framed ITCH stream of all kinds is drained to exactly the messages of the kinds that
  the parser reads, in order: frames of any other kind, and frames shorter than the struct
  of their kind, are passed over whole. So is a message of the nine of the nineteen kinds named by
  \<open>MessageType\<close> that the parser does not read, wherever it stands and whatever its body.
\<close>
theorem itch_mixed_stream:
  assumes "\<forall>s\<in>set ss \<union> set ss'. segment_ok valid_message itch_skips s"
    and "k \<in> set itch_ignored" and "length body < 2 ^ 16 - 3"
  shows "drain parse_next has_more (parser_new (concat (map (segment_bytes encode_message) ss) @
      itch_ignored_frame k body @ concat (map (segment_bytes encode_message) ss'))) [] =
    Some (messages ss @ messages ss')"
  using itch_mixed.drain_segments [of "ss @ Other (itch_ignored_frame k body) # ss'"] assms
    itch_ignored_skips [OF assms(2,3)]
  by (simp add: parser_new_def messages_append ball_Un)


theorem itch_mixed_stream_witness:
  "drain parse_next has_more (parser_new (encode_message (AddOrder sample_add) @
     itch_ignored_frame K_NOII [1, 2, 3] @ [0, 5, ch CHR ''Z'', 1, 2])) [] = Some [AddOrder sample_add]"
proof -
  have v: "valid_message (AddOrder sample_add)" using sample_msgs_valid by (simp add: sample_msgs_def)
  have "be_bytes 2 (5 :: u16) = [0, 5]" "dispatch (ch CHR ''Z'') = None" by code_simp+
  then have "itch_skips [0, 5, ch CHR ''Z'', 1, 2]" by (simp add: itch_skips_def)
  with v have "\<forall>s\<in>set [Message (AddOrder sample_add)] \<union> set [Other [0, 5, ch CHR ''Z'', 1, 2]].
      segment_ok valid_message itch_skips s"
    by simp
  then have "drain parse_next has_more (parser_new
      (concat (map (segment_bytes encode_message) [Message (AddOrder sample_add)]) @ itch_ignored_frame K_NOII [1, 2, 3] @
       concat (map (segment_bytes encode_message) [Other [0, 5, ch CHR ''Z'', 1, 2]]))) [] =
      Some (messages [Message (AddOrder sample_add)] @ messages [Other [0, 5, ch CHR ''Z'', 1, 2]])"
    by (rule itch_mixed_stream) (simp_all add: itch_ignored_def)
  then show ?thesis
    by (simp only: list.map segment_bytes.simps concat.simps append_Nil2 messages.simps append.simps)
qed


end
