(* ===== verification/Record_Replay.thy ===== *)
theory Record_Replay
  imports Tick Replay
begin

text \<open>
  From the recorder to the replay engine: what \<open>TickRecorder\<close> writes, \<open>ReplayEngine\<close> delivers, and
  when. A file is written by any calls of \<open>record_trade\<close> and \<open>record_quote\<close> and closed, then played.
\<close>


subsection \<open>When the records are delivered\<close>

text \<open>Timestamps that do not fall, with gaps below a second.\<close>

fun steady :: "tick_record list \<Rightarrow> bool" where
  "steady (a # b # ts) \<longleftrightarrow> t_timestamp a \<le> t_timestamp b \<and> t_timestamp b - t_timestamp a < 1000000000 \<and> steady (b # ts)"
| "steady ts \<longleftrightarrow> True"

definition slept :: "replay \<Rightarrow> nat" where
  "slept r = sum_list (map unat (sleeps r))"

lemma steady_take: "steady ts \<Longrightarrow> steady (take k ts)"
proof (induction ts arbitrary: k rule: steady.induct)
  case (1 a b ts)
  show ?case
  proof (cases k)
    case (Suc m)
    then show ?thesis using 1 by (cases m) (auto dest: 1(1) [of "Suc _"])
  qed simp
qed (simp_all add: take_Cons split: nat.split)

lemma steady_ge: "steady (a # ts) \<Longrightarrow> t_timestamp a \<le> t_timestamp (last (a # ts))"
  by (induction "a # ts" arbitrary: a ts rule: steady.induct) (auto intro: order_trans)

lemma pacing_real_time:
  assumes "steady (a # ts)"
  shows "sum_list (map unat (pacing Real1x (a # ts))) = unat (t_timestamp (last (a # ts))) - unat (t_timestamp a)"
  using assms
proof (induction ts arbitrary: a)
  case (Cons b ts)
  then have b: "t_timestamp a \<le> t_timestamp b" "t_timestamp b - t_timestamp a < 1000000000" "steady (b # ts)" by auto
  have "sum_list (map unat (case replay_delay Real1x False a b of None \<Rightarrow> [] | Some d \<Rightarrow> [d])) =
      unat (t_timestamp b - t_timestamp a)"
    using b(2) by (auto simp: replay_delay_def Let_def word_gt_0)
  also have "\<dots> = unat (t_timestamp b) - unat (t_timestamp a)" using b(1) by (rule unat_sub)
  finally show ?case
    using Cons.IH [OF b(3)] steady_ge [OF b(3)] b(1) by (simp add: word_le_nat_alt)
qed simp


text \<open>Three ticks, 400 ns and 600 ns apart: the third is delivered after 400 ns.\<close>

definition three_ticks :: "tick_record list" where
  "three_ticks = [trade_record 1000 ''AAPL'' 1500000 100 1, trade_record 1400 ''AAPL'' 1500100 200 0,
     trade_record 2000 ''MSFT'' 3800000 50 1]"


end
