(* ===== verification/Tick_Windows.thy ===== *)
theory Tick_Windows
  imports Tick
begin

text \<open>
  The \<open>_WIN32\<close> branches of \<open>TickRecorder\<close> and \<open>TickReader\<close> (\<open>src/tick_recorder.cpp\<close>). What the system
  calls return are arguments; a handle is a number, null is 0. Creating a mapping object larger
  than the file extends the file, with bytes \<open>fill\<close> that depend on the file system. \<open>end_ok\<close> says
  whether \<open>SetEndOfFile\<close> succeeds, for a file that is mapped and for one that is not.

  The constructor does not initialise \<open>mapping_handle_\<close>: it holds whatever was in that memory, which
  is the argument \<open>init\<close>. The handles passed to \<open>CloseHandle\<close> are kept in \<open>w_closed\<close>.
\<close>

record win_recorder =
  w_count :: nat
  w_mapping :: nat
  w_view :: bool
  w_mapped_size :: nat
  w_use_mmap :: bool
  w_file :: "u8 list"
  w_stream :: "u8 list"
  w_stream_ok :: bool
  w_closed :: "nat list"

definition win_new :: "bool \<Rightarrow> bool \<Rightarrow> bool \<Rightarrow> nat \<Rightarrow> win_recorder" where
  "win_new use_mmap open_ok stream_ok init =
     \<lparr>w_count = 0, w_mapping = init, w_view = False, w_mapped_size = 0, w_use_mmap = (use_mmap \<and> open_ok),
      w_file = [], w_stream = [], w_stream_ok = stream_ok, w_closed = []\<rparr>"

definition extend :: "(nat \<Rightarrow> u8) \<Rightarrow> nat \<Rightarrow> u8 list \<Rightarrow> u8 list" where
  "extend fill n f = f @ map fill [length f..<n]"

definition close_mapping :: "win_recorder \<Rightarrow> win_recorder" where
  "close_mapping s =
     (if w_mapping s \<noteq> 0 then s\<lparr>w_closed := w_closed s @ [w_mapping s], w_mapping := 0\<rparr> else s)"

text \<open>The outcome: the handle that \<open>CreateFileMappingA\<close> returns, and whether \<open>MapViewOfFile\<close> succeeds.\<close>

definition win_remap :: "(nat \<Rightarrow> u8) \<Rightarrow> nat \<times> bool \<Rightarrow> win_recorder \<Rightarrow> win_recorder" where
  "win_remap fill outcome s =
     (let needed = (w_count s + 1) * sizeof_tick
      in if needed \<le> w_mapped_size s then s
         else
           let new_size = max (needed * 2) (1024 * 1024);
               s1 = (close_mapping (s\<lparr>w_view := False\<rparr>))\<lparr>w_mapping := fst outcome\<rparr>
           in if fst outcome \<noteq> 0 then
                (let s2 = s1\<lparr>w_file := extend fill new_size (w_file s1)\<rparr>
                 in if snd outcome then s2\<lparr>w_view := True, w_mapped_size := new_size\<rparr> else s2)
              else s1)"

definition win_write :: "(nat \<Rightarrow> u8) \<Rightarrow> nat \<times> bool \<Rightarrow> tick_record \<Rightarrow> win_recorder \<Rightarrow> win_recorder option" where
  "win_write fill outcome t s =
     (if w_use_mmap s then
        (let s1 = win_remap fill outcome s
         in if w_view s1 then
              map_option (\<lambda>f. s1\<lparr>w_file := f, w_count := w_count s1 + 1\<rparr>)
                (store_at (w_count s1 * sizeof_tick) (encode_tick t) (w_file s1))
            else Some (s1\<lparr>w_count := w_count s1 + 1\<rparr>))
      else Some (s\<lparr>w_stream := w_stream s @ (if w_stream_ok s then encode_tick t else []),
                   w_count := w_count s + 1\<rparr>))"

text \<open>\<open>record_trade\<close> and \<open>record_quote\<close> write the records of \<open>op_records\<close>.\<close>

fun win_write_all :: "(nat \<Rightarrow> u8) \<Rightarrow> (nat \<Rightarrow> nat \<times> bool) \<Rightarrow> tick_record list \<Rightarrow> win_recorder \<Rightarrow> win_recorder option" where
  "win_write_all fill env [] s = Some s"
| "win_write_all fill env (t # ts) s =
     do { s1 \<leftarrow> win_write fill (env (w_count s)) t s; win_write_all fill env ts s1 }"

definition win_record_all ::
  "(nat \<Rightarrow> u8) \<Rightarrow> (nat \<Rightarrow> nat \<times> bool) \<Rightarrow> tick_op list \<Rightarrow> win_recorder \<Rightarrow> win_recorder option" where
  "win_record_all fill env ops s = win_write_all fill env (concat (map op_records ops)) s"

definition win_flush :: "(bool \<Rightarrow> bool) \<Rightarrow> win_recorder \<Rightarrow> win_recorder" where
  "win_flush end_ok s =
     (if w_use_mmap s then
        (if end_ok (w_view s) then s\<lparr>w_file := resize (w_count s * sizeof_tick) (w_file s)\<rparr> else s)
      else s\<lparr>w_file := w_file s @ w_stream s, w_stream := []\<rparr>)"

text \<open>The destructor flushes while the file is still mapped; then it unmaps and closes.\<close>

definition win_destroy :: "(bool \<Rightarrow> bool) \<Rightarrow> win_recorder \<Rightarrow> win_recorder" where
  "win_destroy end_ok s =
     (let s1 = win_flush end_ok s in if w_use_mmap s1 then close_mapping (s1\<lparr>w_view := False\<rparr>) else s1)"

definition win_close :: "(bool \<Rightarrow> bool) \<Rightarrow> win_recorder \<Rightarrow> u8 list" where
  "win_close end_ok s = w_file (win_destroy end_ok s)"

text \<open>The reader; a mapping object of an empty file is refused.\<close>

definition win_reader_open :: "bool \<Rightarrow> bool \<Rightarrow> u8 list \<Rightarrow> tick_reader" where
  "win_reader_open mapping_ok view_ok f =
     \<lparr>tr_file = f, tr_mapped = (mapping_ok \<and> f \<noteq> [] \<and> view_ok), tr_offset = 0\<rparr>"

subsection \<open>The file while it is written\<close>

definition win_recorded :: "win_recorder \<Rightarrow> tick_record list \<Rightarrow> bool" where
  "win_recorded s ts \<longleftrightarrow> w_count s = length ts \<and> (\<forall>t\<in>set ts. tick_ok t) \<and>
     (if w_use_mmap s
      then w_mapped_size s = length (w_file s) \<and> 40 * length ts \<le> length (w_file s) \<and>
           take (40 * length ts) (w_file s) = encode_ticks ts \<and>
           (if ts = [] then w_file s = [] \<and> \<not> w_view s else w_view s \<and> 2 ^ 20 \<le> length (w_file s))
      else w_file s = [] \<and> w_stream_ok s \<and> w_stream s = encode_ticks ts)"

lemma length_extend [simp]: "length (extend fill n f) = max n (length f)"
  by (simp add: extend_def)

lemma take_extend: "m \<le> length f \<Longrightarrow> take m (extend fill n f) = take m f"
  by (simp add: extend_def)

lemma close_mapping_file [simp]:
  "w_file (close_mapping s) = w_file s" "w_count (close_mapping s) = w_count s"
  "w_use_mmap (close_mapping s) = w_use_mmap s" "w_mapped_size (close_mapping s) = w_mapped_size s"
  "w_view (close_mapping s) = w_view s"
  by (simp_all add: close_mapping_def)

text \<open>What the remapping leaves, when its calls succeed: room for one more record.\<close>

lemma win_remap_room:
  assumes "win_recorded s ts" and "w_use_mmap s" and "h \<noteq> 0" and s1: "s1 = win_remap fill (h, True) s"
  shows "w_count s1 = length ts \<and> w_use_mmap s1 \<and> w_view s1 \<and> w_mapped_size s1 = length (w_file s1) \<and>
    40 * length ts + 40 \<le> length (w_file s1) \<and> 2 ^ 20 \<le> length (w_file s1) \<and>
    take (40 * length ts) (w_file s1) = encode_ticks ts"
proof (cases "(w_count s + 1) * 40 \<le> w_mapped_size s")
  case True
  then show ?thesis
    using assms(1,2) by (auto simp: s1 win_remap_def sizeof_tick_def win_recorded_def split: if_splits)
next
  case False
  then show ?thesis
    using assms(1-3) take_extend [of "40 * length ts" "w_file s" fill]
    by (simp add: s1 win_remap_def sizeof_tick_def win_recorded_def Let_def max_def)
qed

lemma win_recorded_write:
  assumes "win_recorded s ts" and "tick_ok t" and "h \<noteq> 0"
  shows "\<exists>s'. win_write fill (h, True) t s = Some s' \<and> win_recorded s' (ts @ [t]) \<and> w_use_mmap s' = w_use_mmap s"
proof (cases "w_use_mmap s")
  case False
  with assms show ?thesis by (simp add: win_write_def win_recorded_def encode_ticks_def)
next
  case True
  let ?s1 = "win_remap fill (h, True) s"
  let ?f = "w_file ?s1" and ?n = "40 * length ts"
  let ?f' = "take ?n ?f @ encode_tick t @ drop (?n + 40) ?f"
  note r = win_remap_room [OF assms(1) True assms(3) refl, of fill]
  have w: "win_write fill (h, True) t s = Some (?s1\<lparr>w_file := ?f', w_count := w_count ?s1 + 1\<rparr>)"
    using True r assms(2) by (simp add: win_write_def Let_def store_at_def sizeof_tick_def mult.commute)
  have len: "length (encode_ticks ts) = ?n" using assms(1) length_encode_ticks [of ts] by (simp add: win_recorded_def)
  have "take (40 * length (ts @ [t])) ?f' = encode_ticks (ts @ [t])"
    using r assms(2) len by (simp add: encode_ticks_def)
  moreover have "length ?f' = length ?f" using r assms(2) len by simp
  ultimately have "win_recorded (?s1\<lparr>w_file := ?f', w_count := w_count ?s1 + 1\<rparr>) (ts @ [t])"
    using r assms(1,2) unfolding win_recorded_def by simp
  with w r True show ?thesis by simp
qed

lemma win_recorded_all:
  assumes "win_recorded s ts" and "\<forall>t\<in>set us. tick_ok t" and "\<And>i. fst (env i) \<noteq> 0 \<and> snd (env i)"
  shows "\<exists>s'. win_write_all fill env us s = Some s' \<and> win_recorded s' (ts @ us) \<and> w_use_mmap s' = w_use_mmap s"
  using assms(1,2)
proof (induction us arbitrary: s ts)
  case (Cons t us)
  have "env (w_count s) = (fst (env (w_count s)), True)" using assms(3) [of "w_count s"] by (simp add: prod_eq_iff)
  then obtain s1 where s1: "win_write fill (env (w_count s)) t s = Some s1" "win_recorded s1 (ts @ [t])"
      "w_use_mmap s1 = w_use_mmap s"
    using win_recorded_write [OF Cons.prems(1), of t "fst (env (w_count s))" fill] Cons.prems(2) assms(3) by auto
  with Cons.IH [OF s1(2)] Cons.prems(2) show ?case by auto
qed auto

lemma win_recorded_new: "win_recorded (win_new use_mmap open_ok True init) []"
  by (simp add: win_recorded_def win_new_def encode_ticks_def)

text \<open>
  C39. On Windows, where \<open>SetEndOfFile\<close> fails on a mapped file, a recorder that maps its file never
  cuts it: whatever is recorded, and however few records they are, the closed file is at least
  a megabyte long. It starts with the records, in order, but goes on with what the file system
  filled in, and \<open>total_records\<close> counts that as well: at least 26214. Without the map, or if
  \<open>SetEndOfFile\<close> did cut mapped files, the file would hold exactly the records.
\<close>
theorem windows_file_padded:
  assumes "\<And>i. fst (env i) \<noteq> 0 \<and> snd (env i)" and "ops \<noteq> []"
  shows "\<exists>s. win_record_all fill env ops (win_new use_mmap open_ok True init) = Some s \<and>
    (let f = win_close end_ok s; ts = concat (map op_records ops)
     in take (40 * length ts) f = encode_ticks ts \<and>
        (if use_mmap \<and> open_ok \<and> \<not> end_ok True
         then 2 ^ 20 \<le> length f \<and> 26214 \<le> total_records (win_reader_open True True f)
         else f = encode_ticks ts))"
proof -
  define ts where "ts = concat (map op_records ops)"
  have ok: "\<forall>t\<in>set ts. tick_ok t" using op_records_ok by (auto simp: ts_def)
  have ne: "ts \<noteq> []" using assms(2) by (cases ops; cases "hd ops") (auto simp: ts_def)
  let ?s0 = "win_new use_mmap open_ok True init"
  obtain s where s: "win_write_all fill env ts ?s0 = Some s" "win_recorded s ts" "w_use_mmap s = w_use_mmap ?s0"
    using win_recorded_all [where env = env and fill = fill, OF win_recorded_new [of use_mmap open_ok init] ok assms(1)]
    by (simp only: append_Nil) blast
  have um: "w_use_mmap ?s0 = (use_mmap \<and> open_ok)" by (simp add: win_new_def)
  have len: "length (encode_ticks ts) = 40 * length ts" by (rule length_encode_ticks [OF ok])
  have f: "win_close end_ok s = (if w_use_mmap s then
      (if end_ok True then take (40 * length ts) (w_file s) else w_file s) else encode_ticks ts)"
    using s(2) ne unfolding win_recorded_def win_close_def win_destroy_def win_flush_def Let_def
    by (auto simp: sizeof_tick_def resize_def mult.commute [of _ 40])
  have "(2 ^ 20 :: nat) div 40 \<le> length (w_file s) div 40" if "w_use_mmap s"
    using s(2) ne that unfolding win_recorded_def by (intro div_le_mono) simp
  then have big: "26214 \<le> length (w_file s) div 40" if "w_use_mmap s" using that by simp
  let ?f = "win_close end_ok s"
  have "take (40 * length ts) ?f = encode_ticks ts"
    using s(2) len unfolding f win_recorded_def by auto
  moreover have "(if use_mmap \<and> open_ok \<and> \<not> end_ok True
         then 2 ^ 20 \<le> length ?f \<and> 26214 \<le> total_records (win_reader_open True True ?f) else ?f = encode_ticks ts)"
    using s(2,3) ne len big unfolding f win_recorded_def um
    by (auto simp: total_records_def win_reader_open_def sizeof_tick_def)
  ultimately show ?thesis using s(1) by (simp add: win_record_all_def Let_def flip: ts_def)
qed

text \<open>
  The first record closes whatever handle the uninitialised member happens to name.
\<close>

lemma windows_closes_garbage:
  assumes "init \<noteq> 0"
  shows "init \<in> set (w_closed (win_remap fill outcome (win_new True True ok init)))"
  using assms by (simp add: win_remap_def win_new_def sizeof_tick_def Let_def close_mapping_def)

text \<open>
  A failed mapping drops the records, which are counted all the same, without touching memory:
  unlike the POSIX branch, this one is never undefined, whatever the calls return.
\<close>

definition view_ok :: "win_recorder \<Rightarrow> bool" where
  "view_ok s \<longleftrightarrow> (w_view s \<longrightarrow> w_use_mmap s \<and> w_mapped_size s \<le> length (w_file s) \<and> w_count s * 40 \<le> w_mapped_size s)"

lemma win_write_defined:
  assumes "view_ok s" and "tick_ok t"
  shows "\<exists>s'. win_write fill outcome t s = Some s' \<and> view_ok s' \<and> w_count s' = w_count s + 1"
  using assms
  by (auto simp: view_ok_def win_write_def win_remap_def sizeof_tick_def Let_def store_at_def)

lemma windows_never_undefined:
  assumes "\<forall>t\<in>set ts. tick_ok t"
  shows "\<exists>s. win_write_all fill env ts (win_new use_mmap open_ok ok init) = Some s \<and> w_count s = length ts"
proof -
  have "\<exists>s'. win_write_all fill env ts s = Some s' \<and> w_count s' = w_count s + length ts" if "view_ok s" for s
    using assms that
  proof (induction ts arbitrary: s)
    case (Cons t ts)
    then obtain s1 where "win_write fill (env (w_count s)) t s = Some s1" "view_ok s1" "w_count s1 = w_count s + 1"
      using win_write_defined [of s t fill "env (w_count s)"] by auto
    then show ?case using Cons.IH [of s1] Cons.prems by auto
  qed simp
  from this [of "win_new use_mmap open_ok ok init"] show ?thesis by (simp add: view_ok_def win_new_def)
qed

theorem windows_file_padded_witness:
  "\<exists>s. win_record_all (\<lambda>i. 0) (\<lambda>i. (i + 7, True)) [Trade 1 ''AAPL'' 1500000 100 1] (win_new True True True 0) = Some s \<and>
     26214 \<le> total_records (win_reader_open True True (win_close Not s))"
  using windows_file_padded [of "\<lambda>i. (i + 7, True)" "[Trade 1 ''AAPL'' 1500000 100 1]" "\<lambda>i. 0" True True 0 Not]
  by (auto simp: Let_def)

end
