(* ===== verification/Tick_Resources.thy ===== *)
theory Tick_Resources
  imports Tick "HOL-Library.Multiset"
begin

text \<open>
  The descriptors and the memory mappings that \<open>TickRecorder\<close> and \<open>TickReader\<close> hold
  (\<open>src/tick_recorder.cpp\<close>, the POSIX branches): constructors, remapping and destructors as the
  kernel sees them. The operations are those of \<open>Tick\<close>, with the state of the kernel beside them.
  \<open>None\<close> is what \<open>Tick\<close> leaves undefined, and also \<open>munmap\<close> with a length that no mapping has and
  \<open>close\<close> of a descriptor that is not open.
\<close>

record kernel =
  descriptors :: nat
  mappings :: "nat multiset"

definition sys_mmap :: "nat \<Rightarrow> kernel \<Rightarrow> kernel" where
  "sys_mmap n k = k\<lparr>mappings := add_mset n (mappings k)\<rparr>"

definition sys_munmap :: "nat \<Rightarrow> kernel \<Rightarrow> kernel option" where
  "sys_munmap n k = (if n \<in># mappings k then Some (k\<lparr>mappings := mappings k - {#n#}\<rparr>) else None)"

definition sys_open :: "kernel \<Rightarrow> kernel" where
  "sys_open k = k\<lparr>descriptors := descriptors k + 1\<rparr>"

definition sys_close :: "kernel \<Rightarrow> kernel option" where
  "sys_close k = (if 0 < descriptors k then Some (k\<lparr>descriptors := descriptors k - 1\<rparr>) else None)"

subsection \<open>The recorder\<close>

definition res_new :: "bool \<Rightarrow> bool \<Rightarrow> bool \<Rightarrow> kernel \<Rightarrow> recorder \<times> kernel" where
  "res_new use_mmap open_ok stream_ok k =
     (recorder_new use_mmap open_ok stream_ok, if use_mmap \<and> open_ok then sys_open k else k)"

definition res_remap :: "bool \<times> bool \<Rightarrow> recorder \<Rightarrow> kernel \<Rightarrow> kernel option" where
  "res_remap outcome s k =
     (let needed = (rc_count s + 1) * sizeof_tick
      in if needed \<le> rc_mapped_size s then Some k
         else do {
           k1 \<leftarrow> (if rc_mapping s = Mapped then sys_munmap (rc_mapped_size s) k else Some k);
           Some (if fst outcome \<and> snd outcome then sys_mmap (max (needed * 2) (1024 * 1024)) k1 else k1) })"

definition res_write :: "bool \<times> bool \<Rightarrow> tick_record \<Rightarrow> recorder \<times> kernel \<Rightarrow> (recorder \<times> kernel) option" where
  "res_write outcome t sk = do {
     k1 \<leftarrow> (if rc_use_mmap (fst sk) then res_remap outcome (fst sk) (snd sk) else Some (snd sk));
     s1 \<leftarrow> write_record outcome t (fst sk);
     Some (s1, k1) }"

fun res_write_all ::
  "(nat \<Rightarrow> bool \<times> bool) \<Rightarrow> tick_record list \<Rightarrow> recorder \<times> kernel \<Rightarrow> (recorder \<times> kernel) option" where
  "res_write_all env [] sk = Some sk"
| "res_write_all env (t # ts) sk = do { sk1 \<leftarrow> res_write (env (rc_count (fst sk))) t sk; res_write_all env ts sk1 }"

fun write_all :: "(nat \<Rightarrow> bool \<times> bool) \<Rightarrow> tick_record list \<Rightarrow> recorder \<Rightarrow> recorder option" where
  "write_all env [] s = Some s"
| "write_all env (t # ts) s = do { s1 \<leftarrow> write_record (env (rc_count s)) t s; write_all env ts s1 }"

text \<open>The destructor: flush, unmap, close. The stream closes its own file.\<close>

definition res_destroy :: "bool \<Rightarrow> recorder \<times> kernel \<Rightarrow> kernel option" where
  "res_destroy trunc_ok sk =
     (let s = rc_flush trunc_ok (fst sk)
      in if rc_use_mmap s then do {
           k1 \<leftarrow> (if rc_mapping s = Mapped then sys_munmap (rc_mapped_size s) (snd sk) else Some (snd sk));
           sys_close k1 }
         else Some (snd sk))"

subsection \<open>The reader\<close>

text \<open>A file that cannot be opened makes the constructor throw (\<open>None\<close>), with nothing to release.\<close>

definition res_reader :: "bool \<Rightarrow> bool \<Rightarrow> u8 list \<Rightarrow> kernel \<Rightarrow> (tick_reader \<times> kernel) option" where
  "res_reader open_ok mmap_ok f k =
     (if \<not> open_ok then None
      else let r = reader_open mmap_ok f; k1 = sys_open k
           in Some (r, if tr_mapped r then sys_mmap (length f) k1 else k1))"

definition res_reader_destroy :: "tick_reader \<Rightarrow> kernel \<Rightarrow> kernel option" where
  "res_reader_destroy r k = do {
     k1 \<leftarrow> (if tr_mapped r then sys_munmap (length (tr_file r)) k else Some k);
     sys_close k1 }"

subsection \<open>What is held\<close>

definition holds :: "kernel \<Rightarrow> recorder \<Rightarrow> kernel \<Rightarrow> bool" where
  "holds k0 s k \<longleftrightarrow>
     descriptors k = descriptors k0 + (if rc_use_mmap s then 1 else 0) \<and>
     mappings k = mappings k0 + (if rc_mapping s = Mapped then {#rc_mapped_size s#} else {#}) \<and>
     (rc_mapping s = Mapped \<longrightarrow> rc_use_mmap s)"

lemmas sys_defs = sys_mmap_def sys_munmap_def sys_open_def sys_close_def

lemma holds_remap:
  assumes "holds k0 s k" and "rc_use_mmap s"
  shows "\<exists>k1. res_remap outcome s k = Some k1 \<and> holds k0 (remap_if_needed outcome s) k1"
  using assms by (auto simp: holds_def res_remap_def remap_if_needed_def Let_def sys_defs)

lemma write_record_keeps:
  assumes "write_record outcome t s = Some s1"
  shows "rc_use_mmap s1 = rc_use_mmap s"
    and "rc_mapping s1 = rc_mapping (if rc_use_mmap s then remap_if_needed outcome s else s)"
    and "rc_mapped_size s1 = rc_mapped_size (if rc_use_mmap s then remap_if_needed outcome s else s)"
  using assms by (auto simp: write_record_def remap_if_needed_def Let_def split: if_splits mapping.splits)

lemma holds_write:
  assumes "holds k0 s k" and "write_record outcome t s = Some s1"
  shows "\<exists>k1. res_write outcome t (s, k) = Some (s1, k1) \<and> holds k0 s1 k1"
proof (cases "rc_use_mmap s")
  case True
  then obtain k1 where k1: "res_remap outcome s k = Some k1" "holds k0 (remap_if_needed outcome s) k1"
    using holds_remap [OF assms(1)] by blast
  moreover have "rc_use_mmap (remap_if_needed outcome s) = rc_use_mmap s"
    by (simp add: remap_if_needed_def Let_def)
  ultimately show ?thesis
    using True assms(2) write_record_keeps [OF assms(2)] by (simp add: res_write_def holds_def)
next
  case False
  then show ?thesis
    using assms write_record_keeps [OF assms(2)] by (auto simp: res_write_def holds_def)
qed

lemma holds_write_all:
  assumes "holds k0 s k" and "write_all env ts s = Some s1"
  shows "\<exists>k1. res_write_all env ts (s, k) = Some (s1, k1) \<and> holds k0 s1 k1"
  using assms
proof (induction ts arbitrary: s k)
  case (Cons t ts)
  then obtain s2 where s2: "write_record (env (rc_count s)) t s = Some s2" "write_all env ts s2 = Some s1"
    by (auto split: Option.bind_splits)
  obtain k2 where "res_write (env (rc_count s)) t (s, k) = Some (s2, k2)" "holds k0 s2 k2"
    using holds_write [OF Cons.prems(1) s2(1)] by blast
  with Cons.IH [OF _ s2(2)] show ?case by simp
qed simp

lemma holds_destroy: "holds k0 s k \<Longrightarrow> res_destroy trunc_ok (s, k) = Some k0"
  by (cases k0; cases k) (auto simp: holds_def res_destroy_def rc_flush_def Let_def sys_defs)

lemma holds_new: "holds k (fst (res_new use_mmap open_ok ok k)) (snd (res_new use_mmap open_ok ok k))"
  by (simp add: holds_def res_new_def recorder_new_def sys_defs)

text \<open>The writes are those of \<open>record_trade\<close> and \<open>record_quote\<close>.\<close>

lemma write_all_append:
  "write_all env (ts @ us) s = do { s1 \<leftarrow> write_all env ts s; write_all env us s1 }"
  by (induction ts arbitrary: s) (simp_all split: Option.bind_split)

lemma write_record_count: "write_record outcome t s = Some s1 \<Longrightarrow> rc_count s1 = rc_count s + 1"
  by (auto simp: write_record_def remap_if_needed_def Let_def split: if_splits mapping.splits)

lemma record_all_writes: "record_all env ops s = write_all env (concat (map op_records ops)) s"
proof (induction ops arbitrary: s)
  case (Cons op ops)
  have "record_op env op s = write_all env (op_records op) s"
  proof (cases op)
    case (Trade ts nm p sz sd)
    then show ?thesis by (simp add: record_trade_def split: Option.bind_split)
  next
    case (Quote ts nm bp bs ap sz)
    then show ?thesis
      by (auto simp: record_quote_def bid_record_def Let_def split: Option.bind_split)
  qed
  moreover have "record_all env ops = write_all env (concat (map op_records ops))" by (rule ext) (rule Cons)
  ultimately show ?case by (simp add: write_all_append)
qed simp

text \<open>
  C40. Nothing leaks and nothing is released twice: whatever the system calls answer, as long as the
  recording itself is defined every \<open>munmap\<close> names a live mapping with its length, and after the
  destructor the kernel holds exactly the descriptors and mappings it held before the
  constructor; and the same for a reader of any file.
\<close>
theorem tick_files_released:
  "(case record_all env ops (recorder_new use_mmap open_ok stream_ok) of
      None \<Rightarrow> True
    | Some s \<Rightarrow> \<exists>k1. res_write_all env (concat (map op_records ops)) (res_new use_mmap open_ok stream_ok k) = Some (s, k1) \<and>
        res_destroy trunc_ok (s, k1) = Some k) \<and>
   (case res_reader file_ok mmap_ok f k of
      None \<Rightarrow> \<not> file_ok
    | Some (r, k1) \<Rightarrow> res_reader_destroy r k1 = Some k)"
proof (intro conjI)
  show "case record_all env ops (recorder_new use_mmap open_ok stream_ok) of
      None \<Rightarrow> True
    | Some s \<Rightarrow> \<exists>k1. res_write_all env (concat (map op_records ops)) (res_new use_mmap open_ok stream_ok k) = Some (s, k1) \<and>
        res_destroy trunc_ok (s, k1) = Some k"
  proof (split option.split, intro conjI allI impI)
    fix s assume "record_all env ops (recorder_new use_mmap open_ok stream_ok) = Some s"
    then show "\<exists>k1. res_write_all env (concat (map op_records ops)) (res_new use_mmap open_ok stream_ok k) = Some (s, k1) \<and>
        res_destroy trunc_ok (s, k1) = Some k"
      using holds_write_all [OF holds_new [of k use_mmap open_ok stream_ok]] holds_destroy
      by (fastforce simp: res_new_def record_all_writes)
  qed simp
  show "case res_reader file_ok mmap_ok f k of
      None \<Rightarrow> \<not> file_ok
    | Some (r, k1) \<Rightarrow> res_reader_destroy r k1 = Some k"
    by (cases k) (auto simp: res_reader_def res_reader_destroy_def reader_open_def Let_def sys_defs)
qed

end
