(* ===== verification/Spec2Isabelle.thy ===== *)
theory Spec2Isabelle
  imports Order_Book Enhanced_Book Itch Iex Md_Parser Pcap Spsc Mpsc Memory_Pool Replay Base64 Sha1 WebSocket
    Strategy Latency Bench Demo Demo_Itch Pipeline Micro Spsc_Weak Mpsc_Weak Console Tsc Bench_Report
    Demo_Report Feed_Kinds Record_Replay Tick_Windows Tick_Resources
begin

text \<open>
  A verification library for the market data feed handler, a C++17 program under \<open>src/\<close>.

  \<^bold>\<open>The program.\<close> Exchange feeds come in as captured packets (\<open>pcap_reader\<close>) or byte buffers and are
  parsed into messages (\<open>itch_parser\<close>, \<open>iex_parser\<close>, \<open>marketdata_parser\<close>). Messages go through a
  lock-free queue (\<open>lock_free_queue.hpp\<close>) to an order book, either one of price levels
  (\<open>order_book\<close>) or one of single orders (\<open>enhanced_order_book\<close>). Snapshots of a book drive a trading
  strategy (\<open>strategy\<close>), ticks are recorded to a file (\<open>tick_recorder\<close>) and replayed from it
  (\<open>replay_engine\<close>), updates are broadcast to WebSocket clients (\<open>websocket_server\<close>), and latencies
  are collected in histograms (\<open>latency_tracker.hpp\<close>, \<open>latency_histogram.hpp\<close>, \<open>timer.hpp\<close>). The
  programs \<open>main.cpp\<close>, \<open>benchmark.cpp\<close>, \<open>advanced_benchmark.cpp\<close> and \<open>full_pipeline_benchmark.cpp\<close>
  compose these parts; \<open>data/generate_sample_itch.py\<close> writes an input file.

  \<^bold>\<open>Conventions.\<close> Unsigned integers are words of their width and wrap; \<open>int64_t\<close> is a 64-bit word
  compared as a signed number. A \<open>double\<close> is the rational value of a finite IEEE binary64 number, and
  \<open>fl\<close> rounds to nearest, ties to even, after every operation (\<open>Binary64\<close>). \<open>None\<close> stands for what
  C++ leaves undefined (a read outside a buffer, a use of a freed node, a store outside a mapping)
  and for a loop that never ends; \<open>false\<close> and \<open>nullopt\<close> are values. Outcomes of system calls,
  random draws, clock readings and the choice of the allocator are arguments, so that a theorem
  holds for all of them.

  \<^bold>\<open>Shared theories.\<close>
  \<^item> \<open>Prelude\<close>: word types, rewrite collections, sums over finite maps.
  \<^item> \<open>Bytes\<close>: byte buffers, bounded reads, little- and big-endian integers.
  \<^item> \<open>Binary64\<close>: rounding; the locale \<open>rounding\<close> states monotonicity, symmetry and exactness on
    integers up to \<open>2 ^ 53\<close>, interpreted by \<open>fl\<close>.
  \<^item> \<open>Ordered_Map\<close>: \<open>std::map\<close> over a comparator; the locale \<open>comparator\<close> is interpreted by the
    three comparators of the program.
  \<^item> \<open>Framing\<close>: the loop \<open>while (has_more()) parse_next()\<close> of the parsers' clients, as a possibly
    non-terminating function; the locale \<open>framed_parser\<close> is what the loop needs of a parser.
  \<^item> \<open>Fifo\<close>: the locale \<open>fifo\<close>, what the clients of a queue need, over an abstract list.

  \<^bold>\<open>Components.\<close> Each theory keeps the names and the order of the code.
  \<^item> \<open>Order_Book\<close> (\<open>order_book.{hpp,cpp}\<close>): \<open>OrderBook\<close> and \<open>OrderBookManager\<close>. The two sides refine
    a map from prices to size and count; sorted, keyed levels are an invariant of every operation;
    the manager isolates its symbols.
  \<^item> \<open>Enhanced_Book\<close> (\<open>enhanced_order_book.{hpp,cpp}\<close>): the book of orders refines the map of live
    orders; levels, totals, best quotes, depth and crossing are what the live orders say, as long as
    added quantities are positive and their sum stays below \<open>2 ^ 64\<close>; what happens outside of these
    bounds, and what a refused operation changes, are theorems of their own.
  \<^item> \<open>Itch\<close>, \<open>Iex\<close> (\<open>itch_parser\<close>, \<open>iex_parser\<close>): all message structs with their byte orders; no
    read leaves the buffer; encoded streams are drained exactly; a truncated stream makes the client
    loop diverge. Both interpret \<open>framed_parser\<close>.
  \<^item> \<open>Feed_Kinds\<close>: the message kinds that the two protocols name, those the parsers do not read, and
    streams that carry them all; both parsers interpret \<open>skipping_parser\<close>, an extension of
    \<open>framed_parser\<close>. The IEX parser goes on inside a message that it does not know.
  \<^item> \<open>Md_Parser\<close> (\<open>marketdata_parser\<close> and the Python generator): the flat add-order message.
  \<^item> \<open>Pcap\<close> (\<open>pcap_reader\<close>): file header, packet iteration, Ethernet, IPv4 and UDP headers.
  \<^item> \<open>Spsc\<close>, \<open>Mpsc\<close> (\<open>lock_free_queue.hpp\<close>): the queues run by one thread refine a list
    (interpretations of \<open>fifo\<close>) across the wrap-around of the counters; run by several threads, step by step, they
    keep first-in-first-out order, race free, and never touch a freed node. Memory is sequentially
    consistent there.
  \<^item> \<open>Weak_Memory\<close>, \<open>Spsc_Weak\<close>, \<open>Mpsc_Weak\<close>: the same threads under the release and acquire orders
    of C++: a load may return an older message, a plain access that is not ordered after the
    last write is a data race, and so is an access to a freed node. The queues have no race, and
    all that stale reads add to the interleavings are refusals.
  \<^item> \<open>Memory_Pool\<close> (\<open>memory_pool.hpp\<close>): chunks and the free list threaded through them refine a heap.
  \<^item> \<open>Tick\<close>, \<open>Replay\<close> (\<open>tick_recorder\<close>, \<open>replay_engine\<close>): recording through a memory map or a stream,
    reading back, and the replay thread interleaved with start, stop, pause and resume.
  \<^item> \<open>Tick_Windows\<close>: the Windows branches of the recorder, which never undo a mapping's extension of
    the file. \<open>Tick_Resources\<close>: the descriptors and mappings that recorder and reader hold; none leaks.
  \<^item> \<open>Record_Replay\<close>: recorder and replay engine together, and when the records are delivered: each one gap early.
  \<^item> \<open>Base64\<close>, \<open>Sha1\<close>, \<open>WebSocket\<close> (\<open>websocket_server.{hpp,cpp}\<close>): the hash equals FIPS 180-4; the
    handshake answers exactly the terminated key headers; broadcasts are read back by a receiver
    of RFC 6455; the server with its accept thread is a step relation with an invariant on
    descriptors and clients, and \<open>stop\<close> completes once \<open>accept\<close> returns.
  \<^item> \<open>Strategy\<close> (\<open>strategy.{hpp,cpp}\<close>): signals and positions.
  \<^item> \<open>Latency\<close> (\<open>latency_tracker.hpp\<close>, \<open>latency_histogram.hpp\<close>, \<open>timer.hpp\<close>, \<open>LatencyStats\<close>): the
    percentile functions are order statistics; the locale \<open>quantile\<close> is interpreted by their ranks.
    The bucket histogram saturates at 1023 cycles.
  \<^item> \<open>Tsc\<close> (\<open>latency_tracker.hpp\<close>, \<open>timer.hpp\<close>): the functions around the time stamp counter, what a
    measured difference covers, and how far the times of \<open>Timer\<close> are from the true ones, after
    either branch of \<open>calibrate\<close>.
  \<^item> \<open>Console\<close>: \<open>std::cout\<close> with its format settings; what is printed can be read back.

  \<^bold>\<open>Programs.\<close>
  \<^item> \<open>Bench\<close> (\<open>benchmark.cpp\<close>): the workloads over queue, pool, parser, book and the whole pipeline;
    which of them end, and with what.
  \<^item> \<open>Demo\<close>, \<open>Demo_Itch\<close> (\<open>main.cpp\<close>): the complete system for any draws, with its report; the ITCH
    demo; the generator of a sample tick file.
  \<^item> \<open>Pipeline\<close> (\<open>full_pipeline_benchmark.cpp\<close>, \<open>generate_sample_itch.py\<close>): from the Python
    generator through the C++ parser to the report.
  \<^item> \<open>Bench_Report\<close>, \<open>Demo_Report\<close>: everything these programs print, line by line, and their \<open>main\<close>
    functions; the text of the ITCH demo is a theorem. \<open>benchmark.cpp\<close> hangs before its first report.
  \<^item> \<open>Micro\<close> (\<open>advanced_benchmark.cpp\<close>): the repeated bodies for any number of iterations.

  \<^bold>\<open>Loops and fuel.\<close> Loops that may not end are \<open>partial_function (option)\<close>: \<open>drain\<close>,
  \<open>itch_demo_loop\<close>, \<open>itch_shown_loop\<close>, \<open>spin_push\<close>, \<open>spin_pop\<close>. Their theorems state the value \<open>Some\<close> or \<open>None\<close>, so
  ending and not ending are both proved. Two readers count down: \<open>read_packets\<close> and \<open>read_ticks\<close>; their
  theorems hold for every bound at least the number of records in the file, which is enough
  since every call consumes one. The receiver \<open>decode_frames\<close> is bounded by the number of
  frames sent. All other loops are structural recursion or have a termination proof.

  \<^bold>\<open>Not modelled.\<close> The instructions that read the time stamp counter are parameters with the
  behaviour that the processor manual documents. The \<open>_WIN32\<close> branches of the sockets make the
  same steps through other calls; those of the recorder and of \<open>calibrate\<close> are modelled. Consume orders and fences do
  not occur in the code. Infinities and NaN do not arise from the values the code computes with
  (a division by zero is \<open>None\<close>); where they are only printed they are values of \<open>Console\<close>. Outside
  are also exceptions of the allocator; the unit tests; \<open>std::random_device\<close> and the distributions;
  the benchmark library that repeats the bodies of \<open>Micro\<close> and prints their times.
\<close>

end
